(* ===== verification/Prelude.thy ===== *)
theory Prelude
  imports Main "HOL-Library.Word" "HOL-Library.Multiset" "HOL-Library.AList"
begin

text \<open>
  Shared vocabulary of the development: the types that stand for Go's byte slices, strings and
  maps, 64-bit wrap-around and truncating division, decimal printing and parsing as
  \<^verbatim>\<open>strconv\<close> does them, and the generic list and map lemmas the component theories use.
  A Go \<^verbatim>\<open>string\<close> and a \<^verbatim>\<open>[]byte\<close> are both lists of bytes, HOL's \<^typ>\<open>string\<close>
  (a \<^typ>\<open>char\<close> is one byte); a slice whose nil-ness is observed is an \<^typ>\<open>'a option\<close>.
\<close>

type_synonym bytes = string

named_theorems inv_rules \<open>preservation rules of component invariants\<close>
named_theorems wire_simps \<open>equations of encoders, decoders and key layouts\<close>

section \<open>Machine integers\<close>

text \<open>An \<^verbatim>\<open>int64\<close> holds the two's complement residue of the mathematical result.\<close>

definition int64 :: "int \<Rightarrow> int" where
  "int64 x = (x + 2 ^ 63) mod 2 ^ 64 - 2 ^ 63"

definition in_int64 :: "int \<Rightarrow> bool" where
  "in_int64 x \<longleftrightarrow> - (2 ^ 63) \<le> x \<and> x < 2 ^ 63"

lemma int64_id [simp]: "in_int64 x \<Longrightarrow> int64 x = x"
  by (simp add: in_int64_def int64_def)

lemma in_int64_int64 [simp]: "in_int64 (int64 x)"
  unfolding in_int64_def int64_def by (simp add: pos_mod_bound pos_mod_sign)

text \<open>Go's integer division truncates towards zero.\<close>

definition go_quot :: "int \<Rightarrow> int \<Rightarrow> int" where
  "go_quot a b = sgn a * sgn b * (\<bar>a\<bar> div \<bar>b\<bar>)"

lemma go_quot_nonneg: "0 \<le> a \<Longrightarrow> 0 < b \<Longrightarrow> go_quot a b = a div b"
  by (cases "a = 0") (auto simp: go_quot_def)

lemma go_quot_neg: "a < 0 \<Longrightarrow> 0 < b \<Longrightarrow> go_quot a b = - ((- a) div b)"
  by (simp add: go_quot_def)

section \<open>Decimal numbers\<close>

definition digit :: "nat \<Rightarrow> char" where
  "digit n = char_of (48 + n)"

definition digit_val :: "char \<Rightarrow> nat option" where
  "digit_val c = (let n = (of_char c :: nat) in if 48 \<le> n \<and> n \<le> 57 then Some (n - 48) else None)"

definition is_digit :: "char \<Rightarrow> bool" where
  "is_digit c \<longleftrightarrow> digit_val c \<noteq> None"

lemma of_char_digit: "n < 10 \<Longrightarrow> (of_char (digit n) :: nat) = 48 + n"
  by (simp add: digit_def)

lemma digit_val_digit [simp]: "n < 10 \<Longrightarrow> digit_val (digit n) = Some n"
  by (simp add: digit_val_def of_char_digit)

lemma is_digit_digit [simp]: "n < 10 \<Longrightarrow> is_digit (digit n)"
  by (simp add: is_digit_def)

lemma is_digit_not [simp]:
  "\<not> is_digit CHR ''/''" "\<not> is_digit CHR ''-''" "\<not> is_digit CHR ''.''" "\<not> is_digit CHR '':''"
  "\<not> is_digit CHR ''T''" "\<not> is_digit CHR ''Z''" "\<not> is_digit CHR '',''" "\<not> is_digit CHR ''+''"
  by (simp_all add: is_digit_def digit_val_def)

fun dec :: "nat \<Rightarrow> string" where
  "dec n = (if n < 10 then [digit n] else dec (n div 10) @ [digit (n mod 10)])"

declare dec.simps [simp del]

text \<open>The value of a digit string, most significant digit first.\<close>

definition dec_step :: "nat \<Rightarrow> char \<Rightarrow> nat" where
  "dec_step a c = 10 * a + (case digit_val c of Some d \<Rightarrow> d | None \<Rightarrow> 0)"

definition dec_val :: "string \<Rightarrow> nat" where
  "dec_val s = foldl dec_step 0 s"

lemma foldl_dec_step: "foldl dec_step a s = a * 10 ^ length s + dec_val s"
proof (induction s arbitrary: a)
  case (Cons c s)
  show ?case
    by (simp add: dec_val_def Cons [of "dec_step a c"] Cons [of "dec_step 0 c"])
       (simp add: dec_step_def algebra_simps)
qed (simp add: dec_val_def)

lemma dec_val_Nil [simp]: "dec_val [] = 0"
  by (simp add: dec_val_def)

lemma dec_val_append: "dec_val (s @ t) = dec_val s * 10 ^ length t + dec_val t"
  by (simp add: dec_val_def foldl_dec_step [of "foldl dec_step 0 s" t])

lemma dec_val_digit [simp]: "n < 10 \<Longrightarrow> dec_val [digit n] = n"
  by (simp add: dec_val_def dec_step_def)

lemma dec_val_dec [simp]: "dec_val (dec n) = n"
proof (induction n rule: dec.induct)
  case (1 n)
  show ?case
  proof (cases "n < 10")
    case True
    then show ?thesis by (simp add: dec.simps [of n])
  next
    case False
    with 1 show ?thesis by (simp add: dec.simps [of n] dec_val_append)
  qed
qed

lemma dec_inject [simp]: "dec m = dec n \<longleftrightarrow> m = n"
  by (metis dec_val_dec)

lemma dec_digits: "c \<in> set (dec n) \<Longrightarrow> is_digit c"
proof (induction n rule: dec.induct)
  case (1 n)
  then show ?case
    by (cases "n < 10") (auto simp: dec.simps [of n])
qed

lemma dec_not_Nil [simp]: "dec n \<noteq> []"
  by (simp add: dec.simps [of n])

lemma length_dec: "n < 10 ^ w \<Longrightarrow> 0 < w \<Longrightarrow> length (dec n) \<le> w"
proof (induction n arbitrary: w rule: dec.induct)
  case (1 n)
  show ?case
  proof (cases "n < 10")
    case True
    with 1 show ?thesis by (simp add: dec.simps [of n])
  next
    case False
    with 1 obtain v where w: "w = Suc v" "0 < v"
      by (cases w; cases "w = 1") auto
    with 1 have "n div 10 < 10 ^ v" by auto
    with 1 False w have "length (dec (n div 10)) \<le> v" by blast
    with False w show ?thesis by (simp add: dec.simps [of n])
  qed
qed

lemma dec_val_zeros [simp]: "dec_val (replicate k (digit 0)) = 0"
  by (induction k) (auto simp: dec_val_append [of "[digit 0]", simplified])

text \<open>\<^verbatim>\<open>%0wd\<close>: a decimal padded with zeros to width \<open>w\<close>.\<close>

definition pad :: "nat \<Rightarrow> nat \<Rightarrow> string" where
  "pad w n = replicate (w - length (dec n)) (digit 0) @ dec n"

lemma length_pad: "n < 10 ^ w \<Longrightarrow> 0 < w \<Longrightarrow> length (pad w n) = w"
  using length_dec [of n w] by (simp add: pad_def)

lemma dec_val_pad [simp]: "dec_val (pad w n) = n"
  by (simp add: pad_def dec_val_append)

lemma pad_digits: "c \<in> set (pad w n) \<Longrightarrow> is_digit c"
  by (auto simp: pad_def dest: dec_digits)

text \<open>\<^verbatim>\<open>strconv.Itoa\<close> on an integer.\<close>

definition itoa :: "int \<Rightarrow> string" where
  "itoa n = (if n < 0 then CHR ''-'' # dec (nat (- n)) else dec (nat n))"

lemma itoa_inject [simp]: "itoa m = itoa n \<longleftrightarrow> m = n"
proof -
  have "CHR ''-'' # xs \<noteq> dec k" for xs k
    using dec_digits [of "CHR ''-''" k] by (metis is_digit_not(2) list.set_intros(1))
  then show ?thesis
    by (auto simp: itoa_def eq_commute [of "dec _" "_ # _"] eq_nat_nat_iff)
qed

section \<open>Lists and maps\<close>

lemma takeWhile_append_stop: "\<forall>x \<in> set xs. P x \<Longrightarrow> \<not> P y \<Longrightarrow> takeWhile P (xs @ y # ys) = xs"
  by (induction xs) auto

lemma dropWhile_append_stop: "\<forall>x \<in> set xs. P x \<Longrightarrow> \<not> P y \<Longrightarrow> dropWhile P (xs @ y # ys) = y # ys"
  by (induction xs) auto

lemma concat_map_concat: "concat (map f (concat (map g xs))) = concat (map (\<lambda>x. concat (map f (g x))) xs)"
  by (induction xs) simp_all

lemma map_of_filter_key: "map_of (filter (\<lambda>(k, v). P k) xs) k = (if P k then map_of xs k else None)"
  by (induction xs) auto

lemma set_update_subset: "set (AList.update k v al) \<subseteq> insert (k, v) (set al)"
  by (induction al) auto

lemma set_update_mem: "x \<in> set (AList.update k v al) \<Longrightarrow> x = (k, v) \<or> x \<in> set al"
  using set_update_subset by fastforce

lemma map_of_fold_update:
  "distinct (map fst es) \<Longrightarrow> map_of (fold (\<lambda>(k, v). AList.update k v) es al) = map_of al ++ map_of es"
proof (induction es arbitrary: al)
  case (Cons e es)
  moreover have "fst e \<notin> dom (map_of es)" using Cons.prems by (simp add: dom_map_of_conv_image_fst)
  ultimately show ?case
    by (simp add: case_prod_unfold update_conv' map_add_upd_left del: fun_upd_apply)
qed simp

lemma distinct_fold_update:
  "distinct (map fst al) \<Longrightarrow> distinct (map fst (fold (\<lambda>(k, v). AList.update k v) es al))"
  by (induction es arbitrary: al) (simp_all add: case_prod_unfold distinct_update)

end
