(* ===== verification/Go_Time.thy ===== *)
theory Go_Time
  imports Prelude
begin

text \<open>
  The part of Go's \<^verbatim>\<open>time\<close> package the engine rests on. A \<^verbatim>\<open>time.Time\<close> in UTC is the exact
  number of nanoseconds since the Unix epoch, a \<^verbatim>\<open>time.Duration\<close> a number of nanoseconds;
  \<^verbatim>\<open>UnixNano\<close> squeezes a time into an \<^verbatim>\<open>int64\<close> and wraps for instants outside the years 1678 to
  2262, in particular for the zero time. \<^verbatim>\<open>Format\<close> and \<^verbatim>\<open>Parse\<close> are modelled for the one layout
  the engine uses, \<^verbatim>\<open>RFC3339Nano\<close>, with the leniencies Go's parser has (a one-digit hour, a comma
  before the fraction, any number of fraction digits, a numeric zone).
\<close>

type_synonym gotime = int
type_synonym duration = int

definition zero_time :: gotime where
  "zero_time = - 62135596800 * 10 ^ 9"

definition is_zero_time :: "gotime \<Rightarrow> bool" where
  "is_zero_time t \<longleftrightarrow> t = zero_time"

definition unix_nano :: "gotime \<Rightarrow> int" where
  "unix_nano t = int64 t"

definition max_watermark_time :: gotime where \<comment> \<open>\<^verbatim>\<open>time.Date(9999, 1, 1, 0, 0, 0, 0, time.UTC)\<close>\<close>
  "max_watermark_time = 253370764800 * 10 ^ 9"

lemma unix_nano_id [simp]: "in_int64 t \<Longrightarrow> unix_nano t = t"
  by (simp add: unix_nano_def)

lemma unix_nano_range [simp]: "in_int64 (unix_nano t)"
  by (simp add: unix_nano_def)

lemma unix_nano_zero_time: "unix_nano zero_time = - 6795364578871345152"
  by (simp add: unix_nano_def zero_time_def int64_def)

section \<open>The calendar\<close>

definition leap_year :: "int \<Rightarrow> bool" where
  "leap_year y \<longleftrightarrow> 4 dvd y \<and> (\<not> 100 dvd y \<or> 400 dvd y)"

definition year_days :: "int \<Rightarrow> int" where
  "year_days y = (if leap_year y then 366 else 365)"

text \<open>Days from the first of January of year 0 to the first of January of year \<open>y\<close>.\<close>

definition ceil_div :: "int \<Rightarrow> int \<Rightarrow> int" where
  "ceil_div y k = (y + (k - 1)) div k"

definition days_before_year :: "int \<Rightarrow> int" where
  "days_before_year y = 365 * y + ceil_div y 4 - ceil_div y 100 + ceil_div y 400"

lemma ceil_div_Suc:
  assumes "0 < k"
  shows "ceil_div (y + 1) k = ceil_div y k + (if k dvd y then 1 else 0)"
proof -
  define r where "r = y mod k"
  have y: "y = k * (y div k) + r" and r: "0 \<le> r" "r < k"
    using assms by (simp_all add: r_def)
  have "(y + (k - 1)) div k = y div k + (r + (k - 1)) div k"
    using assms by (subst y) (simp add: add.assoc)
  moreover have "(r + (k - 1)) div k = (if r = 0 then 0 else 1)"
    using r assms by (auto intro!: int_div_pos_eq [where r = "r - 1"])
  moreover have "(y + k) div k = y div k + 1"
    using assms by (simp add: div_add_self2)
  ultimately show ?thesis
    by (simp add: ceil_div_def r_def dvd_eq_mod_eq_0)
qed

lemma ceil_div_mult: "0 < k \<Longrightarrow> ceil_div (k * e) k = e"
  by (simp add: ceil_div_def)

lemma leap_count:
  "(C \<longrightarrow> B) \<Longrightarrow> (B \<longrightarrow> A) \<Longrightarrow>
   (if A then 1 else 0) - (if B then 1 else 0) + (if C then 1 else 0) =
   (if A \<and> (\<not> B \<or> C) then 1 else (0::int))"
  by (cases A; cases B; cases C) simp_all

lemma year_count:
  "a - b + c = (if L then 1 else (0::int)) \<Longrightarrow>
   365 * (y + 1) + (p + a) - (q + b) + (r + c) = 365 * y + p - q + r + (if L then 366 else 365)"
  by (auto split: if_splits)

lemma days_before_year_Suc: "days_before_year (y + 1) = days_before_year y + year_days y"
proof -
  have 400: "100 dvd y" if "400 dvd y"
    using that by (rule dvd_trans [rotated]) simp
  have 100: "4 dvd y" if "100 dvd y"
    using that by (rule dvd_trans [rotated]) simp
  have leap: "(if 4 dvd y then 1 else 0) - (if 100 dvd y then 1 else 0) +
      (if 400 dvd y then 1 else 0) = (if leap_year y then 1 else (0::int))"
    unfolding leap_year_def by (rule leap_count) (blast intro: 400 100)+
  show ?thesis
    unfolding year_days_def days_before_year_def ceil_div_Suc [OF zero_less_numeral]
    by (rule year_count [OF leap])
qed

lemma days_before_year_400: "days_before_year (400 * e) = 146097 * e"
  using ceil_div_mult [of 4 "100 * e"] ceil_div_mult [of 100 "4 * e"] ceil_div_mult [of 400 e]
  by (simp add: days_before_year_def)

lemma year_days_pos: "0 < year_days y"
  by (simp add: year_days_def)

function year_split :: "int \<Rightarrow> int \<Rightarrow> int \<times> int" where
  "year_split y n = (if n < year_days y then (y, n) else year_split (y + 1) (n - year_days y))"
  by pat_completeness auto
termination
  by (relation "measure (\<lambda>(y, n). nat n)") (auto simp: year_days_def split: if_splits)

declare year_split.simps [simp del]

lemma year_split_correct:
  assumes "0 \<le> n" and "year_split y n = (y', r)"
  shows "days_before_year y' + r = days_before_year y + n \<and> 0 \<le> r \<and> r < year_days y' \<and> y \<le> y'"
  using assms
proof (induction y n rule: year_split.induct)
  case (1 y n)
  show ?case
  proof (cases "n < year_days y")
    case True
    with 1 show ?thesis by (auto simp: year_split.simps [of y n])
  next
    case False
    with 1 have "year_split (y + 1) (n - year_days y) = (y', r)"
      by (simp add: year_split.simps [of y n])
    with 1 False have "days_before_year y' + r = days_before_year (y + 1) + (n - year_days y) \<and>
        0 \<le> r \<and> r < year_days y' \<and> y + 1 \<le> y'"
      by simp
    then show ?thesis by (simp add: days_before_year_Suc)
  qed
qed

lemma days_before_year_mono: "y \<le> z \<Longrightarrow> days_before_year y \<le> days_before_year z"
proof (induction z rule: int_ge_induct)
  case (step i)
  then show ?case using days_before_year_Suc [of i] year_days_pos [of i] by simp
qed simp

definition month_days :: "int \<Rightarrow> nat list" where
  "month_days y = [31, if leap_year y then 29 else 28, 31, 30, 31, 30, 31, 31, 30, 31, 30, 31]"

text \<open>Split a day of the year into a month (from 1) and a day of the month (from 1).\<close>

fun month_split :: "nat list \<Rightarrow> nat \<Rightarrow> nat \<Rightarrow> nat \<times> nat" where
  "month_split [] m n = (m, n + 1)"
| "month_split (d # ds) m n = (if n < d then (m, n + 1) else month_split ds (m + 1) (n - d))"

definition civil_of_days :: "int \<Rightarrow> int \<times> nat \<times> nat" where
  "civil_of_days z =
     (let n = z + 719528;
          (y, r) = year_split (400 * (n div 146097)) (n mod 146097);
          (m, d) = month_split (month_days y) 1 (nat r)
      in (y, m, d))"

definition days_of_civil :: "int \<Rightarrow> nat \<Rightarrow> nat \<Rightarrow> int" where
  "days_of_civil y m d =
     days_before_year y - 719528 + int (sum_list (take (m - 1) (month_days y))) + int d - 1"

lemma month_split_correct:
  assumes "n < sum_list ds" and "month_split ds k n = (m, d)"
  shows "k \<le> m \<and> m < k + length ds \<and> 1 \<le> d \<and> d \<le> ds ! (m - k) \<and>
    sum_list (take (m - k) ds) + d = n + 1"
  using assms
proof (induction ds k n rule: month_split.induct)
  case (2 d' ds k n)
  show ?case
  proof (cases "n < d'")
    case True
    with 2 show ?thesis by auto
  next
    case False
    with 2 have "Suc k \<le> m \<and> m < Suc k + length ds \<and> 1 \<le> d \<and> d \<le> ds ! (m - Suc k) \<and>
        sum_list (take (m - Suc k) ds) + d = n - d' + 1"
      by (simp add: less_diff_conv2)
    moreover from this have "m - k = Suc (m - Suc k)" by (simp add: Suc_diff_Suc Suc_le_eq)
    ultimately show ?thesis using False by auto
  qed
qed auto

lemma sum_month_days: "int (sum_list (month_days y)) = year_days y"
  by (simp add: month_days_def year_days_def)

lemma length_month_days [simp]: "length (month_days y) = 12"
  by (simp add: month_days_def)

lemma civil_of_days_correct:
  assumes "civil_of_days z = (y, m, d)"
  shows "days_of_civil y m d = z \<and> 1 \<le> m \<and> m \<le> 12 \<and> 1 \<le> d \<and> d \<le> month_days y ! (m - 1)"
proof -
  define n where "n = z + 719528"
  obtain y' r where ys: "year_split (400 * (n div 146097)) (n mod 146097) = (y', r)"
    by force
  from year_split_correct [OF _ ys] have
    r: "days_before_year y' + r = n" "0 \<le> r" "r < year_days y'"
    by (auto simp: days_before_year_400)
  then have "nat r < sum_list (month_days y')"
    using sum_month_days [of y'] by linarith
  moreover from assms ys have y: "y = y'" and ms: "month_split (month_days y) 1 (nat r) = (m, d)"
    by (auto simp: civil_of_days_def n_def [symmetric] Let_def split: prod.splits)
  ultimately have "1 \<le> m \<and> m < 1 + 12 \<and> 1 \<le> d \<and> d \<le> month_days y ! (m - 1) \<and>
      sum_list (take (m - 1) (month_days y)) + d = nat r + 1"
    using month_split_correct [OF _ ms] by simp
  moreover from this have "int (sum_list (take (m - 1) (month_days y))) + int d = r + 1"
    using r(2) by linarith
  ultimately show ?thesis
    using r y by (simp add: days_of_civil_def n_def)
qed

end
