(* ===== verification/Records.thy ===== *)
theory Records
  imports Go_Time
begin

text \<open>
  The record stream (\<^verbatim>\<open>types/record.go\<close>): data records, watermarks and checkpoint barriers are all
  values of one struct. Header maps are maps; keys and payloads are byte strings, with the nil and
  the empty slice identified because no operation on records tells them apart. \<^verbatim>\<open>Parsed\<close> holds the
  decoded JSON view that the workflow operators cache; typed Go pointers have no counterpart.
\<close>

datatype json =
    JNull
  | JBool bool
  | JNum string
  | JStr string
  | JArr "json list"
  | JObj "(string \<times> json) list"

record rec =
  rKey :: bytes
  rValue :: bytes
  rTimestamp :: gotime
  rOffset :: int
  rPartition :: int
  rSource :: string
  rHeaders :: "string \<rightharpoonup> bytes"
  rParsed :: "json option"
  isWatermark :: bool
  isBarrier :: bool
  rCheckpointID :: string

definition blank :: rec where \<comment> \<open>the zero value \<^verbatim>\<open>Record{}\<close>\<close>
  "blank = \<lparr>rKey = [], rValue = [], rTimestamp = zero_time, rOffset = 0, rPartition = 0,
     rSource = [], rHeaders = Map.empty, rParsed = None, isWatermark = False, isBarrier = False,
     rCheckpointID = []\<rparr>"

definition new_record :: "gotime \<Rightarrow> bytes \<Rightarrow> bytes \<Rightarrow> rec" where
  \<comment> \<open>the first argument is the clock reading \<^verbatim>\<open>time.Now()\<close>\<close>
  "new_record now key val = blank\<lparr>rKey := key, rValue := val, rTimestamp := now\<rparr>"

definition new_watermark :: "gotime \<Rightarrow> rec" where
  "new_watermark ts = blank\<lparr>rTimestamp := ts, isWatermark := True\<rparr>"

definition new_barrier :: "string \<Rightarrow> rec" where
  "new_barrier cid = blank\<lparr>rCheckpointID := cid, isBarrier := True\<rparr>"

definition with_timestamp :: "rec \<Rightarrow> gotime \<Rightarrow> rec" where
  "with_timestamp r t = r\<lparr>rTimestamp := t\<rparr>"

definition with_offset :: "rec \<Rightarrow> int \<Rightarrow> rec" where
  "with_offset r off = r\<lparr>rOffset := off\<rparr>"

definition with_header :: "rec \<Rightarrow> string \<Rightarrow> bytes \<Rightarrow> rec" where
  "with_header r k v = r\<lparr>rHeaders := (rHeaders r)(k \<mapsto> v)\<rparr>"

definition is_marker :: "rec \<Rightarrow> bool" where \<comment> \<open>the test \<^verbatim>\<open>r.IsBarrier || r.IsWatermark\<close>\<close>
  "is_marker r \<longleftrightarrow> isBarrier r \<or> isWatermark r"

abbreviation is_data :: "rec \<Rightarrow> bool" where
  "is_data r \<equiv> \<not> is_marker r"

lemma marker_constructors [simp]:
  "is_marker (new_watermark t)" "isWatermark (new_watermark t)" "\<not> isBarrier (new_watermark t)"
  "is_marker (new_barrier c)" "isBarrier (new_barrier c)" "\<not> isWatermark (new_barrier c)"
  "rTimestamp (new_watermark t) = t" "rCheckpointID (new_barrier c) = c"
  by (simp_all add: is_marker_def new_watermark_def new_barrier_def blank_def)

lemma with_header_simps [simp]:
  "rHeaders (with_header r k v) k' = (if k' = k then Some v else rHeaders r k')"
  "rKey (with_header r k v) = rKey r" "rValue (with_header r k v) = rValue r"
  "rTimestamp (with_header r k v) = rTimestamp r" "is_marker (with_header r k v) = is_marker r"
  by (simp_all add: with_header_def is_marker_def)

end
