(* ===== verification/Watermarks.thy ===== *)
theory Watermarks
  imports Records
begin

text \<open>
  Watermark generation: the bounded-out-of-orderness generator (\<^verbatim>\<open>watermark/bounded.go\<close>) and the
  source wrapper that injects watermark records into a stream (\<^verbatim>\<open>source/watermark.go\<close>), with its
  single-generator and its per-partition mode. The wrapper's select loop is a step function on the
  events it can receive; wall-clock readings are part of the events.
\<close>

section \<open>Bounded out-of-orderness\<close>

record bounded =
  bMax :: gotime
  bLateness :: duration

definition new_bounded :: "duration \<Rightarrow> bounded" where
  "new_bounded lateness = \<lparr>bMax = zero_time, bLateness = lateness\<rparr>"

definition on_record :: "gotime \<Rightarrow> bounded \<Rightarrow> bounded" where
  "on_record ts g = (if bMax g < ts then g\<lparr>bMax := ts\<rparr> else g)"

definition get_watermark :: "bounded \<Rightarrow> gotime" where
  "get_watermark g = (if is_zero_time (bMax g) then zero_time else bMax g - bLateness g)"

section \<open>The generator interface\<close>

text \<open>
  What the wrapper relies on: a generator that has started keeps having a (non-zero) watermark, and
  an observation never moves that watermark back.
\<close>

locale watermark_generator =
  fixes observe :: "gotime \<Rightarrow> 'g \<Rightarrow> 'g" and current :: "'g \<Rightarrow> gotime" and started :: "'g \<Rightarrow> bool"
  assumes started_observe: "started g \<Longrightarrow> started (observe ts g)"
    and started_nonzero: "started g \<Longrightarrow> \<not> is_zero_time (current g)"
    and observe_mono: "started g \<Longrightarrow> current g \<le> current (observe ts g)"
begin

lemma observe_all_mono: "started g \<Longrightarrow> started (fold observe tss g) \<and> current g \<le> current (fold observe tss g)"
proof (induction tss arbitrary: g)
  case (Cons ts tss)
  from Cons.IH [of "observe ts g"] Cons.prems show ?case
    using started_observe [of g ts] observe_mono [of g ts] by auto
qed simp

end

definition bounded_started :: "bounded \<Rightarrow> bool" where
  "bounded_started g \<longleftrightarrow> zero_time < bMax g \<and> zero_time < bMax g - bLateness g"

interpretation boo: watermark_generator on_record get_watermark bounded_started
  by unfold_locales (auto simp: on_record_def get_watermark_def bounded_started_def is_zero_time_def)

lemma bLateness_on_record [simp]: "bLateness (on_record ts g) = bLateness g"
  by (simp add: on_record_def)

lemma get_watermark_started: "bounded_started g \<Longrightarrow> get_watermark g = bMax g - bLateness g"
  by (auto simp: get_watermark_def bounded_started_def is_zero_time_def)

lemma bMax_on_record: "bMax (on_record ts g) = max (bMax g) ts"
  by (simp add: on_record_def)

text \<open>
  C20. After observing a non-empty batch of timestamps a fresh generator's watermark is the largest
  timestamp minus the allowed lateness, so a record that lags the largest timestamp by at most the
  lateness is never behind the watermark, and one that lags more always is.
\<close>

theorem bounded_watermark:
  assumes "tss \<noteq> []" and "\<forall>t \<in> set tss. zero_time < t"
  shows "get_watermark (fold on_record tss (new_bounded l)) = Max (set tss) - l \<and>
    (t < get_watermark (fold on_record tss (new_bounded l)) \<longleftrightarrow> l < Max (set tss) - t)"
proof -
  have "bMax (fold on_record tss g) = fold max tss (bMax g) \<and>
      bLateness (fold on_record tss g) = bLateness g" for g
    by (induction tss arbitrary: g) (simp_all add: bMax_on_record max.commute)
  then have fold: "bMax (fold on_record tss g) = Max (insert (bMax g) (set tss))"
    "bLateness (fold on_record tss g) = bLateness g" for g
    using Max.set_eq_fold [of "bMax g" tss] by simp_all
  have pos: "zero_time < Max (set tss)"
    using assms by (simp add: Max_gr_iff) (metis list.set_intros(1) neq_Nil_conv)
  have "Max (insert zero_time (set tss)) = Max (set tss)"
    using assms(1) pos by simp
  with pos fold(1) [of "new_bounded l"] fold(2) [of "new_bounded l"] show ?thesis
    by (auto simp: get_watermark_def new_bounded_def is_zero_time_def)
qed

theorem bounded_watermark_witness:
  "get_watermark (fold on_record [10, 8, 15, 12] (new_bounded 5)) = 10 \<and>
   (9 < get_watermark (fold on_record [10, 8, 15, 12] (new_bounded 5)) \<longleftrightarrow> 5 < (15 - 9 :: int))"
  using bounded_watermark [of "[10, 8, 15, 12]" 5 9] by (simp add: zero_time_def)

section \<open>The watermark source\<close>

type_synonym partition_key = "string \<times> int"

record partition_clock =
  pGen :: bounded
  pSeen :: gotime

record wsrc_cfg =
  wcPerPartition :: "duration option" \<comment> \<open>\<^verbatim>\<open>NewGenerator\<close>: \<^const>\<open>None\<close> is nil, else the lateness it captures\<close>
  wcIdle :: duration

record wsrc =
  wsGen :: bounded
  wsParts :: "(partition_key \<times> partition_clock) list"
  wsLast :: gotime
  wsRunning :: bool

definition new_wsrc :: "bounded \<Rightarrow> wsrc" where
  "new_wsrc g = \<lparr>wsGen = g, wsParts = [], wsLast = zero_time, wsRunning = True\<rparr>"

definition time_sub :: "gotime \<Rightarrow> gotime \<Rightarrow> duration" where \<comment> \<open>\<^verbatim>\<open>Time.Sub\<close> saturates\<close>
  "time_sub a b = max (- (2 ^ 63)) (min (2 ^ 63 - 1) (a - b))"

definition idle_timeout :: "wsrc_cfg \<Rightarrow> duration" where
  "idle_timeout cfg = (if wcIdle cfg = 0 then 30 * 10 ^ 9 else wcIdle cfg)"

definition partition_counts :: "wsrc_cfg \<Rightarrow> gotime \<Rightarrow> partition_clock \<Rightarrow> bool" where
  "partition_counts cfg now p \<longleftrightarrow> \<not> is_zero_time (get_watermark (pGen p)) \<and>
     \<not> (0 < idle_timeout cfg \<and> idle_timeout cfg \<le> time_sub now (pSeen p))"

text \<open>The loop over the map's values, in the order the runtime happens to visit them.\<close>

fun min_watermark :: "wsrc_cfg \<Rightarrow> gotime \<Rightarrow> partition_clock list \<Rightarrow> gotime \<Rightarrow> gotime" where
  "min_watermark cfg now [] acc = acc"
| "min_watermark cfg now (p # ps) acc =
     (let wm = get_watermark (pGen p) in
      if \<not> partition_counts cfg now p then min_watermark cfg now ps acc
      else if is_zero_time acc \<or> wm < acc then min_watermark cfg now ps wm
      else min_watermark cfg now ps acc)"

definition partition_watermark ::
  "wsrc_cfg \<Rightarrow> gotime \<Rightarrow> (partition_key \<times> partition_clock) list \<Rightarrow> gotime" where
  "partition_watermark cfg now parts = min_watermark cfg now (map snd parts) zero_time"

definition observe_partition ::
  "duration \<Rightarrow> rec \<Rightarrow> gotime \<Rightarrow> (partition_key \<times> partition_clock) list \<Rightarrow>
   (partition_key \<times> partition_clock) list" where
  "observe_partition lateness r now parts =
     (let k = (rSource r, rPartition r);
          g = (case map_of parts k of None \<Rightarrow> new_bounded lateness | Some p \<Rightarrow> pGen p)
      in AList.update k \<lparr>pGen = on_record (rTimestamp r) g, pSeen = now\<rparr> parts)"

text \<open>
  What the select loop can receive: cancellation, the end of the wrapped source, a record, or a
  tick. A cancelled send is its own event. The flag says whether the consumer still took the final
  watermark within the flush timeout.
\<close>

datatype ws_event =
    WDone bool
  | WClosed bool
  | WRecv rec gotime
  | WRecvCancelled rec gotime bool
  | WTick gotime
  | WTickCancelled gotime

definition flush_max :: "bool \<Rightarrow> rec list" where
  "flush_max taken = (if taken then [new_watermark max_watermark_time] else [])"

definition ws_observe :: "wsrc_cfg \<Rightarrow> rec \<Rightarrow> gotime \<Rightarrow> wsrc \<Rightarrow> wsrc" where
  "ws_observe cfg r now st =
     (case wcPerPartition cfg of
        Some l \<Rightarrow> st\<lparr>wsParts := observe_partition l r now (wsParts st)\<rparr>
      | None \<Rightarrow> st\<lparr>wsGen := on_record (rTimestamp r) (wsGen st)\<rparr>)"

definition ws_advance :: "wsrc_cfg \<Rightarrow> gotime \<Rightarrow> wsrc \<Rightarrow> wsrc \<times> gotime" where
  "ws_advance cfg now st =
     (case wcPerPartition cfg of
        Some l \<Rightarrow>
          (let pm = partition_watermark cfg now (wsParts st);
               lastWM = (if wsLast st < pm then pm else wsLast st)
           in (st\<lparr>wsLast := lastWM\<rparr>, lastWM))
      | None \<Rightarrow> (st, get_watermark (wsGen st)))"

fun ws_step :: "wsrc_cfg \<Rightarrow> ws_event \<Rightarrow> wsrc \<Rightarrow> wsrc \<times> rec list" where
  "ws_step cfg ev st =
     (if \<not> wsRunning st then (st, [])
      else case ev of
        WDone taken \<Rightarrow> (st\<lparr>wsRunning := False\<rparr>, flush_max taken)
      | WClosed taken \<Rightarrow> (st\<lparr>wsRunning := False\<rparr>, flush_max taken)
      | WRecv r now \<Rightarrow> (ws_observe cfg r now st, [r])
      | WRecvCancelled r now taken \<Rightarrow>
          ((ws_observe cfg r now st)\<lparr>wsRunning := False\<rparr>, flush_max taken)
      | WTick now \<Rightarrow>
          (let (st', wm) = ws_advance cfg now st
           in (st', if is_zero_time wm then [] else [new_watermark wm]))
      | WTickCancelled now \<Rightarrow> (fst (ws_advance cfg now st), []))"

declare ws_step.simps [simp del]

fun ws_run :: "wsrc_cfg \<Rightarrow> ws_event list \<Rightarrow> wsrc \<Rightarrow> wsrc \<times> rec list" where
  "ws_run cfg [] st = (st, [])"
| "ws_run cfg (ev # evs) st =
     (let (st1, out1) = ws_step cfg ev st; (st2, out2) = ws_run cfg evs st1 in (st2, out1 @ out2))"

section \<open>The minimum over partitions\<close>

definition counting :: "wsrc_cfg \<Rightarrow> gotime \<Rightarrow> partition_clock set \<Rightarrow> gotime set" where
  "counting cfg now P = (\<lambda>p. get_watermark (pGen p)) ` {p \<in> P. partition_counts cfg now p}"

lemma min_watermark_Min:
  "min_watermark cfg now ps acc =
     (let W = counting cfg now (set ps) in
      if W = {} then acc else if is_zero_time acc then Min W else min acc (Min W))"
proof (induction ps arbitrary: acc)
  case (Cons p ps)
  show ?case
  proof (cases "partition_counts cfg now p")
    case True
    then have wm: "\<not> is_zero_time (get_watermark (pGen p))"
      by (simp add: partition_counts_def)
    from True have "counting cfg now (set (p # ps)) =
        insert (get_watermark (pGen p)) (counting cfg now (set ps))"
      by (auto simp: counting_def)
    moreover have "finite (counting cfg now (set ps))"
      by (simp add: counting_def)
    ultimately show ?thesis using True wm
      by (auto simp: Cons.IH Let_def min_def)
  next
    case False
    then have "counting cfg now (set (p # ps)) = counting cfg now (set ps)"
      by (auto simp: counting_def)
    with False show ?thesis by (simp add: Cons.IH Let_def)
  qed
qed (simp add: counting_def)

lemma partition_watermark_Min:
  "partition_watermark cfg now parts =
     (let W = counting cfg now (snd ` set parts) in if W = {} then zero_time else Min W)"
  by (simp add: partition_watermark_def min_watermark_Min Let_def is_zero_time_def)

lemma partition_watermark_le:
  assumes "p \<in> snd ` set parts" and "partition_counts cfg now p"
  shows "partition_watermark cfg now parts \<le> get_watermark (pGen p)"
proof -
  have "get_watermark (pGen p) \<in> counting cfg now (snd ` set parts)"
    using assms by (auto simp: counting_def)
  moreover have "finite (counting cfg now (snd ` set parts))"
    by (simp add: counting_def)
  ultimately show ?thesis by (auto simp: partition_watermark_Min Let_def)
qed

section \<open>Watermarks never go back and never overtake a partition\<close>

lemma observe_partition_cases:
  assumes "(k, p) \<in> set (observe_partition l r now parts)"
  shows "(k, p) \<in> set parts \<or>
    (k = (rSource r, rPartition r) \<and> pSeen p = now \<and>
     (map_of parts k = None \<and> pGen p = on_record (rTimestamp r) (new_bounded l) \<or>
      (\<exists>q. map_of parts k = Some q \<and> pGen p = on_record (rTimestamp r) (pGen q))))"
  using assms set_update_subset unfolding observe_partition_def Let_def
  by (fastforce split: option.splits)

definition wm_times :: "rec list \<Rightarrow> gotime list" where
  "wm_times rs = map rTimestamp (filter isWatermark rs)"

lemma wm_times_simps [simp]:
  "wm_times [] = []" "wm_times (new_watermark t # rs) = t # wm_times rs"
  "is_data r \<Longrightarrow> wm_times (r # rs) = wm_times rs"
  by (simp_all add: wm_times_def is_marker_def)

text \<open>The records an event takes from the wrapped source.\<close>

fun ws_taken :: "ws_event \<Rightarrow> rec option" where
  "ws_taken (WRecv r now) = Some r"
| "ws_taken (WRecvCancelled r now b) = Some r"
| "ws_taken _ = None"

lemma ws_run_stopped: "\<not> wsRunning st \<Longrightarrow> ws_run cfg evs st = (st, [])"
  by (induction evs) (simp_all add: ws_step.simps)

definition ws_capped :: "duration \<Rightarrow> wsrc \<Rightarrow> bool" where
  "ws_capped l st \<longleftrightarrow> wsLast st \<le> max_watermark_time \<and>
     (\<forall>(k, p) \<in> set (wsParts st). bMax (pGen p) - l \<le> max_watermark_time \<and> bLateness (pGen p) = l)"

lemma ws_capped_observe:
  assumes "ws_capped l st" and "wcPerPartition cfg = Some l" and "0 \<le> l"
    and "rTimestamp r - l \<le> max_watermark_time"
  shows "ws_capped l (ws_observe cfg r now st)"
proof -
  have "bMax (pGen p) - l \<le> max_watermark_time \<and> bLateness (pGen p) = l"
    if "(k, p) \<in> set (observe_partition l r now (wsParts st))" for k p
    using observe_partition_cases [OF that] assms
    by (auto simp: ws_capped_def bMax_on_record new_bounded_def zero_time_def max_watermark_time_def
        dest!: map_of_SomeD)
  then show ?thesis using assms by (auto simp: ws_capped_def ws_observe_def)
qed

lemma ws_capped_watermark:
  assumes "ws_capped l st"
  shows "partition_watermark cfg now (wsParts st) \<le> max_watermark_time"
proof -
  have "w \<le> max_watermark_time" if "w \<in> counting cfg now (snd ` set (wsParts st))" for w
    using that assms
    by (fastforce simp: counting_def ws_capped_def get_watermark_def zero_time_def max_watermark_time_def)
  moreover have "finite (counting cfg now (snd ` set (wsParts st)))"
    by (simp add: counting_def)
  ultimately show ?thesis
    by (auto simp: partition_watermark_Min Let_def zero_time_def max_watermark_time_def)
qed

lemma ws_observe_simps [simp]:
  "wsLast (ws_observe cfg r now st) = wsLast st"
  "wsRunning (ws_observe cfg r now st) = wsRunning st"
  by (simp_all add: ws_observe_def split: option.split)

lemma ws_run_tick:
  assumes "wcPerPartition cfg = Some l" and "wsRunning st"
    and "st' = st\<lparr>wsLast := max (wsLast st) (partition_watermark cfg now (wsParts st))\<rparr>"
  shows "fst (ws_step cfg (WTick now) st) = st'" and "fst (ws_step cfg (WTickCancelled now) st) = st'"
    and "snd (ws_run cfg (WTick now # evs) st) =
      (if is_zero_time (wsLast st') then [] else [new_watermark (wsLast st')]) @ snd (ws_run cfg evs st')"
    and "snd (ws_run cfg (WTickCancelled now # evs) st) = snd (ws_run cfg evs st')"
  using assms by (auto simp: ws_step.simps ws_advance_def Let_def max_def case_prod_unfold)

lemma ws_run_sorted:
  assumes "wcPerPartition cfg = Some l" and "0 \<le> l" and "ws_capped l st" and "wsRunning st"
    and "\<forall>ev \<in> set evs. \<forall>r. ws_taken ev = Some r \<longrightarrow> is_data r \<and> rTimestamp r - l \<le> max_watermark_time"
  shows "sorted (wsLast st # wm_times (snd (ws_run cfg evs st)))"
  using assms(3-)
proof (induction evs arbitrary: st)
  case (Cons ev evs)
  have IH: "sorted (wsLast st' # wm_times (snd (ws_run cfg evs st')))"
    if "ws_capped l st'" "wsRunning st'" for st'
    using Cons.IH [OF that] Cons.prems by simp
  have le: "wsLast st \<le> max_watermark_time" using Cons.prems by (simp add: ws_capped_def)
  show ?case
  proof (cases ev)
    case (WRecv r now)
    then have r: "is_data r" "rTimestamp r - l \<le> max_watermark_time" using Cons.prems by auto
    then show ?thesis
      using IH [OF ws_capped_observe [OF Cons.prems(1) assms(1,2) r(2), of now]] WRecv Cons.prems
      by (simp add: ws_step.simps case_prod_unfold Let_def)
  next
    case (WTick now)
    define st' where "st' = st\<lparr>wsLast := max (wsLast st) (partition_watermark cfg now (wsParts st))\<rparr>"
    have "ws_capped l st'" "wsRunning st'" "wsLast st \<le> wsLast st'"
      using Cons.prems(1,2) ws_capped_watermark [OF Cons.prems(1)] by (auto simp: ws_capped_def st'_def)
    with IH [of st'] show ?thesis
      unfolding WTick ws_run_tick(3) [OF assms(1) Cons.prems(2) st'_def] by auto
  next
    case (WTickCancelled now)
    define st' where "st' = st\<lparr>wsLast := max (wsLast st) (partition_watermark cfg now (wsParts st))\<rparr>"
    have "ws_capped l st'" "wsRunning st'" "wsLast st \<le> wsLast st'"
      using Cons.prems(1,2) ws_capped_watermark [OF Cons.prems(1)] by (auto simp: ws_capped_def st'_def)
    with IH [of st'] show ?thesis
      unfolding WTickCancelled ws_run_tick(4) [OF assms(1) Cons.prems(2) st'_def] by auto
  qed (use Cons.prems le in \<open>simp_all add: ws_step.simps ws_run_stopped flush_max_def\<close>)
qed simp

text \<open>
  C11. With per-partition watermarks the watermarks a wrapped source emits never go back, whatever
  partitions appear, fall idle or return, up to and including the final watermark that flushes the
  windows; the timestamps of the wrapped source must not lie beyond that final watermark.
\<close>

theorem partition_watermarks_monotone:
  assumes "wcPerPartition cfg = Some l" and "0 \<le> l"
    and "\<forall>ev \<in> set evs. \<forall>r. ws_taken ev = Some r \<longrightarrow> is_data r \<and> rTimestamp r - l \<le> max_watermark_time"
  shows "sorted (wm_times (snd (ws_run cfg evs (new_wsrc g))))"
proof -
  have "ws_capped l (new_wsrc g)"
    by (simp add: ws_capped_def new_wsrc_def zero_time_def max_watermark_time_def)
  from ws_run_sorted [OF assms(1,2) this _ assms(3)] show ?thesis
    by (simp add: new_wsrc_def)
qed

theorem partition_watermarks_monotone_witness:
  "sorted (wm_times (snd (ws_run \<lparr>wcPerPartition = Some 5, wcIdle = 0\<rparr>
     [WRecv (new_record 100 ''k'' ''v'') 1, WTick 2,
      WRecv ((new_record 40 ''k'' ''v'')\<lparr>rPartition := 1\<rparr>) 3, WTick 4, WClosed True]
     (new_wsrc (new_bounded 5)))))"
  by (rule partition_watermarks_monotone [of _ 5])
    (simp_all add: new_record_def blank_def is_marker_def max_watermark_time_def)

text \<open>The timestamps of the records of one partition, in the order the wrapper takes them.\<close>

definition of_partition :: "partition_key \<Rightarrow> rec \<Rightarrow> bool" where
  "of_partition k r \<longleftrightarrow> is_data r \<and> (rSource r, rPartition r) = k"

definition partition_times :: "partition_key \<Rightarrow> ws_event list \<Rightarrow> gotime list" where
  "partition_times k evs = map rTimestamp (filter (of_partition k) (List.map_filter ws_taken evs))"

definition takes_data :: "ws_event list \<Rightarrow> bool" where
  "takes_data evs \<longleftrightarrow> list_all is_data (List.map_filter ws_taken evs)"

lemma partition_times_simps [simp]:
  "partition_times k [] = []"
  "partition_times k (evs @ evs') = partition_times k evs @ partition_times k evs'"
  "partition_times k (ev # evs) = (case ws_taken ev of
     Some r \<Rightarrow> (if of_partition k r then [rTimestamp r] else []) | None \<Rightarrow> []) @ partition_times k evs"
  by (simp_all add: partition_times_def map_filter_simps split: option.split)
    (simp add: List.map_filter_def)

lemma takes_data_simps [simp]:
  "takes_data []" "takes_data (evs @ evs') \<longleftrightarrow> takes_data evs \<and> takes_data evs'"
  "takes_data (ev # evs) \<longleftrightarrow> (case ws_taken ev of Some r \<Rightarrow> is_data r | None \<Rightarrow> True) \<and> takes_data evs"
  by (simp_all add: takes_data_def map_filter_simps split: option.split)
    (simp add: List.map_filter_def)

lemma ws_run_times:
  assumes "r \<in> set (snd (ws_run cfg evs st))" and "of_partition k r" and "takes_data evs"
  shows "rTimestamp r \<in> set (partition_times k evs)"
  using assms(1,3)
proof (induction evs arbitrary: st)
  case (Cons ev evs)
  then have "r \<in> set (snd (ws_step cfg ev st)) \<or> r \<in> set (snd (ws_run cfg evs (fst (ws_step cfg ev st))))"
    by (auto simp: case_prod_unfold Let_def)
  moreover have "ws_taken ev = Some r" if "r \<in> set (snd (ws_step cfg ev st))"
    using that assms(2)
    by (cases ev)
      (auto simp: ws_step.simps of_partition_def flush_max_def case_prod_unfold Let_def is_marker_def new_watermark_def split: if_splits)
  ultimately show ?case using Cons.IH Cons.prems(2) assms(2) by (auto split: option.splits)
qed simp

text \<open>
  What the wrapper knows of a partition: its generator has the lateness of the configuration and
  its maximum is a timestamp seen.
\<close>

definition clock_of :: "partition_key \<Rightarrow> duration \<Rightarrow> gotime set \<Rightarrow> wsrc \<Rightarrow> bool" where
  "clock_of k l T st \<longleftrightarrow>
     (\<forall>p. map_of (wsParts st) k = Some p \<longrightarrow> bLateness (pGen p) = l \<and> bMax (pGen p) \<in> T)"

lemma map_of_observe:
  "map_of (wsParts (ws_observe cfg r now st)) k =
     (case wcPerPartition cfg of
        Some l \<Rightarrow> if (rSource r, rPartition r) = k
          then Some \<lparr>pGen = on_record (rTimestamp r) (case map_of (wsParts st) k of None \<Rightarrow> new_bounded l | Some p \<Rightarrow> pGen p),
            pSeen = now\<rparr>
          else map_of (wsParts st) k
      | None \<Rightarrow> map_of (wsParts st) k)"
  by (auto simp: ws_observe_def observe_partition_def Let_def update_conv' split: option.split)

lemma clock_of_observe:
  assumes "clock_of k l T st" and "wcPerPartition cfg = Some l" and "is_data r"
    and "of_partition k r \<Longrightarrow> zero_time < rTimestamp r \<and> rTimestamp r \<in> T"
  shows "clock_of k l T (ws_observe cfg r now st)"
  using assms
  by (auto simp: clock_of_def map_of_observe of_partition_def on_record_def new_bounded_def split: option.splits if_splits)

lemma ws_advance_parts [simp]: "wsParts (fst (ws_advance cfg now st)) = wsParts st"
  by (simp add: ws_advance_def Let_def split: option.split)

lemma clock_of_step:
  assumes "clock_of k l T st" and "wcPerPartition cfg = Some l" and "takes_data [ev]"
    and "\<forall>t \<in> set (partition_times k [ev]). zero_time < t \<and> t \<in> T"
  shows "clock_of k l T (fst (ws_step cfg ev st))"
proof -
  have "clock_of k l T (ws_observe cfg r now st)" if "ws_taken ev = Some r" for r now
    using assms that by (intro clock_of_observe) auto
  moreover have "clock_of k l T (fst (ws_advance cfg now st))" for now
    using assms(1) by (simp add: clock_of_def)
  ultimately show ?thesis using assms(1)
    by (cases ev) (auto simp: ws_step.simps case_prod_unfold Let_def clock_of_def)
qed

lemma clock_of_run:
  assumes "clock_of k l T st" and "wcPerPartition cfg = Some l" and "takes_data evs"
    and "\<forall>t \<in> set (partition_times k evs). zero_time < t \<and> t \<in> T"
  shows "clock_of k l T (fst (ws_run cfg evs st))"
  using assms(1,3,4)
proof (induction evs arbitrary: st)
  case (Cons ev evs)
  have "clock_of k l T (fst (ws_step cfg ev st))"
    using Cons.prems by (intro clock_of_step [OF Cons.prems(1) assms(2)]) auto
  from Cons.IH [OF this] Cons.prems show ?case by (simp add: case_prod_unfold Let_def)
qed simp

text \<open>
  Once a partition is known, the watermark is behind its clock, or it is still the watermark
  \<open>W\<close> that had been reached before, if the partition was behind that one (\<open>late\<close>).
\<close>

definition overtaken :: "partition_key \<Rightarrow> duration \<Rightarrow> bool \<Rightarrow> gotime \<Rightarrow> wsrc \<Rightarrow> bool" where
  "overtaken k l late W st \<longleftrightarrow> (\<exists>p. map_of (wsParts st) k = Some p \<and> zero_time + l < bMax (pGen p) \<and> bLateness (pGen p) = l \<and>
     (wsLast st \<le> bMax (pGen p) - l \<or> late \<and> wsLast st = W))"

lemma overtaken_observe:
  assumes "overtaken k l late W st" and "wcPerPartition cfg = Some l"
  shows "overtaken k l late W (ws_observe cfg r now st)"
proof -
  obtain p where "map_of (wsParts st) k = Some p" "zero_time + l < bMax (pGen p)" "bLateness (pGen p) = l"
    "wsLast st \<le> bMax (pGen p) - l \<or> late \<and> wsLast st = W"
    using assms(1) by (auto simp: overtaken_def)
  then show ?thesis using assms(2) unfolding overtaken_def
    by (auto simp: map_of_observe bMax_on_record)
qed

lemma overtaken_advance:
  assumes "overtaken k l late W st" and "0 \<le> l" and "wcIdle cfg < 0"
  shows "overtaken k l late W (st\<lparr>wsLast := max (wsLast st) (partition_watermark cfg now (wsParts st))\<rparr>)"
proof -
  obtain p where p: "map_of (wsParts st) k = Some p" "zero_time + l < bMax (pGen p)" "bLateness (pGen p) = l"
    "wsLast st \<le> bMax (pGen p) - l \<or> late \<and> wsLast st = W"
    using assms(1) by (auto simp: overtaken_def)
  then have started: "bounded_started (pGen p)" using assms(2) by (simp add: bounded_started_def)
  then have "partition_counts cfg now p"
    using assms(3) boo.started_nonzero by (simp add: partition_counts_def idle_timeout_def)
  moreover have "p \<in> snd ` set (wsParts st)" using p(1) by (force dest: map_of_SomeD)
  ultimately have "partition_watermark cfg now (wsParts st) \<le> get_watermark (pGen p)"
    by (rule partition_watermark_le [rotated])
  then show ?thesis using p started unfolding overtaken_def
    by (auto simp: get_watermark_started max_def)
qed

lemma ws_run_overtakes:
  assumes "wcPerPartition cfg = Some l" and "0 \<le> l" and "wcIdle cfg < 0"
    and "overtaken k l late W st" and "clock_of k l T st" and "wsRunning st" and "takes_data evs"
    and "\<forall>t \<in> set (partition_times k evs). zero_time < t \<and> (\<forall>u \<in> T. u - l \<le> t)"
    and "sorted_wrt (\<lambda>a b. a - l \<le> b) (partition_times k evs)"
  shows "sorted_wrt (\<lambda>a b. isWatermark a \<and> of_partition k b \<longrightarrow>
      rTimestamp a \<le> rTimestamp b \<or> late \<and> rTimestamp a = W) (snd (ws_run cfg evs st))"
  using assms(4-)
proof (induction evs arbitrary: st T)
  case (Cons ev evs)
  let ?P = "\<lambda>a b. isWatermark a \<and> of_partition k b \<longrightarrow> rTimestamp a \<le> rTimestamp b \<or> late \<and> rTimestamp a = W"
  define st' where
    "st' = (\<lambda>now. st\<lparr>wsLast := max (wsLast st) (partition_watermark cfg now (wsParts st))\<rparr>)"
  have clock: "clock_of k l (T \<union> set (partition_times k [ev])) (fst (ws_step cfg ev st))"
    using Cons.prems by (intro clock_of_step [OF _ assms(1)]) (auto simp: clock_of_def)
  have adv: "overtaken k l late W (st' now)" "wsRunning (st' now)" "clock_of k l T (st' now)" for now
    using overtaken_advance [OF Cons.prems(1) assms(2,3)] Cons.prems(2,3) by (simp_all add: st'_def clock_of_def)
  note tick = ws_run_tick [OF assms(1) Cons.prems(3) st'_def [THEN fun_cong]]
  have IH: "sorted_wrt ?P (snd (ws_run cfg evs u))"
    if "overtaken k l late W u" "clock_of k l (T \<union> set (partition_times k [ev])) u" "wsRunning u" for u
    using that Cons.prems by (intro Cons.IH [of u "T \<union> set (partition_times k [ev])"]) (auto simp: sorted_wrt_append)
  show ?case
  proof (cases ev)
    case (WRecv r now)
    with Cons.prems clock have "clock_of k l (T \<union> set (partition_times k [ev])) (ws_observe cfg r now st)" "is_data r"
      by (simp_all add: ws_step.simps)
    with IH [OF overtaken_observe [OF Cons.prems(1) assms(1), of r now]] Cons.prems WRecv show ?thesis
      by (simp add: ws_step.simps case_prod_unfold Let_def is_marker_def)
  next
    case (WTick now)
    then have rest: "sorted_wrt ?P (snd (ws_run cfg evs (st' now)))"
      using IH [OF adv(1) _ adv(2)] adv(3) by simp
    obtain p where p: "map_of (wsParts (st' now)) k = Some p" "bMax (pGen p) \<in> T"
      "wsLast (st' now) \<le> bMax (pGen p) - l \<or> late \<and> wsLast (st' now) = W"
      using adv(1,3) [of now] by (auto simp: overtaken_def clock_of_def)
    have "bMax (pGen p) - l \<le> rTimestamp r" if "r \<in> set (snd (ws_run cfg evs (st' now)))" "of_partition k r" for r
      using ws_run_times [OF that] Cons.prems(4,5) p(2) by auto
    with p(3) rest show ?thesis unfolding WTick tick(3) by fastforce
  next
    case (WTickCancelled now)
    then show ?thesis using IH [OF adv(1) _ adv(2)] adv(3) unfolding WTickCancelled tick(4) by simp
  qed (use Cons.prems in \<open>simp_all add: ws_step.simps ws_run_stopped flush_max_def\<close>)
qed simp

text \<open>
  C10. The minimum over partitions is a safe bound for every partition it covers. Idle detection is
  off, and the wrapper has taken the events \<open>pre\<close>, a record of partition \<open>k\<close> among them. If the
  records of this one partition stay within the allowed lateness of its own maximum, whatever the
  other partitions do, a later record of it never comes out behind a watermark, with one exception: a
  partition that was behind the watermark already when it was first seen may stay behind that
  watermark (and only that one) until its clock has caught up.
\<close>

theorem partition_watermarks_no_late:
  assumes "wcPerPartition cfg = Some l" and "0 \<le> l" and "wcIdle cfg < 0" and "takes_data (pre @ post)"
    and "\<forall>t \<in> set (partition_times k (pre @ post)). zero_time + l < t"
    and "sorted_wrt (\<lambda>a b. a - l \<le> b) (partition_times k (pre @ post))"
    and "st = fst (ws_run cfg pre (new_wsrc g))" and "map_of (wsParts st) k = Some p"
  shows "sorted_wrt (\<lambda>a b. isWatermark a \<and> of_partition k b \<longrightarrow> rTimestamp a \<le> rTimestamp b \<or>
      get_watermark (pGen p) < wsLast st \<and> rTimestamp a = wsLast st) (snd (ws_run cfg post st))"
proof (cases "wsRunning st")
  case True
  let ?T = "set (partition_times k pre)"
  have pos: "zero_time < t" if "t \<in> set (partition_times k (pre @ post))" for t
    using assms(2) bspec [OF assms(5) that] by linarith
  have "clock_of k l ?T (new_wsrc g)" by (simp add: clock_of_def new_wsrc_def)
  then have clock: "clock_of k l ?T st"
    using assms(1,4) pos unfolding assms(7) by (intro clock_of_run) auto
  then have p: "bLateness (pGen p) = l" "zero_time + l < bMax (pGen p)"
    using assms(5,8) by (auto simp: clock_of_def)
  then have "get_watermark (pGen p) = bMax (pGen p) - l"
    using assms(2) by (simp add: get_watermark_started bounded_started_def)
  with p assms(8) have "overtaken k l (get_watermark (pGen p) < wsLast st) (wsLast st) st"
    by (auto simp: overtaken_def)
  then show ?thesis
    using assms(4,6) pos clock True by (intro ws_run_overtakes [OF assms(1-3), of _ _ _ _ ?T]) (auto simp: sorted_wrt_append)
qed (simp add: ws_run_stopped)

text \<open>
  The first partition falls out of order (3 after 110) and the third starts behind the watermark (40
  after 100), so late records do occur; the second partition keeps its order and has none.
\<close>

definition partition_demo :: "gotime \<Rightarrow> int \<Rightarrow> ws_event" where
  "partition_demo t n = WRecv ((new_record t ''k'' ''v'')\<lparr>rPartition := n\<rparr>) 0"

definition partition_demo_pre :: "ws_event list" where
  "partition_demo_pre = [partition_demo 100 0, partition_demo 97 1, WTick 1]"

definition partition_demo_post :: "ws_event list" where
  "partition_demo_post = [partition_demo 94 1, partition_demo 110 0, partition_demo 3 0, partition_demo 105 1, WTick 2,
     partition_demo 40 2, partition_demo 101 1, WTick 3, WClosed True]"

theorem partition_watermarks_no_late_witness:
  "map (\<lambda>r. (isWatermark r, rTimestamp r, rPartition r)) (snd (ws_run \<lparr>wcPerPartition = Some 5, wcIdle = - 1\<rparr>
     partition_demo_post (fst (ws_run \<lparr>wcPerPartition = Some 5, wcIdle = - 1\<rparr> partition_demo_pre (new_wsrc (new_bounded 5)))))) =
   [(False, 94, 1), (False, 110, 0), (False, 3, 0), (False, 105, 1), (True, 100, 0),
    (False, 40, 2), (False, 101, 1), (True, 100, 0), (True, max_watermark_time, 0)] \<and>
   sorted_wrt (\<lambda>a b. isWatermark a \<and> of_partition ([], 1) b \<longrightarrow> rTimestamp a \<le> rTimestamp b) (snd (ws_run \<lparr>wcPerPartition = Some 5, wcIdle = - 1\<rparr>
     partition_demo_post (fst (ws_run \<lparr>wcPerPartition = Some 5, wcIdle = - 1\<rparr> partition_demo_pre (new_wsrc (new_bounded 5))))))"
proof (rule conjI)
  let ?cfg = "\<lparr>wcPerPartition = Some 5, wcIdle = - 1\<rparr>"
  let ?st = "fst (ws_run ?cfg partition_demo_pre (new_wsrc (new_bounded 5)))"
  have last: "wsLast ?st = 92" by code_simp
  obtain p where p: "map_of (wsParts ?st) ([], 1) = Some p" "get_watermark (pGen p) = 92"
  proof -
    have "map_option (\<lambda>p. get_watermark (pGen p)) (map_of (wsParts ?st) ([], 1)) = Some 92" by code_simp
    with that show thesis by auto
  qed
  have hyps: "takes_data (partition_demo_pre @ partition_demo_post)"
    "\<forall>t \<in> set (partition_times ([], 1) (partition_demo_pre @ partition_demo_post)). zero_time + 5 < t"
    "sorted_wrt (\<lambda>a b. a - 5 \<le> b) (partition_times ([], 1) (partition_demo_pre @ partition_demo_post))"
    by code_simp+
  show "sorted_wrt (\<lambda>a b. isWatermark a \<and> of_partition ([], 1) b \<longrightarrow> rTimestamp a \<le> rTimestamp b) (snd (ws_run ?cfg partition_demo_post ?st))"
    using partition_watermarks_no_late [of ?cfg 5, OF _ _ _ hyps refl p(1)] by (simp add: last p(2))
  show "map (\<lambda>r. (isWatermark r, rTimestamp r, rPartition r)) (snd (ws_run ?cfg partition_demo_post ?st)) =
     [(False, 94, 1), (False, 110, 0), (False, 3, 0), (False, 105, 1), (True, 100, 0),
      (False, 40, 2), (False, 101, 1), (True, 100, 0), (True, max_watermark_time, 0)]" by code_simp
qed

end
