(* ===== verification/Go_Time_Format.thy ===== *)
theory Go_Time_Format
  imports Go_Time "HOL-Library.Monad_Syntax"
begin

text \<open>
  \<^verbatim>\<open>Time.Format(time.RFC3339Nano)\<close> of a UTC time and \<^verbatim>\<open>time.Parse(time.RFC3339Nano, s)\<close>. The window
  and reduce operators put window bounds into state keys and headers in this form, so the round
  trip proved here is what makes those keys readable again.
\<close>

section \<open>Printing\<close>

definition fmt_year :: "int \<Rightarrow> string" where
  "fmt_year y = (if 0 \<le> y then pad 4 (nat y) else CHR ''-'' # pad 4 (nat (- y)))"

definition trim_zeros :: "string \<Rightarrow> string" where
  "trim_zeros s = rev (dropWhile (\<lambda>c. c = digit 0) (rev s))"

definition fmt_fraction :: "nat \<Rightarrow> string" where
  "fmt_fraction ns = (if ns = 0 then [] else CHR ''.'' # trim_zeros (pad 9 ns))"

definition format_rfc3339nano :: "gotime \<Rightarrow> string" where
  "format_rfc3339nano t =
     (let sec = t div 10 ^ 9; ns = nat (t mod 10 ^ 9);
          sod = nat (sec mod 86400);
          (y, m, d) = civil_of_days (sec div 86400)
      in fmt_year y @ CHR ''-'' # pad 2 m @ CHR ''-'' # pad 2 d @ CHR ''T'' #
         pad 2 (sod div 3600) @ CHR '':'' # pad 2 (sod div 60 mod 60) @ CHR '':'' #
         pad 2 (sod mod 60) @ fmt_fraction ns @ ''Z'')"

section \<open>Parsing\<close>

definition lit :: "char \<Rightarrow> string \<Rightarrow> string option" where
  "lit c s = (case s of x # r \<Rightarrow> if x = c then Some r else None | [] \<Rightarrow> None)"

definition get_num :: "nat \<Rightarrow> string \<Rightarrow> (nat \<times> string) option" where
  "get_num w s = (if w \<le> length s \<and> list_all is_digit (take w s)
     then Some (dec_val (take w s), drop w s) else None)"

text \<open>The hour may have one digit only (\<^verbatim>\<open>getnum(value, false)\<close>).\<close>

definition get_hour :: "string \<Rightarrow> (nat \<times> string) option" where
  "get_hour s = (case get_num 2 s of Some r \<Rightarrow> Some r | None \<Rightarrow> get_num 1 s)"

definition get_fraction :: "string \<Rightarrow> nat \<times> string" where
  "get_fraction s =
     (case s of
        c # d # r \<Rightarrow>
          if (c = CHR ''.'' \<or> c = CHR '','') \<and> is_digit d then
            let ds = take 9 (takeWhile is_digit (d # r))
            in (dec_val ds * 10 ^ (9 - length ds), dropWhile is_digit (d # r))
          else (0, s)
      | _ \<Rightarrow> (0, s))"

definition get_zone :: "string \<Rightarrow> (int \<times> string) option" where
  "get_zone s =
     (case s of
        [] \<Rightarrow> None
      | c # r \<Rightarrow>
          if c = CHR ''Z'' then Some (0, r)
          else do {
            (h, r) \<leftarrow> get_num 2 r;
            r \<leftarrow> lit CHR '':'' r;
            (m, r) \<leftarrow> get_num 2 r;
            if 24 < h \<or> 60 < m then None
            else if c = CHR ''+'' then Some (int (h * 60 + m) * 60, r)
            else if c = CHR ''-'' then Some (- (int (h * 60 + m) * 60), r)
            else None
          })"

definition parse_rfc3339nano :: "string \<Rightarrow> gotime option" where
  "parse_rfc3339nano s = do {
     (y, s) \<leftarrow> get_num 4 s;
     s \<leftarrow> lit CHR ''-'' s;
     (mo, s) \<leftarrow> get_num 2 s;
     s \<leftarrow> lit CHR ''-'' s;
     (d, s) \<leftarrow> get_num 2 s;
     s \<leftarrow> lit CHR ''T'' s;
     (h, s) \<leftarrow> get_hour s;
     s \<leftarrow> lit CHR '':'' s;
     (mi, s) \<leftarrow> get_num 2 s;
     s \<leftarrow> lit CHR '':'' s;
     (se, s) \<leftarrow> get_num 2 s;
     let (ns, s) = get_fraction s;
     (off, s) \<leftarrow> get_zone s;
     if s = [] \<and> 1 \<le> mo \<and> mo \<le> 12 \<and> h < 24 \<and> mi < 60 \<and> se < 60
        \<and> 1 \<le> d \<and> d \<le> month_days (int y) ! (mo - 1)
     then Some ((days_of_civil (int y) mo d * 86400 + int (h * 3600 + mi * 60 + se) - off) * 10 ^ 9
                + int ns)
     else None
   }"

section \<open>The round trip\<close>

lemma get_num_pad [simp]:
  assumes "n < 10 ^ w" and "0 < w"
  shows "get_num w (pad w n @ s) = Some (n, s)"
proof -
  have "length (pad w n) = w" using assms by (rule length_pad)
  moreover have "list_all is_digit (pad w n)" by (auto simp: list_all_iff dest: pad_digits)
  ultimately show ?thesis by (simp add: get_num_def)
qed

lemma get_hour_pad [simp]: "n < 100 \<Longrightarrow> get_hour (pad 2 n @ s) = Some (n, s)"
  by (simp add: get_hour_def)

lemma lit_Cons [simp]: "lit c (c # s) = Some s"
  by (simp add: lit_def)

lemma get_zone_Z [simp]: "get_zone ''Z'' = Some (0, [])"
  by (simp add: get_zone_def)

lemma trim_zeros_append: "\<exists>k. s = trim_zeros s @ replicate k (digit 0)"
proof -
  let ?z = "\<lambda>c. c = digit 0"
  have "rev s = takeWhile ?z (rev s) @ dropWhile ?z (rev s)" by simp
  then have "s = trim_zeros s @ rev (takeWhile ?z (rev s))"
    unfolding trim_zeros_def by (metis rev_append rev_rev_ident)
  moreover have "takeWhile ?z (rev s) = replicate (length (takeWhile ?z (rev s))) (digit 0)"
    by (rule replicate_length_same [symmetric]) (auto dest: set_takeWhileD)
  ultimately show ?thesis by (metis rev_replicate)
qed

lemma get_fraction_fmt:
  assumes "ns < 10 ^ 9"
  shows "get_fraction (fmt_fraction ns @ ''Z'') = (ns, ''Z'')"
proof (cases "ns = 0")
  case True
  then show ?thesis by (simp add: fmt_fraction_def get_fraction_def)
next
  case False
  let ?s = "trim_zeros (pad 9 ns)"
  obtain k where k: "pad 9 ns = ?s @ replicate k (digit 0)"
    using trim_zeros_append by blast
  have len: "length ?s + k = 9"
    using arg_cong [OF k, of length] assms by (simp add: length_pad)
  have digits: "\<forall>c \<in> set ?s. is_digit c"
    using k pad_digits [of _ 9 ns] by (metis Un_iff set_append)
  have val: "dec_val ?s * 10 ^ k = ns"
    using arg_cong [OF k, of dec_val] by (simp add: dec_val_append)
  with False obtain d r where s: "?s = d # r" by (cases ?s) auto
  have "takeWhile is_digit (?s @ ''Z'') = ?s" and "dropWhile is_digit (?s @ ''Z'') = ''Z''"
    using takeWhile_append_stop [OF digits, of "CHR ''Z''" "[]"]
      dropWhile_append_stop [OF digits, of "CHR ''Z''" "[]"] by simp_all
  then have tw: "takeWhile is_digit (d # r @ ''Z'') = ?s"
    and dw: "dropWhile is_digit (d # r @ ''Z'') = ''Z''"
    by (simp_all add: s)
  have "fmt_fraction ns @ ''Z'' = CHR ''.'' # d # r @ ''Z''"
    using False by (simp add: fmt_fraction_def s)
  moreover have "is_digit d" using digits s by simp
  moreover have "take 9 ?s = ?s" and "9 - length ?s = k" using len by simp_all
  ultimately show ?thesis
    using val by (simp only: get_fraction_def list.case tw dw Let_def) simp
qed

definition civil_range :: "gotime \<Rightarrow> bool" where
  "civil_range t \<longleftrightarrow> - 62167219200 * 10 ^ 9 \<le> t \<and> t < 253402300800 * 10 ^ 9"

lemma civil_year_range:
  assumes "civil_of_days z = (y, m, d)" and "- 719528 \<le> z" and "z < 2932897"
  shows "0 \<le> y \<and> y < 10000"
proof -
  let ?n = "z + 719528"
  obtain r where "year_split (400 * (?n div 146097)) (?n mod 146097) = (y, r)"
    using assms(1) by (auto simp: civil_of_days_def Let_def split: prod.splits)
  from year_split_correct [OF _ this] have r:
    "days_before_year y + r = ?n" "0 \<le> r" "400 * (?n div 146097) \<le> y"
    by (auto simp: days_before_year_400)
  have "0 \<le> y"
    using r(3) assms(2) by (smt (verit) pos_imp_zdiv_nonneg_iff)
  moreover have "y < 10000"
  proof (rule ccontr)
    assume "\<not> y < 10000"
    then have "days_before_year 10000 \<le> days_before_year y"
      by (intro days_before_year_mono) simp
    moreover have "days_before_year 10000 = 3652425"
      using days_before_year_400 [of 25] by simp
    ultimately show False using r assms(3) by simp
  qed
  ultimately show ?thesis by simp
qed

lemma month_days_le: "m \<le> 12 \<Longrightarrow> 1 \<le> m \<Longrightarrow> month_days y ! (m - 1) \<le> 31"
proof -
  have "\<forall>x \<in> set (month_days y). x \<le> 31" by (simp add: month_days_def)
  moreover assume "m \<le> 12" "1 \<le> m"
  ultimately show ?thesis by (auto intro!: bspec [OF _ nth_mem])
qed

lemma div_bounds:
  fixes t k :: int
  assumes "0 < k" and "a * k \<le> t" and "t < b * k"
  shows "a \<le> t div k \<and> t div k < b"
proof -
  have "a \<le> t div k" using zdiv_mono1 [of "a * k" t k] assms by simp
  moreover have "t div k * k < b * k"
    using assms(3) div_mult_mod_eq [of t k] pos_mod_sign [OF assms(1), of t] by linarith
  ultimately show ?thesis using assms(1) by (simp add: mult_less_cancel_right)
qed

lemma mixed_radix:
  fixes n j k :: nat
  shows "n div (k * j) * (k * j) + n div k mod j * k + n mod k = n"
proof -
  have "n div (k * j) * (k * j) + n div k mod j * k = (n div k div j * j + n div k mod j) * k"
    unfolding div_mult2_eq add_mult_distrib by (simp only: ac_simps)
  also have "\<dots> = n div k * k" by (simp only: div_mult_mod_eq)
  finally show ?thesis by simp
qed

lemma parse_format_rfc3339nano:
  assumes "civil_range t"
  shows "parse_rfc3339nano (format_rfc3339nano t) = Some t"
proof -
  define sec where "sec = t div 10 ^ 9"
  define ns where "ns = nat (t mod 10 ^ 9)"
  define sod where "sod = nat (sec mod 86400)"
  obtain y m d where civ: "civil_of_days (sec div 86400) = (y, m, d)" by (metis prod_cases3)
  have day: "- 719528 \<le> sec div 86400" "sec div 86400 < 2932897"
    using assms div_bounds [of "86400 * 10 ^ 9" "- 719528" t 2932897]
    by (simp_all add: civil_range_def sec_def flip: zdiv_zmult2_eq)
  from civil_year_range [OF civ day] have y: "0 \<le> y" "y < 10000" by auto
  from civil_of_days_correct [OF civ] have
    md: "days_of_civil y m d = sec div 86400" "1 \<le> m" "m \<le> 12" "1 \<le> d" "d \<le> month_days y ! (m - 1)"
    by auto
  have d31: "d \<le> 31" using md month_days_le [of m y] by simp
  have ns: "ns < 10 ^ 9" "t = sec * 10 ^ 9 + int ns" by (simp_all add: ns_def sec_def nat_less_iff)
  have sod: "sod < 86400" "sec = sec div 86400 * 86400 + int sod" by (simp_all add: sod_def nat_less_iff)
  have hms: "sod = sod div 3600 * 3600 + sod div 60 mod 60 * 60 + sod mod 60"
    using mixed_radix [of sod 60 60] by simp
  have h: "sod div 3600 < 24" using sod(1) by (simp add: less_mult_imp_div_less)
  have "format_rfc3339nano t = pad 4 (nat y) @ CHR ''-'' # pad 2 m @ CHR ''-'' # pad 2 d @ CHR ''T'' #
      pad 2 (sod div 3600) @ CHR '':'' # pad 2 (sod div 60 mod 60) @ CHR '':'' #
      pad 2 (sod mod 60) @ fmt_fraction ns @ ''Z''"
    unfolding format_rfc3339nano_def fmt_year_def Let_def sec_def [symmetric] ns_def [symmetric]
      sod_def [symmetric] civ using y by simp
  then have "parse_rfc3339nano (format_rfc3339nano t) =
      Some ((days_of_civil y m d * 86400 +
        int (sod div 3600 * 3600 + sod div 60 mod 60 * 60 + sod mod 60)) * 10 ^ 9 + int ns)"
    using y md d31 h get_fraction_fmt [OF ns(1)]
    by (simp add: parse_rfc3339nano_def del: of_nat_add of_nat_mult)
  also have "\<dots> = Some ((sec div 86400 * 86400 + int sod) * 10 ^ 9 + int ns)"
    unfolding md(1) hms [symmetric] ..
  also have "\<dots> = Some t"
    using ns(2) sod(2) by simp
  finally show ?thesis .
qed

lemma format_no_slash: "CHR ''/'' \<notin> set (format_rfc3339nano t)"
proof -
  have "CHR ''/'' \<notin> set (pad w n)" for w n
    using pad_digits by fastforce
  moreover have "set (trim_zeros s) \<subseteq> set s" for s
    using trim_zeros_append [of s] by (metis set_append sup_ge1)
  ultimately show ?thesis
    by (auto simp: format_rfc3339nano_def fmt_year_def fmt_fraction_def Let_def split: prod.splits)
qed

lemma in_int64_civil_range: "in_int64 t \<Longrightarrow> civil_range t"
  by (simp add: in_int64_def civil_range_def)

end
