(* ===== verification/Windows.thy ===== *)
theory Windows
  imports Go_Time
begin

text \<open>
  Window assigners (\<^verbatim>\<open>window/\<close>): tumbling, sliding and session windows. \<open>None\<close> is the absence of a
  normal return: a panic (the integer division by a zero window size or slide) or a loop that does
  not end (a sliding assigner with a negative slide).
\<close>

record window =
  wStart :: gotime
  wEnd :: gotime

definition contains_ts :: "window \<Rightarrow> gotime \<Rightarrow> bool" where
  "contains_ts w t \<longleftrightarrow> wStart w \<le> t \<and> t < wEnd w"

datatype assigner =
    Tumbling (tsize: duration) (toffset: duration)
  | Sliding (ssize: duration) (sslide: duration) (soffset: duration)
  | Session (gap: duration)

definition is_session :: "assigner \<Rightarrow> bool" where
  "is_session a = (case a of Session _ \<Rightarrow> True | _ \<Rightarrow> False)"

definition window_size :: "assigner \<Rightarrow> duration" where
  "window_size a = (case a of Tumbling s _ \<Rightarrow> s | Sliding s _ _ \<Rightarrow> s | Session g \<Rightarrow> g)"

text \<open>\<^verbatim>\<open>WindowStart\<close>: all arithmetic is on \<^verbatim>\<open>int64\<close> nanoseconds and the division truncates.\<close>

definition window_start :: "gotime \<Rightarrow> duration \<Rightarrow> duration \<Rightarrow> gotime option" where
  "window_start ts sz off =
     (let aligned = int64 (unix_nano ts - off) in
      if sz = 0 then None
      else Some (int64 (int64 (int64 (go_quot aligned sz) * sz) + off)))"

definition tumbling_assign :: "duration \<Rightarrow> duration \<Rightarrow> gotime \<Rightarrow> window list option" where
  "tumbling_assign sz off ts =
     map_option (\<lambda>start. [\<lparr>wStart = start, wEnd = start + sz\<rparr>]) (window_start ts sz off)"

text \<open>The two loops of the sliding assigner; the windows found so far come first.\<close>

partial_function (option) slide_back ::
    "duration \<Rightarrow> duration \<Rightarrow> gotime \<Rightarrow> gotime \<Rightarrow> window list \<Rightarrow> window list option" where
  "slide_back sz slide ts start acc =
     (if start + sz > ts then
        slide_back sz slide ts (start - slide)
          (if start \<le> ts then acc @ [\<lparr>wStart = start, wEnd = start + sz\<rparr>] else acc)
      else Some acc)"

partial_function (option) slide_forward ::
    "duration \<Rightarrow> duration \<Rightarrow> gotime \<Rightarrow> gotime \<Rightarrow> window list \<Rightarrow> window list option" where
  "slide_forward sz slide ts start acc =
     (if start < ts + sz then
        slide_forward sz slide ts (start + slide)
          (if start \<le> ts \<and> start + sz > ts
           then acc @ [\<lparr>wStart = start, wEnd = start + sz\<rparr>] else acc)
      else Some acc)"

definition sliding_assign ::
    "duration \<Rightarrow> duration \<Rightarrow> duration \<Rightarrow> gotime \<Rightarrow> window list option" where
  "sliding_assign sz slide off ts =
     (case window_start ts slide off of
        None \<Rightarrow> None
      | Some lastStart \<Rightarrow>
          (case slide_back sz slide ts lastStart [] of
             None \<Rightarrow> None
           | Some ws \<Rightarrow>
               map_option
                 (\<lambda>ws. if ws = [] then [\<lparr>wStart = lastStart, wEnd = lastStart + sz\<rparr>] else ws)
                 (slide_forward sz slide ts (lastStart + slide) ws)))"

definition session_assign :: "duration \<Rightarrow> gotime \<Rightarrow> window list option" where
  "session_assign g ts = Some [\<lparr>wStart = ts, wEnd = ts + g\<rparr>]"

definition assign_windows :: "assigner \<Rightarrow> gotime \<Rightarrow> window list option" where
  "assign_windows a ts =
     (case a of
        Tumbling sz off \<Rightarrow> tumbling_assign sz off ts
      | Sliding sz slide off \<Rightarrow> sliding_assign sz slide off ts
      | Session g \<Rightarrow> session_assign g ts)"

definition merge_sessions :: "window \<Rightarrow> window \<Rightarrow> window list" where
  "merge_sessions a b =
     (if wEnd a > wStart b \<and> wStart a < wEnd b then
        [\<lparr>wStart = if wStart b < wStart a then wStart b else wStart a,
          wEnd = if wEnd b > wEnd a then wEnd b else wEnd a\<rparr>]
      else [a, b])"

section \<open>Alignment\<close>

text \<open>
  Timestamps from which the alignment arithmetic does not overflow and whose distance from the
  window offset is not negative; for the default offset these are the instants from the epoch on.
\<close>

definition alignable :: "gotime \<Rightarrow> duration \<Rightarrow> bool" where
  "alignable ts off \<longleftrightarrow> in_int64 ts \<and> in_int64 off \<and> off \<le> ts \<and> in_int64 (ts - off)"

lemma div_le_self: "0 \<le> a \<Longrightarrow> 0 < k \<Longrightarrow> a div k \<le> (a::int)"
  using zdiv_mono2 [of a 1 k] by simp

lemma window_start_alignable:
  assumes "alignable ts off" and "0 < sz"
  shows "window_start ts sz off = Some (ts - (ts - off) mod sz)"
proof -
  let ?a = "ts - off"
  have a: "0 \<le> ?a" "in_int64 ?a" "in_int64 ts" using assms by (auto simp: alignable_def)
  have q: "?a div sz * sz = ?a - ?a mod sz"
    by (simp add: minus_mod_eq_div_mult)
  have "0 \<le> ?a div sz" "?a div sz \<le> ?a"
    using a assms by (simp_all add: pos_imp_zdiv_nonneg_iff div_le_self)
  moreover have m: "0 \<le> ?a mod sz" "?a mod sz \<le> ?a"
    using a assms by (simp_all add: zmod_le_nonneg_dividend)
  ultimately have "in_int64 (?a div sz)" "in_int64 (?a - ?a mod sz)" "in_int64 (ts - ?a mod sz)"
    using a assms(1) by (auto simp: in_int64_def alignable_def)
  moreover from this have "int64 (go_quot ?a sz) * sz = ?a - ?a mod sz"
    using a assms by (simp add: go_quot_nonneg q)
  ultimately show ?thesis
    using a assms by (simp add: window_start_def Let_def)
qed

lemma window_start_negative:
  assumes "in_int64 ts" and "in_int64 off" and "in_int64 (ts - off)" and "ts < off" and "0 < sz"
    and "in_int64 (ts + sz)"
  shows "window_start ts sz off = Some (ts + (off - ts) mod sz)"
proof -
  let ?a = "ts - off"
  have q: "(off - ts) div sz * sz = (off - ts) - (off - ts) mod sz"
    by (simp add: minus_mod_eq_div_mult)
  have d: "0 \<le> (off - ts) div sz" "(off - ts) div sz \<le> off - ts"
    using assms by (simp_all add: pos_imp_zdiv_nonneg_iff div_le_self)
  have m: "0 \<le> (off - ts) mod sz" "(off - ts) mod sz < sz" "(off - ts) mod sz \<le> off - ts"
    using assms by (simp_all add: zmod_le_nonneg_dividend)
  have "in_int64 (- ((off - ts) div sz))" "in_int64 (ts - off + (off - ts) mod sz)"
    "in_int64 (ts + (off - ts) mod sz)"
    using d m assms unfolding in_int64_def by linarith+
  moreover from this have "int64 (go_quot ?a sz) * sz = ?a + (off - ts) mod sz"
    using assms q by (simp add: go_quot_neg)
  ultimately show ?thesis
    using assms by (simp add: window_start_def Let_def)
qed

section \<open>Tumbling windows\<close>

lemma tumbling_window:
  assumes "alignable ts off" and "0 < sz"
  obtains w where "tumbling_assign sz off ts = Some [w]" and "contains_ts w ts"
    and "wEnd w = wStart w + sz" and "sz dvd wStart w - off"
proof
  let ?w = "\<lparr>wStart = ts - (ts - off) mod sz, wEnd = ts - (ts - off) mod sz + sz\<rparr>"
  show "tumbling_assign sz off ts = Some [?w]"
    using assms by (simp add: tumbling_assign_def window_start_alignable)
  show "contains_ts ?w ts"
    using assms by (simp add: contains_ts_def)
  show "wEnd ?w = wStart ?w + sz" by simp
  show "sz dvd wStart ?w - off"
    using dvd_minus_mod [of sz "ts - off"] by (simp add: algebra_simps)
qed

section \<open>Sliding windows\<close>

definition slot :: "duration \<Rightarrow> duration \<Rightarrow> gotime \<Rightarrow> nat \<Rightarrow> window" where
  "slot sz slide start k = \<lparr>wStart = start - int k * slide, wEnd = start - int k * slide + sz\<rparr>"

lemma slot_shift: "slot sz slide (start - slide) k = slot sz slide start (Suc k)"
  by (simp add: slot_def algebra_simps)

lemma slide_back_slots:
  assumes "0 < slide" and "start \<le> ts"
  shows "\<exists>n. slide_back sz slide ts start acc = Some (acc @ map (slot sz slide start) [0..<n]) \<and>
    (\<forall>k. k < n \<longleftrightarrow> ts < start - int k * slide + sz)"
  using assms(2)
proof (induction "nat (start + sz - ts)" arbitrary: start acc rule: less_induct)
  case less
  show ?case
  proof (cases "ts < start + sz")
    case False
    then have "\<not> ts < start - int k * slide + sz" for k
      using assms(1) by (smt (verit) mult_nonneg_nonneg of_nat_0_le_iff)
    with False show ?thesis
      by (intro exI [of _ 0]) (simp add: slide_back.simps [of sz slide ts start])
  next
    case True
    let ?acc = "acc @ [slot sz slide start 0]"
    have "nat (start - slide + sz - ts) < nat (start + sz - ts)" "start - slide \<le> ts"
      using True assms(1) less.prems by auto
    from less.hyps [OF this, of ?acc] obtain n where n:
      "slide_back sz slide ts (start - slide) ?acc =
         Some (?acc @ map (slot sz slide (start - slide)) [0..<n])"
      "\<And>k. k < n \<longleftrightarrow> ts < start - slide - int k * slide + sz"
      by auto
    have "map (slot sz slide start) [0..<Suc n] =
        slot sz slide start 0 # map (slot sz slide (start - slide)) [0..<n]"
      unfolding slot_shift by (simp only: map_upt_Suc)
    moreover have "slide_back sz slide ts start acc = slide_back sz slide ts (start - slide) ?acc"
      using True less.prems by (subst slide_back.simps) (simp add: slot_def)
    moreover have "k < Suc n \<longleftrightarrow> ts < start - int k * slide + sz" for k
    proof (cases k)
      case 0
      then show ?thesis using True by simp
    next
      case (Suc j)
      then show ?thesis using n(2) [of j] by (simp add: algebra_simps)
    qed
    ultimately show ?thesis
      using n(1) by (intro exI [of _ "Suc n"]) simp
  qed
qed

lemma slide_forward_idle:
  assumes "0 < slide" and "ts < start"
  shows "slide_forward sz slide ts start acc = Some acc"
  using assms(2)
proof (induction "nat (ts + sz - start)" arbitrary: start rule: less_induct)
  case less
  show ?case
  proof (cases "start < ts + sz")
    case True
    then have "slide_forward sz slide ts (start + slide) acc = Some acc"
      using less assms(1) by simp
    with True less.prems show ?thesis
      by (subst slide_forward.simps) simp
  qed (simp add: slide_forward.simps)
qed

text \<open>Where the slide does not exceed the size, both loops end and their result is made of slots.\<close>

lemma sliding_assign_slots:
  assumes "alignable ts off" and "0 < slide" and "slide \<le> sz"
  defines "lastStart \<equiv> ts - (ts - off) mod slide"
  shows "\<exists>n. sliding_assign sz slide off ts = Some (map (slot sz slide lastStart) [0..<n]) \<and>
    (\<forall>k. k < n \<longleftrightarrow> ts < lastStart - int k * slide + sz)"
proof -
  have ws: "window_start ts slide off = Some lastStart"
    using assms by (simp add: window_start_alignable)
  have last: "lastStart \<le> ts" "ts < lastStart + slide"
    using assms(2) by (simp_all add: lastStart_def)
  obtain n where n: "slide_back sz slide ts lastStart [] = Some (map (slot sz slide lastStart) [0..<n])"
    "\<And>k. k < n \<longleftrightarrow> ts < lastStart - int k * slide + sz"
    using slide_back_slots [OF assms(2) last(1), of sz "[]"] by auto
  have "0 < n" using n(2) [of 0] last assms(3) by simp
  then have "map (slot sz slide lastStart) [0..<n] \<noteq> []" by simp
  moreover have "slide_forward sz slide ts (lastStart + slide) (map (slot sz slide lastStart) [0..<n]) =
      Some (map (slot sz slide lastStart) [0..<n])"
    using assms(2) last by (simp add: slide_forward_idle)
  ultimately show ?thesis
    using n ws by (intro exI [of _ n]) (simp add: sliding_assign_def)
qed

section \<open>What the assigners promise\<close>

text \<open>
  C17. Tumbling windows partition event time: a timestamp at or after the window offset gets exactly
  one window; it contains the timestamp, has the configured size and starts at a multiple of the
  size from the offset, and it is the only such window.
\<close>

theorem tumbling_partition:
  assumes "alignable ts off" and "0 < sz"
  shows "\<exists>w. tumbling_assign sz off ts = Some [w] \<and>
    (\<forall>v. wEnd v = wStart v + sz \<and> sz dvd wStart v - off \<and> contains_ts v ts \<longleftrightarrow> v = w)"
proof -
  obtain w where w: "tumbling_assign sz off ts = Some [w]" "contains_ts w ts"
    "wEnd w = wStart w + sz" "sz dvd wStart w - off"
    using tumbling_window [OF assms] by blast
  have "v = w" if v: "wEnd v = wStart v + sz" "sz dvd wStart v - off" "contains_ts v ts" for v
  proof -
    have "sz dvd wStart v - wStart w"
      using dvd_diff [OF v(2) w(4)] by simp
    moreover have "\<bar>wStart v - wStart w\<bar> < sz"
      using v w by (auto simp: contains_ts_def)
    ultimately have "wStart v = wStart w"
      using dvd_imp_le_int [of "wStart v - wStart w" sz] assms(2) by force
    with v w show ?thesis by simp
  qed
  with w show ?thesis by blast
qed

theorem tumbling_partition_witness:
  "\<exists>w. tumbling_assign 300 60 1000 = Some [w] \<and>
    (\<forall>v. wEnd v = wStart v + 300 \<and> 300 dvd wStart v - 60 \<and> contains_ts v 1000 \<longleftrightarrow> v = w)"
  by (rule tumbling_partition) (simp_all add: alignable_def in_int64_def)

text \<open>
  C16. A sliding assigner whose slide does not exceed its size returns, for a timestamp at or after
  the offset, exactly the windows of the configured size that start at a multiple of the slide from
  the offset and contain the timestamp, each once; in particular its two loops end.
\<close>

theorem sliding_exact:
  assumes "alignable ts off" and "0 < slide" and "slide \<le> sz"
  shows "\<exists>ws. sliding_assign sz slide off ts = Some ws \<and> distinct ws \<and>
    set ws = {w. wEnd w = wStart w + sz \<and> slide dvd wStart w - off \<and> contains_ts w ts}"
proof -
  define lastStart where "lastStart = ts - (ts - off) mod slide"
  obtain n where n: "sliding_assign sz slide off ts = Some (map (slot sz slide lastStart) [0..<n])"
    "\<And>k. k < n \<longleftrightarrow> ts < lastStart - int k * slide + sz"
    using sliding_assign_slots [OF assms] unfolding lastStart_def by blast
  have last: "lastStart \<le> ts" "ts < lastStart + slide" "slide dvd lastStart - off"
    using assms(2) dvd_minus_mod [of slide "ts - off"]
    by (simp_all add: lastStart_def algebra_simps)
  have "inj_on (slot sz slide lastStart) A" for A
    using assms(2) by (auto intro!: inj_onI simp: slot_def)
  then have "distinct (map (slot sz slide lastStart) [0..<n])"
    by (simp add: distinct_map)
  moreover have "slot sz slide lastStart k \<in>
      {w. wEnd w = wStart w + sz \<and> slide dvd wStart w - off \<and> contains_ts w ts}" if "k < n" for k
  proof -
    have "slide dvd lastStart - off - int k * slide" using last(3) by simp
    moreover have "0 \<le> int k * slide" using assms(2) by simp
    ultimately show ?thesis
      using n(2) [of k] that last(1) by (auto simp: slot_def contains_ts_def algebra_simps)
  qed
  moreover have "w \<in> slot sz slide lastStart ` {0..<n}"
    if w: "wEnd w = wStart w + sz" "slide dvd wStart w - off" "contains_ts w ts" for w
  proof -
    have "slide dvd lastStart - wStart w" using dvd_diff [OF last(3) w(2)] by simp
    then obtain q where q: "lastStart - wStart w = slide * q" by blast
    have "slide * q > slide * (- 1)" using q last w by (simp add: contains_ts_def)
    then have "- 1 < q" using assms(2) mult_less_cancel_left_pos [of slide "- 1" q] by blast
    then have "0 \<le> q" by simp
    then have "w = slot sz slide lastStart (nat q)"
      using q w(1) by (simp add: slot_def algebra_simps)
    moreover have "nat q < n"
      using n(2) [of "nat q"] q w \<open>0 \<le> q\<close> by (simp add: contains_ts_def algebra_simps)
    ultimately show ?thesis by simp
  qed
  ultimately show ?thesis
    using n(1) by (intro exI [of _ "map (slot sz slide lastStart) [0..<n]"]) auto
qed

theorem sliding_exact_witness:
  "\<exists>ws. sliding_assign 300 60 0 1000 = Some ws \<and> distinct ws \<and>
    set ws = {w. wEnd w = wStart w + 300 \<and> 60 dvd wStart w - 0 \<and> contains_ts w 1000}"
  by (rule sliding_exact) (simp_all add: alignable_def in_int64_def)

text \<open>
  C25. The division in the window alignment truncates towards zero, so for a timestamp before the
  window offset (before the epoch, by default) that is not itself a window boundary the assigned
  tumbling window starts after the timestamp: the record is put into a window it does not lie in.
\<close>

theorem tumbling_before_offset_misses:
  assumes "in_int64 ts" and "in_int64 off" and "in_int64 (ts - off)" and "in_int64 (ts + sz)"
    and "0 < sz" and "ts < off" and "\<not> sz dvd off - ts"
  shows "\<exists>w. tumbling_assign sz off ts = Some [w] \<and> ts < wStart w \<and> \<not> contains_ts w ts"
proof -
  have "0 < (off - ts) mod sz"
    using assms(5,7) by (simp add: dvd_eq_mod_eq_0 order_less_le)
  then show ?thesis
    using window_start_negative [OF assms(1-3,6,5,4)]
    by (auto simp: tumbling_assign_def contains_ts_def)
qed

theorem tumbling_before_offset_misses_witness:
  "\<exists>w. tumbling_assign 300 0 (- 7) = Some [w] \<and> - 7 < wStart w \<and> \<not> contains_ts w (- 7)"
  by (rule tumbling_before_offset_misses) (simp_all add: in_int64_def)

section \<open>The assigner interface\<close>

text \<open>
  What the window operator relies on: for a valid configuration and timestamp an assigner returns,
  it returns at least one window, and every window contains the timestamp.
\<close>

locale window_assigner =
  fixes assign :: "'c \<Rightarrow> gotime \<Rightarrow> window list option"
    and valid :: "'c \<Rightarrow> gotime \<Rightarrow> bool"
  assumes assigned: "valid c ts \<Longrightarrow> \<exists>ws. assign c ts = Some ws \<and> ws \<noteq> [] \<and> (\<forall>w \<in> set ws. contains_ts w ts)"
begin

lemma not_closed_before:
  assumes "valid c ts" and "assign c ts = Some ws" and "w \<in> set ws"
  shows "ts < wEnd w"
  using assigned [OF assms(1)] assms by (auto simp: contains_ts_def)

lemma assigned_window:
  assumes "valid c ts"
  obtains ws w where "assign c ts = Some ws" and "w \<in> set ws" and "contains_ts w ts"
  using assigned [OF assms] by (metis list.set_intros(1) neq_Nil_conv)

end

definition assignable :: "assigner \<Rightarrow> gotime \<Rightarrow> bool" where
  "assignable a ts =
     (case a of
        Tumbling sz off \<Rightarrow> 0 < sz \<and> alignable ts off
      | Sliding sz slide off \<Rightarrow> 0 < slide \<and> slide \<le> sz \<and> alignable ts off
      | Session g \<Rightarrow> 0 < g)"

lemma sliding_nonempty:
  assumes "alignable ts off" and "0 < slide" and "slide \<le> sz"
  shows "\<exists>ws. sliding_assign sz slide off ts = Some ws \<and> ws \<noteq> [] \<and> (\<forall>w \<in> set ws. contains_ts w ts)"
proof -
  define lastStart where "lastStart = ts - (ts - off) mod slide"
  obtain n where n: "sliding_assign sz slide off ts = Some (map (slot sz slide lastStart) [0..<n])"
    "\<And>k. k < n \<longleftrightarrow> ts < lastStart - int k * slide + sz"
    using sliding_assign_slots [OF assms] unfolding lastStart_def by blast
  have last: "lastStart \<le> ts" "ts < lastStart + slide"
    using assms(2) by (simp_all add: lastStart_def)
  have "0 < n" using n(2) [of 0] last assms(3) by simp
  moreover have "contains_ts (slot sz slide lastStart k) ts" if "k < n" for k
  proof -
    have "0 \<le> int k * slide" using assms(2) by simp
    with last have "lastStart - int k * slide \<le> ts" by linarith
    then show ?thesis using n(2) [of k] that by (simp add: slot_def contains_ts_def)
  qed
  ultimately show ?thesis using n(1) by auto
qed

interpretation asg: window_assigner assign_windows assignable
proof
  fix a ts
  assume "assignable a ts"
  then show "\<exists>ws. assign_windows a ts = Some ws \<and> ws \<noteq> [] \<and> (\<forall>w \<in> set ws. contains_ts w ts)"
  proof (cases a)
    case (Tumbling sz off)
    with \<open>assignable a ts\<close> show ?thesis
      by (auto simp: assignable_def assign_windows_def elim!: tumbling_window)
  next
    case (Sliding sz slide off)
    with \<open>assignable a ts\<close> show ?thesis
      by (simp add: assignable_def assign_windows_def sliding_nonempty)
  next
    case (Session g)
    with \<open>assignable a ts\<close> show ?thesis
      by (simp add: assignable_def assign_windows_def session_assign_def contains_ts_def)
  qed
qed

end
