(* ===== verification/Window_Key.thy ===== *)
theory Window_Key
  imports Go_Time_Format Records Windows
begin

text \<open>
  The state keys of windowed operators: a record key and two window bounds joined by slashes
  (\<^verbatim>\<open>windowKey.String\<close> and \<^verbatim>\<open>parseWindowKey\<close> in \<^verbatim>\<open>operator/window.go\<close>, \<^verbatim>\<open>StateKey\<close> and
  \<^verbatim>\<open>stateKeyWindowEnd\<close> in \<^verbatim>\<open>operator/reduce.go\<close>), and the JSON form of a buffered record.
\<close>

section \<open>Window keys\<close>

record window_key =
  wkKey :: string
  wkStart :: int
  wkEnd :: int

definition to_window_key :: "string \<Rightarrow> window \<Rightarrow> window_key" where
  "to_window_key key win = \<lparr>wkKey = key, wkStart = unix_nano (wStart win), wkEnd = unix_nano (wEnd win)\<rparr>"

definition window_key_string :: "window_key \<Rightarrow> string" where
  "window_key_string k = wkKey k @ ''/'' @ format_rfc3339nano (wkStart k) @ ''/'' @ format_rfc3339nano (wkEnd k)"

text \<open>The parts before, between and after the last two slashes, if there are two.\<close>

definition split_last2 :: "string \<Rightarrow> (string \<times> string \<times> string) option" where
  "split_last2 s =
     (let rs = rev s; notslash = (\<lambda>c. c \<noteq> CHR ''/'')
      in case dropWhile notslash rs of
           [] \<Rightarrow> None
         | _ # before \<Rightarrow>
             (case dropWhile notslash before of
                [] \<Rightarrow> None
              | _ # key \<Rightarrow> Some (rev key, rev (takeWhile notslash before), rev (takeWhile notslash rs))))"

definition parsed_or_zero :: "string \<Rightarrow> gotime" where \<comment> \<open>\<^verbatim>\<open>t, _ := time.Parse(...)\<close>\<close>
  "parsed_or_zero s = (case parse_rfc3339nano s of Some t \<Rightarrow> t | None \<Rightarrow> zero_time)"

definition parse_window_key :: "string \<Rightarrow> window_key" where
  "parse_window_key s =
     (case split_last2 s of
        None \<Rightarrow> \<lparr>wkKey = [], wkStart = 0, wkEnd = 0\<rparr>
      | Some (k, st, en) \<Rightarrow>
          \<lparr>wkKey = k, wkStart = unix_nano (parsed_or_zero st), wkEnd = unix_nano (parsed_or_zero en)\<rparr>)"

definition state_key_window_end :: "string \<Rightarrow> gotime option" where
  "state_key_window_end s =
     (case split_last2 s of
        None \<Rightarrow> None
      | Some (k, st, en) \<Rightarrow> (case parse_rfc3339nano st of None \<Rightarrow> None | Some _ \<Rightarrow> parse_rfc3339nano en))"

definition state_key :: "rec \<Rightarrow> string" where
  "state_key r =
     (case rHeaders r ''window_start'' of
        Some ws \<Rightarrow> rKey r @ ''/'' @ ws @ ''/'' @ (case rHeaders r ''window_end'' of Some we \<Rightarrow> we | None \<Rightarrow> [])
      | None \<Rightarrow> rKey r)"

lemma split_last2_join:
  assumes "CHR ''/'' \<notin> set a" and "CHR ''/'' \<notin> set b"
  shows "split_last2 (k @ CHR ''/'' # a @ CHR ''/'' # b) = Some (k, a, b)"
proof -
  have "dropWhile (\<lambda>c. c \<noteq> CHR ''/'') (rev b @ CHR ''/'' # rev a @ CHR ''/'' # rev k) = CHR ''/'' # rev a @ CHR ''/'' # rev k"
    "takeWhile (\<lambda>c. c \<noteq> CHR ''/'') (rev b @ CHR ''/'' # rev a @ CHR ''/'' # rev k) = rev b"
    using assms(2) by (auto simp: dropWhile_append3 takeWhile_append)
  moreover have "dropWhile (\<lambda>c. c \<noteq> CHR ''/'') (rev a @ CHR ''/'' # rev k) = CHR ''/'' # rev k"
    "takeWhile (\<lambda>c. c \<noteq> CHR ''/'') (rev a @ CHR ''/'' # rev k) = rev a"
    using assms(1) by (auto simp: dropWhile_append3 takeWhile_append)
  ultimately show ?thesis by (simp add: split_last2_def)
qed

lemma window_key_reparse: "parse_window_key (window_key_string (to_window_key key win)) = to_window_key key win"
proof -
  have "parsed_or_zero (format_rfc3339nano (unix_nano t)) = unix_nano t" for t
    by (simp add: parsed_or_zero_def parse_format_rfc3339nano in_int64_civil_range)
  moreover have "unix_nano (unix_nano t) = unix_nano t" for t by simp
  ultimately show ?thesis
    unfolding window_key_string_def
    by (simp add: parse_window_key_def split_last2_join format_no_slash to_window_key_def)
qed

text \<open>
  C19. Window keys survive the trip through their string form: for every record key, slashes included,
  parsing the printed key gives back the key and both bounds; the keys of different windows or of
  different record keys never coincide.
\<close>

theorem window_key_roundtrip:
  "parse_window_key (window_key_string (to_window_key key win)) = to_window_key key win \<and>
   (window_key_string (to_window_key key win) = window_key_string (to_window_key key' win') \<longleftrightarrow>
     to_window_key key win = to_window_key key' win')"
  by (metis window_key_reparse)

section \<open>Buffered records\<close>

record record_json =
  jKey :: bytes
  jValue :: bytes
  jTimestamp :: int
  jOffset :: int
  jPartition :: int
  jSource :: string
  jHeaders :: "string \<rightharpoonup> bytes"

definition record_to_json :: "rec \<Rightarrow> record_json" where
  "record_to_json r = \<lparr>jKey = rKey r, jValue = rValue r, jTimestamp = unix_nano (rTimestamp r),
     jOffset = rOffset r, jPartition = rPartition r, jSource = rSource r, jHeaders = rHeaders r\<rparr>"

definition record_from_json :: "record_json \<Rightarrow> rec" where
  "record_from_json j = blank\<lparr>rKey := jKey j, rValue := jValue j, rTimestamp := jTimestamp j,
     rOffset := jOffset j, rPartition := jPartition j, rSource := jSource j, rHeaders := jHeaders j\<rparr>"

definition tag_with_window :: "rec \<Rightarrow> window \<Rightarrow> duration \<Rightarrow> rec" where
  "tag_with_window r win allowed =
     blank\<lparr>rKey := rKey r, rValue := rValue r, rTimestamp := rTimestamp r, rOffset := rOffset r,
       rHeaders :=
         (let h = (rHeaders r)(''window_start'' \<mapsto> format_rfc3339nano (wStart win),
                              ''window_end'' \<mapsto> format_rfc3339nano (wEnd win))
          in if 0 < allowed then h(''window_allowed_lateness_nanos'' \<mapsto> itoa allowed) else h)\<rparr>"

lemma record_json_roundtrip:
  assumes "in_int64 (rTimestamp r)" and "is_data r"
  shows "record_from_json (record_to_json r) = r\<lparr>rParsed := None, rCheckpointID := []\<rparr>"
  using assms by (simp add: record_from_json_def record_to_json_def blank_def is_marker_def)

lemma record_from_json_data [simp]: "is_data (record_from_json j)"
  by (simp add: record_from_json_def blank_def is_marker_def)

lemma tag_with_window_data [simp]: "is_data (tag_with_window r win l)"
  by (simp add: tag_with_window_def blank_def is_marker_def)

end
