(* ===== verification/State_Backend.thy ===== *)
theory State_Backend
  imports Prelude
begin

text \<open>
  Keyed operator state: the \<^verbatim>\<open>ValueState\<close> and \<^verbatim>\<open>ListState\<close> interfaces (\<^verbatim>\<open>state/state.go\<close>) as records of
  operations with a locale each for what they promise, and the in-memory backend
  (\<^verbatim>\<open>state/memory.go\<close>). \<^verbatim>\<open>SetKey\<close> is always followed by the operation it scopes, so an operation takes
  the key as an argument. The order in which \<^verbatim>\<open>Keys\<close> lists the keys is unspecified: the laws only
  speak of the set. Values and list entries are type parameters; slices are values, without aliasing.
\<close>

section \<open>Interfaces\<close>

record ('v, 's) value_ops =
  vGet :: "string \<Rightarrow> 's \<Rightarrow> 'v option"
  vSet :: "string \<Rightarrow> 'v \<Rightarrow> 's \<Rightarrow> 's"
  vClear :: "string \<Rightarrow> 's \<Rightarrow> 's"
  vKeys :: "'s \<Rightarrow> string list"
  vSnapshotAll :: "'s \<Rightarrow> (string \<times> 'v) list"
  vRestoreAll :: "(string \<times> 'v) list \<Rightarrow> 's \<Rightarrow> 's"

record ('v, 's) list_ops =
  lAppend :: "string \<Rightarrow> 'v \<Rightarrow> 's \<Rightarrow> 's"
  lGetAll :: "string \<Rightarrow> 's \<Rightarrow> 'v list"
  lClear :: "string \<Rightarrow> 's \<Rightarrow> 's"
  lKeys :: "'s \<Rightarrow> string list"

text \<open>
  The contract of a value namespace: every operation acts on the one map \<open>vGet\<close> shows, keeps the
  backend's invariant, and the listing operations enumerate exactly that map.
\<close>

locale value_state =
  fixes V :: "('v, 's) value_ops" and inv :: "'s \<Rightarrow> bool" and key_ok :: "string \<Rightarrow> bool"
  assumes inv_set: "inv s \<Longrightarrow> key_ok k \<Longrightarrow> inv (vSet V k v s)"
    and inv_clear: "inv s \<Longrightarrow> key_ok k \<Longrightarrow> inv (vClear V k s)"
    and inv_restore: "inv s \<Longrightarrow> \<forall>k \<in> fst ` set es. key_ok k \<Longrightarrow> inv (vRestoreAll V es s)"
    and get_set: "inv s \<Longrightarrow> key_ok k \<Longrightarrow> key_ok k' \<Longrightarrow>
      vGet V k' (vSet V k v s) = (if k' = k then Some v else vGet V k' s)"
    and get_clear: "inv s \<Longrightarrow> key_ok k \<Longrightarrow> key_ok k' \<Longrightarrow>
      vGet V k' (vClear V k s) = (if k' = k then None else vGet V k' s)"
    and get_restore: "inv s \<Longrightarrow> \<forall>k \<in> fst ` set es. key_ok k \<Longrightarrow> distinct (map fst es) \<Longrightarrow> key_ok k' \<Longrightarrow>
      vGet V k' (vRestoreAll V es s) = map_of es k'"
    and keys: "inv s \<Longrightarrow> distinct (vKeys V s) \<and> set (vKeys V s) = {k. key_ok k \<and> vGet V k s \<noteq> None}"
    and snapshot: "inv s \<Longrightarrow> distinct (map fst (vSnapshotAll V s)) \<and>
      (\<forall>k. key_ok k \<longrightarrow> map_of (vSnapshotAll V s) k = vGet V k s) \<and> (\<forall>k \<in> fst ` set (vSnapshotAll V s). key_ok k)"
begin

lemma restore_snapshot:
  assumes "inv s" and "inv t" and "key_ok k"
  shows "vGet V k (vRestoreAll V (vSnapshotAll V s) t) = vGet V k s"
  using snapshot [OF assms(1)] get_restore [OF assms(2)] assms(3) by simp

lemma get_clear_all:
  assumes "inv s" and "\<forall>k \<in> set ks. key_ok k" and "key_ok k"
  shows "vGet V k (fold (vClear V) ks s) = (if k \<in> set ks then None else vGet V k s)"
  using assms
proof (induction ks arbitrary: s)
  case (Cons k' ks)
  then show ?case using inv_clear [of s k'] by (simp add: get_clear)
qed simp

lemma inv_clear_all: "inv s \<Longrightarrow> \<forall>k \<in> set ks. key_ok k \<Longrightarrow> inv (fold (vClear V) ks s)"
  by (induction ks arbitrary: s) (simp_all add: inv_clear)

end

text \<open>The contract of a list namespace; \<open>fits\<close> says that the backend has room for one more entry.\<close>

locale list_state =
  fixes L :: "('v, 's) list_ops" and inv :: "'s \<Rightarrow> bool" and key_ok :: "string \<Rightarrow> bool"
    and fits :: "string \<Rightarrow> 's \<Rightarrow> bool"
  assumes inv_append: "inv s \<Longrightarrow> key_ok k \<Longrightarrow> fits k s \<Longrightarrow> inv (lAppend L k v s)"
    and inv_lclear: "inv s \<Longrightarrow> key_ok k \<Longrightarrow> inv (lClear L k s)"
    and all_append: "inv s \<Longrightarrow> key_ok k \<Longrightarrow> fits k s \<Longrightarrow> key_ok k' \<Longrightarrow>
      lGetAll L k' (lAppend L k v s) = (if k' = k then lGetAll L k s @ [v] else lGetAll L k' s)"
    and all_clear: "inv s \<Longrightarrow> key_ok k \<Longrightarrow> key_ok k' \<Longrightarrow>
      lGetAll L k' (lClear L k s) = (if k' = k then [] else lGetAll L k' s)"
    and lkeys: "inv s \<Longrightarrow> distinct (lKeys L s) \<and> set (lKeys L s) = {k. key_ok k \<and> lGetAll L k s \<noteq> []}"
begin

lemma all_clear_all:
  assumes "inv s" and "\<forall>k \<in> set ks. key_ok k" and "key_ok k"
  shows "inv (fold (lClear L) ks s) \<and>
    lGetAll L k (fold (lClear L) ks s) = (if k \<in> set ks then [] else lGetAll L k s)"
  using assms
proof (induction ks arbitrary: s)
  case (Cons k' ks)
  then show ?case using inv_lclear [of s k'] by (simp add: all_clear)
qed simp

end

text \<open>A backend whose lists never run out of room.\<close>

locale list_state_unbounded = list_state +
  assumes always_fits: "key_ok k \<Longrightarrow> fits k s"
begin

lemma append_all:
  assumes "inv s" and "key_ok k" and "key_ok k'"
  shows "inv (fold (lAppend L k) vs s) \<and>
    lGetAll L k' (fold (lAppend L k) vs s) = (if k' = k then lGetAll L k s @ vs else lGetAll L k' s)"
  using assms
proof (induction vs arbitrary: s)
  case (Cons v vs)
  then show ?case using inv_append [of s k v] by (simp add: all_append always_fits)
qed simp

end

section \<open>The in-memory backend\<close>

text \<open>A Go map is an association list with distinct keys.\<close>

record ('v, 'l) mem =
  mValue :: "(string \<times> (string \<times> 'v) list) list"
  mList :: "(string \<times> (string \<times> 'l list) list) list"

definition new_mem :: "('v, 'l) mem" where
  "new_mem = \<lparr>mValue = [], mList = []\<rparr>"

definition mem_value_state :: "string \<Rightarrow> ('v, 'l) mem \<Rightarrow> ('v, 'l) mem" where \<comment> \<open>opening a value namespace\<close>
  "mem_value_state name m =
     (if map_of (mValue m) name = None then m\<lparr>mValue := AList.update name [] (mValue m)\<rparr> else m)"

definition mem_list_state :: "string \<Rightarrow> ('v, 'l) mem \<Rightarrow> ('v, 'l) mem" where \<comment> \<open>opening a list namespace\<close>
  "mem_list_state name m =
     (if map_of (mList m) name = None then m\<lparr>mList := AList.update name [] (mList m)\<rparr> else m)"

definition mem_get :: "string \<Rightarrow> string \<Rightarrow> ('v, 'l) mem \<Rightarrow> 'v option" where
  "mem_get name key m = (case map_of (mValue m) name of None \<Rightarrow> None | Some data \<Rightarrow> map_of data key)"

definition mem_set :: "string \<Rightarrow> string \<Rightarrow> 'v \<Rightarrow> ('v, 'l) mem \<Rightarrow> ('v, 'l) mem" where
  "mem_set name key v m =
     (let data = (case map_of (mValue m) name of None \<Rightarrow> [] | Some d \<Rightarrow> d)
      in m\<lparr>mValue := AList.update name (AList.update key v data) (mValue m)\<rparr>)"

definition mem_clear :: "string \<Rightarrow> string \<Rightarrow> ('v, 'l) mem \<Rightarrow> ('v, 'l) mem" where
  "mem_clear name key m =
     (case map_of (mValue m) name of
        None \<Rightarrow> m
      | Some data \<Rightarrow> m\<lparr>mValue := AList.update name (AList.delete key data) (mValue m)\<rparr>)"

definition mem_keys :: "string \<Rightarrow> ('v, 'l) mem \<Rightarrow> string list" where
  "mem_keys name m = (case map_of (mValue m) name of None \<Rightarrow> [] | Some data \<Rightarrow> map fst data)"

definition mem_snapshot_all :: "string \<Rightarrow> ('v, 'l) mem \<Rightarrow> (string \<times> 'v) list" where
  "mem_snapshot_all name m = (case map_of (mValue m) name of None \<Rightarrow> [] | Some data \<Rightarrow> data)"

definition mem_restore_all :: "string \<Rightarrow> (string \<times> 'v) list \<Rightarrow> ('v, 'l) mem \<Rightarrow> ('v, 'l) mem" where
  "mem_restore_all name entries m =
     m\<lparr>mValue := AList.update name (fold (\<lambda>(k, v). AList.update k v) entries []) (mValue m)\<rparr>"

definition mem_append :: "string \<Rightarrow> string \<Rightarrow> 'l \<Rightarrow> ('v, 'l) mem \<Rightarrow> ('v, 'l) mem" where
  "mem_append name key v m =
     (let data = (case map_of (mList m) name of None \<Rightarrow> [] | Some d \<Rightarrow> d);
          old = (case map_of data key of None \<Rightarrow> [] | Some vs \<Rightarrow> vs)
      in m\<lparr>mList := AList.update name (AList.update key (old @ [v]) data) (mList m)\<rparr>)"

definition mem_get_all :: "string \<Rightarrow> string \<Rightarrow> ('v, 'l) mem \<Rightarrow> 'l list" where
  "mem_get_all name key m =
     (case map_of (mList m) name of
        None \<Rightarrow> []
      | Some data \<Rightarrow> (case map_of data key of None \<Rightarrow> [] | Some vs \<Rightarrow> vs))"

definition mem_list_clear :: "string \<Rightarrow> string \<Rightarrow> ('v, 'l) mem \<Rightarrow> ('v, 'l) mem" where
  "mem_list_clear name key m =
     (case map_of (mList m) name of
        None \<Rightarrow> m
      | Some data \<Rightarrow> m\<lparr>mList := AList.update name (AList.delete key data) (mList m)\<rparr>)"

definition mem_list_keys :: "string \<Rightarrow> ('v, 'l) mem \<Rightarrow> string list" where
  "mem_list_keys name m = (case map_of (mList m) name of None \<Rightarrow> [] | Some data \<Rightarrow> map fst data)"

definition mem_values :: "string \<Rightarrow> ('v, ('v, 'l) mem) value_ops" where
  "mem_values name = \<lparr>vGet = mem_get name, vSet = mem_set name, vClear = mem_clear name,
     vKeys = mem_keys name, vSnapshotAll = mem_snapshot_all name, vRestoreAll = mem_restore_all name\<rparr>"

definition mem_lists :: "string \<Rightarrow> ('l, ('v, 'l) mem) list_ops" where
  "mem_lists name = \<lparr>lAppend = mem_append name, lGetAll = mem_get_all name,
     lClear = mem_list_clear name, lKeys = mem_list_keys name\<rparr>"

text \<open>Maps have distinct keys and a stored list is never empty.\<close>

definition mem_inv :: "('v, 'l) mem \<Rightarrow> bool" where
  "mem_inv m \<longleftrightarrow> distinct (map fst (mValue m)) \<and> distinct (map fst (mList m)) \<and>
     (\<forall>(n, d) \<in> set (mValue m). distinct (map fst d)) \<and>
     (\<forall>(n, d) \<in> set (mList m). distinct (map fst d) \<and> (\<forall>(k, vs) \<in> set d. vs \<noteq> []))"

lemma mem_inv_value:
  assumes "mem_inv m" and "distinct (map fst d)"
  shows "mem_inv (m\<lparr>mValue := AList.update name d (mValue m)\<rparr>)"
  using assms by (auto simp: mem_inv_def distinct_update dest!: set_update_mem)

lemma mem_inv_list:
  assumes "mem_inv m" and "distinct (map fst d)" and "\<forall>(k, vs) \<in> set d. vs \<noteq> []"
  shows "mem_inv (m\<lparr>mList := AList.update name d (mList m)\<rparr>)"
  using assms by (auto simp: mem_inv_def distinct_update dest!: set_update_mem)

lemma mem_inv_data:
  assumes "mem_inv m"
  shows "map_of (mValue m) name = Some d \<Longrightarrow> distinct (map fst d)"
    and "map_of (mList m) name = Some e \<Longrightarrow> distinct (map fst e) \<and> (\<forall>(k, vs) \<in> set e. vs \<noteq> [])"
  using assms by (auto simp: mem_inv_def dest!: map_of_SomeD)

lemmas mem_value_defs = mem_values_def mem_get_def mem_set_def mem_clear_def mem_keys_def
  mem_snapshot_all_def mem_restore_all_def
lemmas mem_list_defs = mem_lists_def mem_append_def mem_get_all_def mem_list_clear_def mem_list_keys_def

interpretation mv: value_state "mem_values name" mem_inv "\<lambda>_. True" for name
proof
  fix s :: "('v, 'l) mem" and k k' v es
  assume inv: "mem_inv s"
  note data = mem_inv_data(1) [OF inv]
  show "mem_inv (vSet (mem_values name) k v s)"
    using inv data by (auto simp: mem_value_defs intro!: mem_inv_value distinct_update split: option.split)
  show "mem_inv (vClear (mem_values name) k s)"
    using inv data by (auto simp: mem_value_defs intro!: mem_inv_value distinct_delete split: option.split)
  show "mem_inv (vRestoreAll (mem_values name) es s)"
    using inv by (auto simp: mem_value_defs intro!: mem_inv_value distinct_fold_update)
  show "vGet (mem_values name) k' (vSet (mem_values name) k v s) =
      (if k' = k then Some v else vGet (mem_values name) k' s)"
    by (auto simp: mem_value_defs update_conv' split: option.split)
  show "vGet (mem_values name) k' (vClear (mem_values name) k s) =
      (if k' = k then None else vGet (mem_values name) k' s)"
    by (auto simp: mem_value_defs update_conv' delete_conv' split: option.split)
  show "distinct (map fst es) \<Longrightarrow> vGet (mem_values name) k' (vRestoreAll (mem_values name) es s) = map_of es k'"
    by (simp add: mem_value_defs update_conv' map_of_fold_update)
  show "distinct (vKeys (mem_values name) s) \<and>
      set (vKeys (mem_values name) s) = {k. True \<and> vGet (mem_values name) k s \<noteq> None}"
    using data
    by (cases "map_of (mValue s) name") (auto simp: mem_value_defs dom_map_of_conv_image_fst [symmetric])
  show "distinct (map fst (vSnapshotAll (mem_values name) s)) \<and>
      (\<forall>k. True \<longrightarrow> map_of (vSnapshotAll (mem_values name) s) k = vGet (mem_values name) k s) \<and>
      (\<forall>k \<in> fst ` set (vSnapshotAll (mem_values name) s). True)"
    using data by (auto simp: mem_value_defs split: option.split)
qed

interpretation ml: list_state_unbounded "mem_lists name" mem_inv "\<lambda>_. True" "\<lambda>_ _. True" for name
proof
  fix s :: "('v, 'l) mem" and k k' v
  assume inv: "mem_inv s"
  note data = mem_inv_data(2) [OF inv]
  have "set (AList.delete k d) \<subseteq> set d" for d :: "(string \<times> 'l list) list"
    by (induction d) auto
  then show "mem_inv (lClear (mem_lists name) k s)"
    using inv data by (fastforce simp: mem_list_defs intro!: mem_inv_list distinct_delete split: option.split)
  show "mem_inv (lAppend (mem_lists name) k v s)"
    using inv data
    by (fastforce simp: mem_list_defs intro!: mem_inv_list distinct_update dest!: set_update_mem split: option.split)
  show "lGetAll (mem_lists name) k' (lAppend (mem_lists name) k v s) =
      (if k' = k then lGetAll (mem_lists name) k s @ [v] else lGetAll (mem_lists name) k' s)"
    by (auto simp: mem_list_defs update_conv' split: option.split)
  show "lGetAll (mem_lists name) k' (lClear (mem_lists name) k s) =
      (if k' = k then [] else lGetAll (mem_lists name) k' s)"
    by (auto simp: mem_list_defs update_conv' delete_conv' split: option.split)
  show "distinct (lKeys (mem_lists name) s) \<and>
      set (lKeys (mem_lists name) s) = {k. True \<and> lGetAll (mem_lists name) k s \<noteq> []}"
  proof (cases "map_of (mList s) name")
    case (Some d)
    have "distinct (map fst d)" and ne: "\<And>k vs. map_of d k = Some vs \<Longrightarrow> vs \<noteq> []"
      using data [OF Some] by (auto dest: map_of_SomeD)
    moreover have "fst ` set d = {k. (case map_of d k of None \<Rightarrow> [] | Some vs \<Rightarrow> vs) \<noteq> []}"
      using ne by (auto simp: dom_map_of_conv_image_fst [symmetric] split: option.splits)
    ultimately show ?thesis using Some by (simp add: mem_list_defs)
  qed (simp add: mem_list_defs)
qed simp

section \<open>An operator's backend\<close>

text \<open>
  A stateful operator keeps a list namespace and a value namespace in one backend; the namespaces do
  not disturb each other.
\<close>

locale op_backend =
  list_state_unbounded L inv key_ok fits + value_state V inv vkey_ok
  for L :: "('l, 's) list_ops" and V :: "('v, 's) value_ops" and inv :: "'s \<Rightarrow> bool"
    and key_ok vkey_ok :: "string \<Rightarrow> bool" and fits :: "string \<Rightarrow> 's \<Rightarrow> bool" +
  assumes get_append: "inv s \<Longrightarrow> vGet V k (lAppend L k' x s) = vGet V k s"
    and get_lclear: "inv s \<Longrightarrow> vGet V k (lClear L k' s) = vGet V k s"
    and all_set: "inv s \<Longrightarrow> lGetAll L k (vSet V k' v s) = lGetAll L k s"
begin

lemma get_append_all: "inv s \<Longrightarrow> key_ok k' \<Longrightarrow> vGet V k (fold (lAppend L k') xs s) = vGet V k s"
  by (induction xs arbitrary: s) (simp_all add: get_append inv_append always_fits)

lemma get_lclear_all: "inv s \<Longrightarrow> \<forall>k' \<in> set ks. key_ok k' \<Longrightarrow> vGet V k (fold (lClear L) ks s) = vGet V k s"
  by (induction ks arbitrary: s) (simp_all add: get_lclear inv_lclear)

end

interpretation mb: op_backend "mem_lists ln" "mem_values vn" mem_inv "\<lambda>_. True" "\<lambda>_. True" "\<lambda>_ _. True" for ln vn
  by unfold_locales
    (simp_all add: mem_list_defs mem_value_defs Let_def split: option.split)

lemma new_mem_inv [simp]: "mem_inv new_mem"
  by (simp add: mem_inv_def new_mem_def)

lemma new_mem_empty [simp]:
  "lGetAll (mem_lists n) k new_mem = []" "vGet (mem_values n) k new_mem = None"
  "lKeys (mem_lists n) new_mem = []" "vKeys (mem_values n) new_mem = []"
  by (simp_all add: mem_list_defs mem_value_defs new_mem_def)

end
