(* ===== verification/Byte_Order.thy ===== *)
theory Byte_Order
  imports Prelude "HOL-Library.Char_ord" "HOL-Library.List_Lexorder" "HOL-Library.Sublist"
begin

text \<open>
  Byte strings in the order of an ordered key-value store: the upper bound of a prefix range
  (\<^verbatim>\<open>prefixUpperBound\<close> in \<^verbatim>\<open>state/pebble.go\<close>) and the big-endian encoding of sequence numbers, with
  the facts that make range scans work: a prefix range holds exactly the extensions of the prefix,
  and the encoding is order preserving.
\<close>

definition byte_max :: char where
  "byte_max = char_of (255 :: nat)"

definition byte_succ :: "char \<Rightarrow> char" where
  "byte_succ c = char_of (of_char c + 1 :: nat)"

text \<open>The loop runs from the last byte to the first; here on the reversed prefix.\<close>

fun bump_rev :: "bytes \<Rightarrow> bytes option" where
  "bump_rev [] = None"
| "bump_rev (c # cs) = (if c < byte_max then Some (byte_succ c # cs) else bump_rev cs)"

definition prefix_upper_bound :: "bytes \<Rightarrow> bytes" where
  "prefix_upper_bound p = (case bump_rev (rev p) of Some q \<Rightarrow> rev q | None \<Rightarrow> p @ [byte_max])"

section \<open>Prefix ranges\<close>

lemma char_le_max [simp]: "c \<le> byte_max"
proof -
  have "of_char c \<le> (255 :: nat)" using nat_of_char_less_256 [of c] by linarith
  then show ?thesis by (simp add: less_eq_char_def byte_max_def)
qed

lemma max_le_iff [simp]: "byte_max \<le> c \<longleftrightarrow> c = byte_max"
  using char_le_max [of c] by (auto dest: order.antisym)

lemma less_max_iff [simp]: "c < byte_max \<longleftrightarrow> c \<noteq> byte_max"
  using char_le_max [of c] by (auto simp: order_less_le)

lemma less_byte_succ:
  assumes "c < byte_max"
  shows "d < byte_succ c \<longleftrightarrow> d \<le> c"
proof -
  have "of_char c < (255 :: nat)"
    using assms by (simp add: less_char_def byte_max_def del: less_max_iff)
  then show ?thesis by (simp add: less_char_def less_eq_char_def byte_succ_def less_Suc_eq_le)
qed

lemma not_max_less [simp]: "\<not> byte_max < c"
  by (simp only: not_less char_le_max)

lemma max_run_le: "replicate n byte_max \<le> k \<longleftrightarrow> prefix (replicate n byte_max) k"
proof (induction n arbitrary: k)
  case (Suc n)
  show ?case
  proof (cases k)
    case (Cons a k')
    have "replicate (Suc n) byte_max \<le> a # k' \<longleftrightarrow> byte_max = a \<and> prefix (replicate n byte_max) k'"
      by (simp only: replicate_Suc Cons_le_Cons not_max_less Suc.IH simp_thms)
    with Cons show ?thesis by (simp only: replicate_Suc Cons_prefix_Cons)
  qed simp
qed simp

lemma prefix_range_aux:
  assumes "c < byte_max"
  shows "a @ c # replicate n byte_max \<le> k \<and> k < a @ [byte_succ c] \<longleftrightarrow> prefix (a @ c # replicate n byte_max) k"
proof (induction a arbitrary: k)
  case Nil
  show ?case
    using assms by (cases k) (auto simp: max_run_le less_byte_succ)
next
  case (Cons x a)
  show ?case
  proof (cases k)
    case (Cons y k')
    have "x < y \<Longrightarrow> \<not> y < x \<and> x \<noteq> y" by (simp add: order.strict_implies_not_eq order.asym)
    with Cons.IH [of k'] Cons show ?thesis
      by (auto simp only: append_Cons Cons_less_Cons Cons_le_Cons Cons_prefix_Cons)
  qed simp
qed

lemma bump_rev_Some:
  "bump_rev (rev p) = Some q \<Longrightarrow> \<exists>a c n. p = a @ c # replicate n byte_max \<and> c < byte_max \<and> rev q = a @ [byte_succ c]"
proof (induction p arbitrary: q rule: rev_induct)
  case (snoc x p)
  show ?case
  proof (cases "x < byte_max")
    case True
    with snoc.prems show ?thesis by (intro exI [of _ p] exI [of _ x] exI [of _ 0]) auto
  next
    case False
    then have x: "x = byte_max" by simp
    with snoc obtain a c n where "p = a @ c # replicate n byte_max" "c < byte_max" "rev q = a @ [byte_succ c]"
      by fastforce
    with x show ?thesis
      by (intro exI [of _ a] exI [of _ c] exI [of _ "Suc n"]) (simp add: replicate_append_same)
  qed
qed simp

lemma bump_rev_None: "bump_rev (rev p) = None \<longleftrightarrow> (\<forall>c \<in> set p. c = byte_max)"
  by (induction p rule: rev_induct) auto

lemma prefix_range:
  assumes "\<exists>c \<in> set p. c \<noteq> byte_max"
  shows "p \<le> k \<and> k < prefix_upper_bound p \<longleftrightarrow> prefix p k"
proof -
  obtain q where q: "bump_rev (rev p) = Some q" using assms bump_rev_None by (metis option.exhaust)
  with bump_rev_Some [OF q] prefix_range_aux show ?thesis
    unfolding prefix_upper_bound_def by fastforce
qed

section \<open>Big-endian numbers\<close>

fun be :: "nat \<Rightarrow> nat \<Rightarrow> bytes" where
  "be 0 n = []"
| "be (Suc k) n = char_of (n div 256 ^ k mod 256) # be k n"

definition be_val :: "bytes \<Rightarrow> nat" where
  "be_val bs = foldl (\<lambda>acc c. 256 * acc + of_char c) 0 bs"

lemma length_be [simp]: "length (be k n) = k"
  by (induction k) simp_all

lemma digit_of_mod:
  fixes b :: nat
  assumes "0 < b" and "j < k"
  shows "n mod b ^ k div b ^ j mod b = n div b ^ j mod b"
proof -
  obtain m where k: "k = j + Suc m" using assms(2) less_imp_Suc_add by auto
  have "n mod b ^ k = b ^ j * (n div b ^ j mod b ^ Suc m) + n mod b ^ j"
    unfolding k power_add by (rule mod_mult2_eq)
  then have "n mod b ^ k div b ^ j = n div b ^ j mod b ^ Suc m"
    using assms(1) by simp
  then show ?thesis by (simp add: mod_mod_cancel)
qed

lemma be_mod: "be k (n mod 256 ^ k) = be k n"
proof -
  have "be j (n mod 256 ^ k) = be j n" if "j \<le> k" for j
    using that by (induction j) (simp_all add: digit_of_mod)
  then show ?thesis by blast
qed

lemma less_div_mod:
  fixes a b p :: nat
  assumes "0 < p"
  shows "a < b \<longleftrightarrow> a div p < b div p \<or> a div p = b div p \<and> a mod p < b mod p"
proof -
  have "a < b" if "a div p < b div p"
    using that div_le_mono [of b a p] by (meson not_le)
  moreover have "a < b \<longleftrightarrow> a mod p < b mod p" if "a div p = b div p"
    using that mult_div_mod_eq [of p a] mult_div_mod_eq [of p b] by (metis nat_add_left_cancel_less)
  moreover have "a div p \<le> b div p" if "a < b"
    using that by (simp add: div_le_mono)
  ultimately show ?thesis by fastforce
qed

lemma char_of_less: "m < 256 \<Longrightarrow> n < 256 \<Longrightarrow> char_of m < (char_of n :: char) \<longleftrightarrow> m < (n :: nat)"
  by (simp add: less_char_def)

lemma char_of_inject: "m < 256 \<Longrightarrow> n < 256 \<Longrightarrow> char_of m = (char_of n :: char) \<longleftrightarrow> m = (n :: nat)"
  by (metis char_of_less less_irrefl linorder_less_linear)

lemma be_less: "a < 256 ^ k \<Longrightarrow> b < 256 ^ k \<Longrightarrow> be k a < be k b \<longleftrightarrow> a < b"
proof (induction k arbitrary: a b)
  case (Suc k)
  define p :: nat where "p = 256 ^ k"
  have p: "0 < p" by (simp add: p_def)
  have d: "a div p < 256" "b div p < 256"
    using Suc.prems by (simp_all add: p_def less_mult_imp_div_less)
  have IH: "be k a < be k b \<longleftrightarrow> a mod p < b mod p"
    using Suc.IH [of "a mod p" "b mod p"] p unfolding p_def by (simp add: be_mod)
  have "be (Suc k) n = char_of (n div p mod 256) # be k n" for n by (simp add: p_def)
  then show ?case
    using less_div_mod [OF p, of a b] d IH by (simp only: Cons_less_Cons mod_less char_of_less char_of_inject)
qed simp

lemma be_inject: "a < 256 ^ k \<Longrightarrow> b < 256 ^ k \<Longrightarrow> be k a = be k b \<longleftrightarrow> a = b"
  by (metis be_less less_irrefl linorder_less_linear)

lemma be_val_be: "n < 256 ^ k \<Longrightarrow> be_val (be k n) = n"
proof -
  have split: "n mod 256 ^ Suc k = 256 ^ k * (n div 256 ^ k mod 256) + n mod 256 ^ k" for k
    using mod_mult2_eq [of n "256 ^ k" 256] by (simp only: power_Suc2)
  have "foldl (\<lambda>acc c. 256 * acc + of_char c) acc (be k n) = acc * 256 ^ k + n mod 256 ^ k" for acc
  proof (induction k arbitrary: acc)
    case (Suc k)
    let ?d = "n div 256 ^ k mod 256"
    have "foldl (\<lambda>acc c. 256 * acc + of_char c) acc (be (Suc k) n) = (256 * acc + ?d) * 256 ^ k + n mod 256 ^ k"
      using Suc.IH by simp
    also have "\<dots> = acc * 256 ^ Suc k + (256 ^ k * ?d + n mod 256 ^ k)"
      by (simp only: power_Suc distrib_right distrib_left mult.commute mult.left_commute add.assoc)
    finally show ?case by (simp only: split)
  qed simp
  then show "n < 256 ^ k \<Longrightarrow> be_val (be k n) = n" by (simp add: be_val_def)
qed

end
