(* ===== verification/Go_JSON.thy ===== *)
theory Go_JSON
  imports Byte_Order
begin

text \<open>
  How \<^verbatim>\<open>encoding/json\<close> treats the keys of a \<^verbatim>\<open>map[string]T\<close>: a document is the list of entries in
  the order of the Go keys, every key is coerced to valid UTF-8 (each offending byte becomes the
  replacement character U+FFFD), and decoding into a map keeps the last entry of a repeated key. The
  checkpoints of the keyed operators are such documents.
\<close>

section \<open>UTF-8\<close>

definition byte_in :: "nat \<Rightarrow> nat \<Rightarrow> char \<Rightarrow> bool" where
  "byte_in lo hi c \<longleftrightarrow> lo \<le> of_char c \<and> of_char c \<le> hi"

abbreviation cont_byte :: "char \<Rightarrow> bool" where
  "cont_byte \<equiv> byte_in 0x80 0xBF"

text \<open>The width of the rune at the front of a byte string; 0 when the bytes are not a valid rune.\<close>

fun rune_width :: "bytes \<Rightarrow> nat" where
  "rune_width [] = 0"
| "rune_width (a # s) =
     (if byte_in 0 0x7F a then 1
      else case s of
        [] \<Rightarrow> 0
      | b # t \<Rightarrow>
          if byte_in 0xC2 0xDF a then (if cont_byte b then 2 else 0)
          else case t of
            [] \<Rightarrow> 0
          | c # u \<Rightarrow>
              if byte_in 0xE0 0xEF a then
                (if byte_in (if of_char a = (0xE0 :: nat) then 0xA0 else 0x80)
                      (if of_char a = (0xED :: nat) then 0x9F else 0xBF) b \<and> cont_byte c then 3 else 0)
              else case u of
                [] \<Rightarrow> 0
              | d # _ \<Rightarrow>
                  if byte_in 0xF0 0xF4 a \<and>
                    byte_in (if of_char a = (0xF0 :: nat) then 0x90 else 0x80)
                      (if of_char a = (0xF4 :: nat) then 0x8F else 0xBF) b \<and> cont_byte c \<and> cont_byte d
                  then 4 else 0)"

definition replacement :: bytes where
  "replacement = map char_of [0xEF, 0xBF, 0xBD :: nat]"

function coerce_utf8 :: "bytes \<Rightarrow> bytes" where
  "coerce_utf8 s =
     (if s = [] then []
      else if rune_width s = 0 then replacement @ coerce_utf8 (tl s)
      else take (rune_width s) s @ coerce_utf8 (drop (rune_width s) s))"
  by pat_completeness auto
termination
  by (relation "measure length") (auto simp: length_greater_0_conv)

function valid_utf8 :: "bytes \<Rightarrow> bool" where
  "valid_utf8 s =
     (if s = [] then True
      else if rune_width s = 0 then False
      else valid_utf8 (drop (rune_width s) s))"
  by pat_completeness auto
termination
  by (relation "measure length") (auto simp: length_greater_0_conv)

declare coerce_utf8.simps [simp del] valid_utf8.simps [simp del] rune_width.simps [simp del]

lemma coerce_valid: "valid_utf8 s \<Longrightarrow> coerce_utf8 s = s"
proof (induction s rule: coerce_utf8.induct)
  case (1 s)
  show ?case
  proof (cases "s = []")
    case False
    with 1(3) have "rune_width s \<noteq> 0" "valid_utf8 (drop (rune_width s) s)"
      using valid_utf8.simps [of s] by (auto split: if_splits)
    with 1(2) False show ?thesis by (simp add: coerce_utf8.simps [of s])
  qed (simp add: coerce_utf8.simps)
qed

lemma ascii_valid: "\<forall>c \<in> set s. byte_in 0 0x7F c \<Longrightarrow> valid_utf8 s"
proof (induction s)
  case (Cons c s)
  then have "rune_width (c # s) = 1" by (simp add: rune_width.simps)
  with Cons show ?case by (simp add: valid_utf8.simps [of "c # s"])
qed (simp add: valid_utf8.simps)

section \<open>Documents\<close>

text \<open>\<^verbatim>\<open>json.Marshal\<close> of a map (an association list with distinct keys), and \<^verbatim>\<open>json.Unmarshal\<close> into one.\<close>

definition marshal_map :: "(string \<times> 'a) list \<Rightarrow> (string \<times> 'a) list" where
  "marshal_map m = map (\<lambda>(k, v). (coerce_utf8 k, v)) (sort_key fst m)"

definition unmarshal_map :: "(string \<times> 'a) list \<Rightarrow> (string \<times> 'a) list" where
  "unmarshal_map doc = fold (\<lambda>(k, v). AList.update k v) doc []"

lemma marshal_map_valid:
  assumes "\<forall>k \<in> fst ` set m. valid_utf8 k"
  shows "marshal_map m = sort_key fst m"
  using assms by (force simp: marshal_map_def coerce_valid intro!: map_idI)

lemma map_roundtrip:
  assumes "distinct (map fst m)" and "\<forall>k \<in> fst ` set m. valid_utf8 k"
  shows "distinct (map fst (unmarshal_map (marshal_map m)))"
    and "map_of (unmarshal_map (marshal_map m)) = map_of m"
proof -
  let ?s = "sort_key fst m"
  have "mset (map fst ?s) = mset (map fst m)" by simp
  then have d: "distinct (map fst ?s)" using assms(1) mset_eq_imp_distinct_iff by blast
  then have "map_of ?s = map_of m"
    using assms(1) by (intro map_of_inject_set [THEN iffD2]) simp_all
  with d show "map_of (unmarshal_map (marshal_map m)) = map_of m"
    by (simp add: unmarshal_map_def marshal_map_valid [OF assms(2)] map_of_fold_update)
  show "distinct (map fst (unmarshal_map (marshal_map m)))"
    by (simp add: unmarshal_map_def distinct_fold_update)
qed

end
