(* ===== verification/Window_Op.thy ===== *)
theory Window_Op
  imports Window_Key State_Backend Byte_Order Go_JSON
begin

text \<open>
  The window operator (\<^verbatim>\<open>operator/window.go\<close>): event-time windows buffered in the operator's backend,
  fired when the watermark has passed their end plus the allowed lateness, with session merging, an
  optional reducer, late-record handling, the idle timeout and the JSON checkpoint. \<^verbatim>\<open>Process\<close> is a step
  function on events; the order in which \<^verbatim>\<open>Keys\<close> happened to list the open windows is part of an event.
  List entries are the decoded \<^verbatim>\<open>recordJSON\<close> values; source and header names are taken to be valid
  UTF-8, which \<^verbatim>\<open>encoding/json\<close> preserves.
\<close>

section \<open>Configuration and state\<close>

type_synonym reduce_fn = "bytes option \<Rightarrow> rec \<Rightarrow> bytes option" \<comment> \<open>\<^const>\<open>None\<close> is the nil slice\<close>

record window_cfg =
  woAssigner :: assigner
  woAllowed :: duration
  woReducer :: "reduce_fn option"
  woLateSink :: bool

record window_state =
  wsWin :: window
  wsRecords :: "record_json list"

record window_snapshot =
  snapWatermark :: int
  snapWindows :: "(string \<times> window_state) list" \<comment> \<open>the JSON object, in document order\<close>

record 's window_op =
  woBackend :: 's
  woWatermark :: gotime
  woLate :: "rec list" \<comment> \<open>written to the late sink\<close>
  woDropped :: nat \<comment> \<open>the \<^verbatim>\<open>dropped\<close> metric\<close>
  woSnapshots :: "(string \<times> window_snapshot) list" \<comment> \<open>handed to the barrier callback\<close>
  woStopped :: bool

definition bytes_of :: "bytes option \<Rightarrow> bytes" where
  "bytes_of b = (case b of None \<Rightarrow> [] | Some x \<Rightarrow> x)"

section \<open>The durable watermark\<close>

definition put_uint64 :: "int \<Rightarrow> bytes" where
  "put_uint64 n = be 8 (nat (n mod 2 ^ 64))"

definition get_int64 :: "bytes \<Rightarrow> int" where
  "get_int64 b = int64 (int (be_val b))"

definition load_watermark :: "(bytes, 's) value_ops \<Rightarrow> 's \<Rightarrow> gotime" where
  "load_watermark V s =
     (case vGet V ''wm'' s of
        Some b \<Rightarrow> if length b = 8 then get_int64 b else zero_time
      | None \<Rightarrow> zero_time)"

definition store_watermark :: "(bytes, 's) value_ops \<Rightarrow> gotime \<Rightarrow> 's \<Rightarrow> 's" where
  "store_watermark V wm s = vSet V ''wm'' (put_uint64 (unix_nano wm)) s"

section \<open>Firing\<close>

definition key_window :: "string \<Rightarrow> window" where
  "key_window k = \<lparr>wStart = wkStart (parse_window_key k), wEnd = wkEnd (parse_window_key k)\<rparr>"

definition reduce_step :: "reduce_fn \<Rightarrow> record_json \<Rightarrow> bytes option \<times> rec \<Rightarrow> bytes option \<times> rec" where
  "reduce_step f j acc = (let last = record_from_json j in (f (fst acc) last, last))"

definition reduce_entries :: "reduce_fn \<Rightarrow> record_json list \<Rightarrow> rec" where
  "reduce_entries f entries =
     (let (accum, last) = fold (reduce_step f) entries (None, blank)
      in blank\<lparr>rKey := rKey last, rValue := bytes_of accum, rTimestamp := rTimestamp last,
           rOffset := rOffset last, rHeaders := rHeaders last\<rparr>)"

definition fire_window ::
  "(record_json, 's) list_ops \<Rightarrow> window_cfg \<Rightarrow> string \<Rightarrow> 's \<Rightarrow> 's \<times> rec list" where
  "fire_window L cfg keyStr s =
     (let win = key_window keyStr; entries = lGetAll L keyStr s
      in (lClear L keyStr s,
          case woReducer cfg of
            Some f \<Rightarrow> if entries = [] then []
              else [tag_with_window (reduce_entries f entries) win (woAllowed cfg)]
          | None \<Rightarrow> map (\<lambda>j. tag_with_window (record_from_json j) win (woAllowed cfg)) entries))"

fun fire_windows ::
  "(record_json, 's) list_ops \<Rightarrow> window_cfg \<Rightarrow> string list \<Rightarrow> 's \<Rightarrow> 's \<times> rec list" where
  "fire_windows L cfg [] s = (s, [])"
| "fire_windows L cfg (k # ks) s =
     (let (s1, out1) = fire_window L cfg k s; (s2, out2) = fire_windows L cfg ks s1 in (s2, out1 @ out2))"

definition fire_at :: "window_cfg \<Rightarrow> string \<Rightarrow> gotime" where
  "fire_at cfg k = wEnd (key_window k) + woAllowed cfg"

definition handle_watermark ::
  "(record_json, 's) list_ops \<Rightarrow> (bytes, 's) value_ops \<Rightarrow> window_cfg \<Rightarrow> string list \<Rightarrow> rec \<Rightarrow> 's window_op \<Rightarrow>
   's window_op \<times> rec list" where
  "handle_watermark L V cfg ks wm op =
     (let op1 = (if woWatermark op < rTimestamp wm
                 then op\<lparr>woWatermark := rTimestamp wm, woBackend := store_watermark V (rTimestamp wm) (woBackend op)\<rparr>
                 else op);
          (s, out) = fire_windows L cfg (filter (\<lambda>k. \<not> woWatermark op1 < fire_at cfg k) ks) (woBackend op1)
      in (op1\<lparr>woBackend := s\<rparr>, out))"

definition flush_remaining ::
  "(record_json, 's) list_ops \<Rightarrow> window_cfg \<Rightarrow> string list \<Rightarrow> 's window_op \<Rightarrow> 's window_op \<times> rec list" where
  "flush_remaining L cfg ks op =
     (let (s, out) = fire_windows L cfg ks (woBackend op) in (op\<lparr>woBackend := s, woStopped := True\<rparr>, out))"

section \<open>Buffering\<close>

definition is_too_late :: "window_cfg \<Rightarrow> gotime \<Rightarrow> gotime \<Rightarrow> bool" where
  "is_too_late cfg wm ts \<longleftrightarrow> \<not> is_zero_time wm \<and> ts < wm - woAllowed cfg"

definition emit_late :: "window_cfg \<Rightarrow> rec \<Rightarrow> 's window_op \<Rightarrow> 's window_op" where
  "emit_late cfg r op =
     (if woLateSink cfg then
        op\<lparr>woLate := woLate op @ [with_header
          (with_header r ''_late_reason'' ''event time before current watermark minus allowed lateness'')
          ''_watermark'' (format_rfc3339nano (woWatermark op))]\<rparr>
      else op\<lparr>woDropped := woDropped op + 1\<rparr>)"

definition overlapping :: "string \<Rightarrow> window \<Rightarrow> string list \<Rightarrow> string list" where
  "overlapping key win ks =
     filter (\<lambda>e. wkKey (parse_window_key e) = key \<and>
       wStart win < wEnd (key_window e) \<and> wStart (key_window e) < wEnd win) ks"

definition assign_to_window ::
  "(record_json, 's) list_ops \<Rightarrow> window_cfg \<Rightarrow> string list \<Rightarrow> string \<Rightarrow> record_json \<Rightarrow> window \<Rightarrow> 's \<Rightarrow> 's" where
  "assign_to_window L cfg ks key j win s =
     (let toRemove = (if is_session (woAssigner cfg) then overlapping key win ks else []) in
      if toRemove \<noteq> [] then
        let newStart = fold (\<lambda>e a. min a (wStart (key_window e))) toRemove (wStart win);
            newEnd = fold (\<lambda>e a. max a (wEnd (key_window e))) toRemove (wEnd win);
            mergedRecords = concat (map (\<lambda>e. lGetAll L e s) toRemove);
            mergedStr = window_key_string (to_window_key key \<lparr>wStart = newStart, wEnd = newEnd\<rparr>)
        in lAppend L mergedStr j
             (fold (lAppend L mergedStr) mergedRecords (fold (lClear L) toRemove s))
      else lAppend L (window_key_string (to_window_key key win)) j s)"

definition handle_data_record ::
  "(record_json, 's) list_ops \<Rightarrow> window_cfg \<Rightarrow> string list \<Rightarrow> rec \<Rightarrow> 's \<Rightarrow> 's option" where
  "handle_data_record L cfg ks r s =
     (case assign_windows (woAssigner cfg) (rTimestamp r) of
        None \<Rightarrow> None
      | Some wins \<Rightarrow> Some (fold (assign_to_window L cfg ks (rKey r) (record_to_json r)) wins s))"

section \<open>Checkpoints\<close>

definition win_snapshot ::
  "(record_json, 's) list_ops \<Rightarrow> string list \<Rightarrow> 's window_op \<Rightarrow> window_snapshot" where
  "win_snapshot L ks op =
     \<lparr>snapWatermark = unix_nano (woWatermark op),
      snapWindows = marshal_map
        (map (\<lambda>k. (k, \<lparr>wsWin = key_window k, wsRecords = lGetAll L k (woBackend op)\<rparr>)) ks)\<rparr>"

definition restore_window ::
  "(record_json, 's) list_ops \<Rightarrow> string \<times> window_state \<Rightarrow> 's \<Rightarrow> 's" where
  "restore_window L kw s = fold (lAppend L (fst kw)) (wsRecords (snd kw)) s"

definition win_restore ::
  "(record_json, 's) list_ops \<Rightarrow> (bytes, 's) value_ops \<Rightarrow> string list \<Rightarrow> window_snapshot \<Rightarrow> 's window_op \<Rightarrow>
   's window_op" where
  "win_restore L V ks snap op =
     (let wm = snapWatermark snap;
          s1 = store_watermark V wm (woBackend op);
          s2 = fold (lClear L) ks s1
      in op\<lparr>woWatermark := wm,
           woBackend := fold (restore_window L) (unmarshal_map (snapWindows snap)) s2\<rparr>)"

section \<open>The processing loop\<close>

datatype window_event =
    Arrive rec "string list"
  | IdleFire "string list"
  | InputClosed "string list"

definition win_start :: "(bytes, 's) value_ops \<Rightarrow> 's \<Rightarrow> 's window_op" where
  "win_start V s = \<lparr>woBackend = s, woWatermark = load_watermark V s, woLate = [], woDropped = 0,
     woSnapshots = [], woStopped = False\<rparr>"

fun win_step ::
  "(record_json, 's) list_ops \<Rightarrow> (bytes, 's) value_ops \<Rightarrow> window_cfg \<Rightarrow> window_event \<Rightarrow> 's window_op \<Rightarrow>
   ('s window_op \<times> rec list) option" where
  "win_step L V cfg (Arrive r ks) op =
     (if isWatermark r then Some (handle_watermark L V cfg ks r op)
      else if isBarrier r then
        Some (op\<lparr>woSnapshots := woSnapshots op @ [(rCheckpointID r, win_snapshot L ks op)]\<rparr>, [r])
      else if is_too_late cfg (woWatermark op) (rTimestamp r) then Some (emit_late cfg r op, [])
      else case handle_data_record L cfg ks r (woBackend op) of
        None \<Rightarrow> None
      | Some s \<Rightarrow> Some (op\<lparr>woBackend := s\<rparr>, []))"
| "win_step L V cfg (IdleFire ks) op = Some (flush_remaining L cfg ks op)"
| "win_step L V cfg (InputClosed ks) op = Some (flush_remaining L cfg ks op)"

fun win_run ::
  "(record_json, 's) list_ops \<Rightarrow> (bytes, 's) value_ops \<Rightarrow> window_cfg \<Rightarrow> window_event list \<Rightarrow> 's window_op \<Rightarrow>
   ('s window_op \<times> rec list) option" where
  "win_run L V cfg [] op = Some (op, [])"
| "win_run L V cfg (ev # evs) op =
     (if woStopped op then Some (op, [])
      else case win_step L V cfg ev op of
        None \<Rightarrow> None
      | Some (op1, out1) \<Rightarrow>
          (case win_run L V cfg evs op1 of None \<Rightarrow> None | Some (op2, out2) \<Rightarrow> Some (op2, out1 @ out2)))"

text \<open>The key listing of an event is one the backend can return at that moment.\<close>

fun event_keys :: "window_event \<Rightarrow> string list" where
  "event_keys (Arrive r ks) = ks"
| "event_keys (IdleFire ks) = ks"
| "event_keys (InputClosed ks) = ks"

definition lists_keys :: "(record_json, 's) list_ops \<Rightarrow> 's \<Rightarrow> string list \<Rightarrow> bool" where
  "lists_keys L s ks \<longleftrightarrow> distinct ks \<and> set ks = set (lKeys L s)"

fun proper_run ::
  "(record_json, 's) list_ops \<Rightarrow> (bytes, 's) value_ops \<Rightarrow> window_cfg \<Rightarrow> window_event list \<Rightarrow> 's window_op \<Rightarrow> bool" where
  "proper_run L V cfg [] op \<longleftrightarrow> True"
| "proper_run L V cfg (ev # evs) op \<longleftrightarrow>
     woStopped op \<or>
     lists_keys L (woBackend op) (event_keys ev) \<and>
     (case win_step L V cfg ev op of None \<Rightarrow> True | Some (op1, out1) \<Rightarrow> proper_run L V cfg evs op1)"

lemma put_get_int64: "in_int64 n \<Longrightarrow> get_int64 (put_uint64 n) = n"
proof -
  assume n: "in_int64 n"
  have "nat (n mod 2 ^ 64) < 256 ^ 8" by (simp add: nat_less_iff)
  then have "be_val (put_uint64 n) = nat (n mod 2 ^ 64)" unfolding put_uint64_def by (rule be_val_be)
  then have "get_int64 (put_uint64 n) = int64 (n mod 2 ^ 64)" by (simp add: get_int64_def)
  also have "\<dots> = int64 n" by (simp add: int64_def mod_simps)
  finally show ?thesis using n by simp
qed

lemma length_put_uint64 [simp]: "length (put_uint64 n) = 8"
  by (simp add: put_uint64_def)

end
