(* ===== verification/Key_Routing.thy ===== *)
theory Key_Routing
  imports Records "HOL-Library.Word"
begin

text \<open>
  Key partitioning: the FNV-1a hash and \<^verbatim>\<open>RouteKey\<close> of the KeyBy operator (\<^verbatim>\<open>operator/keyby.go\<close>) and
  the router of a keyed stage (\<^verbatim>\<open>pipeline/keyed_stage.go\<close>), which sends each data record to one
  worker and broadcasts barriers and watermarks to all of them.
\<close>

unbundle bit_operations_syntax

definition fnvOffset32 :: "32 word" where
  "fnvOffset32 = 2166136261"

definition fnvPrime32 :: "32 word" where
  "fnvPrime32 = 16777619"

definition fnv_byte :: "char \<Rightarrow> 32 word \<Rightarrow> 32 word" where
  "fnv_byte b h = (h XOR of_char b) * fnvPrime32"

definition fnv1a :: "bytes \<Rightarrow> 32 word" where
  "fnv1a key = fold fnv_byte key fnvOffset32"

record key_by =
  kbSelector :: "rec \<Rightarrow> bytes"
  kbPartitions :: int

definition keyBy :: "(rec \<Rightarrow> bytes) \<Rightarrow> key_by" where
  "keyBy sel = \<lparr>kbSelector = sel, kbPartitions = 16\<rparr>"

definition with_partitions :: "key_by \<Rightarrow> int \<Rightarrow> key_by" where
  "with_partitions kb n = kb\<lparr>kbPartitions := n\<rparr>"

definition route_key :: "key_by \<Rightarrow> bytes \<Rightarrow> int" where
  "route_key kb key =
     (if key = [] \<or> kbPartitions kb \<le> 1 then 0 else uint (fnv1a key) mod kbPartitions kb)"

definition route :: "key_by \<Rightarrow> rec \<Rightarrow> int" where
  "route kb r = route_key kb (kbSelector kb r)"

section \<open>The router\<close>

text \<open>
  \<^verbatim>\<open>NewKeyedStage\<close> makes one worker per partition, so the router indexes a slice of length
  \<^verbatim>\<open>Partitions\<close>; an index out of range is a panic, the value \<^const>\<open>None\<close>. The argument and result are
  the records sent so far on each worker's input channel.
\<close>

definition router_send :: "key_by \<Rightarrow> rec \<Rightarrow> rec list list \<Rightarrow> rec list list option" where
  "router_send kb r chans =
     (if is_marker r then Some (map (\<lambda>ch. ch @ [r]) chans)
      else
        let key = kbSelector kb r; w = nat (route_key kb key) in
        if w < length chans then Some (chans[w := chans ! w @ [r\<lparr>rKey := key\<rparr>]]) else None)"

fun router :: "key_by \<Rightarrow> rec list \<Rightarrow> rec list list \<Rightarrow> rec list list option" where
  "router kb [] chans = Some chans"
| "router kb (r # rs) chans =
     (case router_send kb r chans of None \<Rightarrow> None | Some chans' \<Rightarrow> router kb rs chans')"

definition keyed_inputs :: "key_by \<Rightarrow> rec list \<Rightarrow> rec list list option" where
  "keyed_inputs kb rs = router kb rs (replicate (nat (kbPartitions kb)) [])"

section \<open>Bounds and the broadcast law\<close>

lemma route_key_bounds: "0 \<le> route_key kb key" "0 < kbPartitions kb \<Longrightarrow> route_key kb key < kbPartitions kb"
  by (simp_all add: route_key_def)

text \<open>What worker \<open>w\<close> sees of a stream: its own data records, re-keyed, and every marker.\<close>

definition worker_share :: "key_by \<Rightarrow> rec list \<Rightarrow> nat \<Rightarrow> rec list" where
  "worker_share kb rs w =
     map (\<lambda>r. if is_marker r then r else r\<lparr>rKey := kbSelector kb r\<rparr>)
       (filter (\<lambda>r. is_marker r \<or> nat (route kb r) = w) rs)"

lemma router_shares:
  assumes "0 < kbPartitions kb" and "length chans = nat (kbPartitions kb)"
  shows "router kb rs chans =
    Some (map (\<lambda>w. chans ! w @ worker_share kb rs w) [0..<length chans])"
  using assms(2)
proof (induction rs arbitrary: chans)
  case Nil
  then show ?case using map_nth [of chans] by (simp add: worker_share_def)
next
  case (Cons r rs)
  show ?case
  proof (cases "is_marker r")
    case True
    then show ?thesis
      using Cons.prems by (simp add: router_send_def Cons.IH worker_share_def)
  next
    case False
    let ?w = "nat (route_key kb (kbSelector kb r))"
    have "?w < length chans"
      using Cons.prems assms(1) route_key_bounds [of kb "kbSelector kb r"] by linarith
    with False Cons.prems show ?thesis
      by (auto simp: router_send_def Cons.IH worker_share_def route_def Let_def nth_list_update)
  qed
qed

lemma keyed_inputs_shares:
  assumes "0 < kbPartitions kb"
  shows "keyed_inputs kb rs = Some (map (worker_share kb rs) [0..<nat (kbPartitions kb)])"
  using router_shares [OF assms, of "replicate (nat (kbPartitions kb)) []" rs]
  by (auto simp: keyed_inputs_def)

text \<open>
  C18. The router never panics with a positive partition count, and worker \<open>w\<close> receives exactly the
  records whose selected key hashes to \<open>w\<close>, in order, together with every barrier and watermark at
  its place in the stream; so equal keys always meet on one worker, which is one of the stage's.
\<close>

theorem keyed_inputs_partition:
  assumes "0 < kbPartitions kb"
  shows "keyed_inputs kb rs = Some (map (worker_share kb rs) [0..<nat (kbPartitions kb)]) \<and>
    (\<forall>r. 0 \<le> route kb r \<and> route kb r < kbPartitions kb) \<and>
    (\<forall>r r'. kbSelector kb r = kbSelector kb r' \<longrightarrow> route kb r = route kb r')"
  using assms by (simp add: keyed_inputs_shares route_def route_key_bounds)

theorem keyed_inputs_partition_witness:
  "keyed_inputs (with_partitions (keyBy rKey) 2) [new_record 5 ''a'' ''x'', new_watermark 9, new_record 6 ''b'' ''y''] =
     Some (map (worker_share (with_partitions (keyBy rKey) 2) [new_record 5 ''a'' ''x'', new_watermark 9, new_record 6 ''b'' ''y''])
       [0..<2]) \<and>
   route (with_partitions (keyBy rKey) 2) (new_record 5 ''a'' ''x'') = route (with_partitions (keyBy rKey) 2) (new_record 6 ''a'' ''y'')"
  using keyed_inputs_partition [of "with_partitions (keyBy rKey) 2" "[new_record 5 ''a'' ''x'', new_watermark 9, new_record 6 ''b'' ''y'']"]
  by (simp add: keyBy_def with_partitions_def new_record_def)

lemma worker_share_markers: "filter is_marker (worker_share kb rs w) = filter is_marker rs"
  by (induction rs) (simp_all add: worker_share_def is_marker_def)

lemma fnv1a_vectors:
  "fnv1a [] = 0x811c9dc5" "fnv1a ''a'' = 0xe40c292c" "fnv1a ''foobar'' = 0xbf9cf968"
  by code_simp+

end
