(* ===== verification/Fallible.thy ===== *)
theory Fallible
  imports Prelude
begin

text \<open>
  Go code that reads and writes shared state and returns an \<^verbatim>\<open>error\<close>: an operation maps a state
  to an error text or a value, and the state it leaves behind, whether it failed or not. The second
  half of the theory is a small calculus of pre- and postconditions for such operations, in which
  the invariants of the control plane are proved.
\<close>

type_synonym ('s, 'a) op = "'s \<Rightarrow> (string + 'a) \<times> 's"

definition ret :: "'a \<Rightarrow> ('s, 'a) op" where
  "ret x s = (Inr x, s)"

definition fail :: "string \<Rightarrow> ('s, 'a) op" where
  "fail e s = (Inl e, s)"

definition andThen :: "('s, 'a) op \<Rightarrow> ('a \<Rightarrow> ('s, 'b) op) \<Rightarrow> ('s, 'b) op" where
  "andThen m f s = (case m s of (Inl e, t) \<Rightarrow> (Inl e, t) | (Inr x, t) \<Rightarrow> f x t)"

text \<open>\<^verbatim>\<open>fmt.Errorf("...: %w", err)\<close>: the error of the callee behind a prefix.\<close>

definition wrap :: "string \<Rightarrow> ('s, 'a) op \<Rightarrow> ('s, 'a) op" where
  "wrap p m s = (case m s of (Inl e, t) \<Rightarrow> (Inl (p @ e), t) | (Inr x, t) \<Rightarrow> (Inr x, t))"

text \<open>A caller that looks at the error itself gets it as a value.\<close>

definition attempt :: "('s, 'a) op \<Rightarrow> ('s, string + 'a) op" where
  "attempt m s = (case m s of (r, t) \<Rightarrow> (Inr r, t))"

definition gets :: "('s \<Rightarrow> 'a) \<Rightarrow> ('s, 'a) op" where
  "gets f s = (Inr (f s), s)"

definition modify :: "('s \<Rightarrow> 's) \<Rightarrow> ('s, unit) op" where
  "modify f s = (Inr (), f s)"

definition zoom :: "('s \<Rightarrow> 't) \<Rightarrow> ('t \<Rightarrow> 's \<Rightarrow> 's) \<Rightarrow> ('t, 'a) op \<Rightarrow> ('s, 'a) op" where
  "zoom get put m s = (case m (get s) of (r, t) \<Rightarrow> (r, put t s))"

fun for_each :: "('x \<Rightarrow> ('s, unit) op) \<Rightarrow> 'x list \<Rightarrow> ('s, unit) op" where
  "for_each f [] = ret ()"
| "for_each f (x # xs) = andThen (f x) (\<lambda>_. for_each f xs)"

definition unless_err :: "('s, 'a) op \<Rightarrow> ('s, unit) op" where \<comment> \<open>an error that is logged and dropped\<close>
  "unless_err m = andThen (attempt m) (\<lambda>_. ret ())"

lemmas op_defs = ret_def fail_def andThen_def wrap_def attempt_def gets_def modify_def zoom_def unless_err_def

section \<open>Triples\<close>

text \<open>
  \<open>triple P m Q E\<close>: started in a state with \<open>P\<close>, the operation ends with a value for which \<open>Q\<close> holds,
  or with an error in a state with \<open>E\<close>.
\<close>

definition triple :: "('s \<Rightarrow> bool) \<Rightarrow> ('s, 'a) op \<Rightarrow> ('a \<Rightarrow> 's \<Rightarrow> bool) \<Rightarrow> ('s \<Rightarrow> bool) \<Rightarrow> bool" where
  "triple P m Q E \<longleftrightarrow> (\<forall>s. P s \<longrightarrow> (case m s of (Inl _, t) \<Rightarrow> E t | (Inr x, t) \<Rightarrow> Q x t))"

abbreviation keeps :: "('s \<Rightarrow> bool) \<Rightarrow> ('s, 'a) op \<Rightarrow> bool" where
  "keeps I m \<equiv> triple I m (\<lambda>_. I) I"

named_theorems keeping \<open>triples of the operations\<close>

lemma tripleI:
  assumes "\<And>s e t. P s \<Longrightarrow> m s = (Inl e, t) \<Longrightarrow> E t" and "\<And>s x t. P s \<Longrightarrow> m s = (Inr x, t) \<Longrightarrow> Q x t"
  shows "triple P m Q E"
  using assms by (auto simp: triple_def split: prod.splits sum.splits)

lemma tripleD:
  assumes "triple P m Q E" and "P s"
  shows "m s = (Inl e, t) \<Longrightarrow> E t" and "m s = (Inr x, t) \<Longrightarrow> Q x t"
  using assms by (auto simp: triple_def dest!: spec [of _ s])

lemma keeps_run: "keeps I m \<Longrightarrow> I s \<Longrightarrow> I (snd (m s))"
  by (cases "m s"; cases "fst (m s)") (auto dest: tripleD)

lemma triple_weaken:
  assumes "triple P m Q E" and "\<And>s. P' s \<Longrightarrow> P s" and "\<And>x s. Q x s \<Longrightarrow> Q' x s" and "\<And>s. E s \<Longrightarrow> E' s"
  shows "triple P' m Q' E'"
  using assms unfolding triple_def by (fastforce split: prod.splits sum.splits)

lemma triple_pre: "triple P m Q E \<Longrightarrow> (\<And>s. P' s \<Longrightarrow> P s) \<Longrightarrow> triple P' m Q E"
  by (erule triple_weaken) auto

lemma triple_andThen:
  assumes "triple P m R E" and "\<And>x. triple (R x) (f x) Q E"
  shows "triple P (andThen m f) Q E"
  using assms unfolding triple_def andThen_def by (fastforce split: prod.splits sum.splits)

lemma triple_ret: "(\<And>s. P s \<Longrightarrow> Q x s) \<Longrightarrow> triple P (ret x) Q E"
  by (auto simp: triple_def ret_def)

lemma triple_fail: "(\<And>s. P s \<Longrightarrow> E s) \<Longrightarrow> triple P (fail e) Q E"
  by (auto simp: triple_def fail_def)

lemma triple_wrap: "triple P m Q E \<Longrightarrow> triple P (wrap p m) Q E"
  unfolding triple_def wrap_def by (fastforce split: prod.splits sum.splits)

lemma triple_attempt:
  "triple P m (\<lambda>x. Q (Inr x)) (\<lambda>s. \<forall>e. Q (Inl e) s) \<Longrightarrow> triple P (attempt m) Q E"
  unfolding triple_def attempt_def by (fastforce split: prod.splits sum.splits)

lemma triple_gets: "triple P (gets f) (\<lambda>x s. P s \<and> x = f s) E"
  by (simp add: triple_def gets_def)

lemma triple_modify: "(\<And>s. P s \<Longrightarrow> Q () (f s)) \<Longrightarrow> triple P (modify f) Q E"
  by (auto simp: triple_def modify_def)

lemma triple_zoom:
  assumes "\<And>s. triple (\<lambda>t. P s \<and> t = get s) m (\<lambda>x t. Q x (put t s)) (\<lambda>t. E (put t s))"
  shows "triple P (zoom get put m) Q E"
  using assms unfolding triple_def zoom_def by (fastforce split: prod.splits sum.splits)

lemma triple_false: "triple (\<lambda>_. False) m Q E"
  by (simp add: triple_def)

lemma triple_pure: "(p \<Longrightarrow> triple P m Q E) \<Longrightarrow> triple (\<lambda>s. P s \<and> p) m Q E"
  by (auto simp: triple_def)

lemma triple_if: "(b \<Longrightarrow> triple P m Q E) \<Longrightarrow> (\<not> b \<Longrightarrow> triple P n Q E) \<Longrightarrow> triple P (if b then m else n) Q E"
  by simp

lemma triple_case_sum:
  "(\<And>e. x = Inl e \<Longrightarrow> triple (P e) (f e) Q E) \<Longrightarrow> (\<And>y. x = Inr y \<Longrightarrow> triple (P' y) (h y) Q E) \<Longrightarrow>
   triple (case x of Inl e \<Rightarrow> P e | Inr y \<Rightarrow> P' y) (case x of Inl e \<Rightarrow> f e | Inr y \<Rightarrow> h y) Q E"
  by (simp split: sum.splits)

lemma triple_case_option:
  "(x = None \<Longrightarrow> triple P m Q E) \<Longrightarrow> (\<And>y. x = Some y \<Longrightarrow> triple (P' y) (f y) Q E) \<Longrightarrow>
   triple (case x of None \<Rightarrow> P | Some y \<Rightarrow> P' y) (case x of None \<Rightarrow> m | Some y \<Rightarrow> f y) Q E"
  by (simp split: option.splits)

lemma triple_sum:
  "(\<And>e. x = Inl e \<Longrightarrow> triple P (f e) Q E) \<Longrightarrow> (\<And>y. x = Inr y \<Longrightarrow> triple P (h y) Q E) \<Longrightarrow>
   triple P (case x of Inl e \<Rightarrow> f e | Inr y \<Rightarrow> h y) Q E"
  by (simp split: sum.splits)

lemma triple_option:
  "(x = None \<Longrightarrow> triple P m Q E) \<Longrightarrow> (\<And>y. x = Some y \<Longrightarrow> triple P (f y) Q E) \<Longrightarrow>
   triple P (case x of None \<Rightarrow> m | Some y \<Rightarrow> f y) Q E"
  by (simp split: option.splits)

section \<open>Invariants\<close>

lemma keeps_ret: "keeps I (ret x)" by (rule triple_ret)
lemma keeps_fail: "keeps I (fail e)" by (rule triple_fail)
lemma keeps_gets: "keeps I (gets f)" by (rule triple_weaken [OF triple_gets]) auto
lemma keeps_andThen: "keeps I m \<Longrightarrow> (\<And>x. keeps I (f x)) \<Longrightarrow> keeps I (andThen m f)" by (rule triple_andThen)
lemma keeps_wrap: "keeps I m \<Longrightarrow> keeps I (wrap p m)" by (rule triple_wrap)
lemma keeps_attempt: "keeps I m \<Longrightarrow> keeps I (attempt m)"
  by (rule triple_attempt) (erule triple_weaken; simp)

lemma keeps_unless_err: "keeps I m \<Longrightarrow> keeps I (unless_err m)"
  unfolding unless_err_def by (intro keeps_andThen keeps_attempt keeps_ret)

lemma keeps_for_each:
  assumes "\<And>x. x \<in> set xs \<Longrightarrow> keeps I (f x)"
  shows "keeps I (for_each f xs)"
  using assms by (induction xs) (auto intro!: keeps_ret keeps_andThen)

lemma keeps_if: "(b \<Longrightarrow> keeps I m) \<Longrightarrow> (\<not> b \<Longrightarrow> keeps I n) \<Longrightarrow> keeps I (if b then m else n)"
  by simp

lemma keeps_option:
  "(x = None \<Longrightarrow> keeps I m) \<Longrightarrow> (\<And>y. x = Some y \<Longrightarrow> keeps I (f y)) \<Longrightarrow>
   keeps I (case x of None \<Rightarrow> m | Some y \<Rightarrow> f y)"
  by (simp split: option.splits)

lemma keeps_sum:
  "(\<And>e. x = Inl e \<Longrightarrow> keeps I (f e)) \<Longrightarrow> (\<And>y. x = Inr y \<Longrightarrow> keeps I (g y)) \<Longrightarrow>
   keeps I (case x of Inl e \<Rightarrow> f e | Inr y \<Rightarrow> g y)"
  by (simp split: sum.splits)

lemmas keeps_rules = keeps_ret keeps_fail keeps_gets keeps_andThen keeps_wrap keeps_attempt keeps_unless_err
  keeps_for_each keeps_if keeps_option keeps_sum

end
