(* ===== verification/Checkpoint_Storage.thy ===== *)
theory Checkpoint_Storage
  imports Fallible Go_Time "HOL-Library.AList" "HOL-Library.Product_Lexorder"
begin

text \<open>
  Checkpoints on disk (\<^verbatim>\<open>checkpoint/checkpoint.go\<close>): one file per checkpoint, two pointer files, and
  a directory of native state per checkpoint. A file is replaced atomically; the write of a file
  fails before or after the replacement, as \<open>dFaults\<close> says, so a run with a fault leaves exactly the
  disk a crash at that point leaves. Reads of existing files succeed. A file that cannot be
  decoded is \<^const>\<open>None\<close>. The payloads of operators and source are type parameters.
\<close>

datatype ck_status = StatusPrepared | StatusCompleted | StatusNone

record ('v, 'o) ckpt =
  ckID :: string
  ckTimestamp :: gotime
  ckOperators :: "(string \<times> 'v) list"
  ckSource :: "(string \<times> 'o) list"
  ckStatus :: ck_status
  ckTxnID :: string
  ckStateDirs :: "(string \<times> string) list"

definition is_completed :: "('v, 'o) ckpt \<Rightarrow> bool" where
  "is_completed c \<longleftrightarrow> ckStatus c = StatusCompleted \<or> ckStatus c = StatusNone"

record ('v, 'o) disk =
  dMade :: bool \<comment> \<open>the directory exists\<close>
  dFiles :: "(string \<times> ('v, 'o) ckpt option) list" \<comment> \<open>\<^verbatim>\<open>checkpoint-<id>.json\<close> under \<^verbatim>\<open><id>\<close>\<close>
  dLatest :: "string option"
  dLatestCompleted :: "string option"
  dStateDirs :: "(string \<times> string) list" \<comment> \<open>\<^verbatim>\<open>checkpoint-<id>.state/<owner>\<close>\<close>
  dFaults :: "bool list"

definition empty_disk :: "('v, 'o) disk" where
  "empty_disk = \<lparr>dMade = False, dFiles = [], dLatest = None, dLatestCompleted = None, dStateDirs = [], dFaults = []\<rparr>"

record file_storage =
  fsRetain :: int
  fsStartupErr :: "string option"

definition DefaultRetainedCheckpoints :: int where "DefaultRetainedCheckpoints = 3"

section \<open>Files\<close>

definition io :: "(('v, 'o) disk, unit) op" where
  "io d = (case dFaults d of [] \<Rightarrow> (Inr (), d)
     | f # fs \<Rightarrow> (if f then Inl ''i/o error'' else Inr (), d\<lparr>dFaults := fs\<rparr>))"

definition write_file_sync :: "(('v, 'o) disk \<Rightarrow> ('v, 'o) disk) \<Rightarrow> (('v, 'o) disk, unit) op" where
  "write_file_sync replace = andThen io (\<lambda>_. andThen (modify replace) (\<lambda>_. io))"

definition put_ckpt :: "('v, 'o) ckpt \<Rightarrow> ('v, 'o) disk \<Rightarrow> ('v, 'o) disk" where
  "put_ckpt c d = d\<lparr>dFiles := AList.update (ckID c) (Some c) (dFiles d)\<rparr>"

definition load_specific_locked :: "string \<Rightarrow> (('v, 'o) disk, ('v, 'o) ckpt option) op" where
  "load_specific_locked i = andThen (gets (\<lambda>d. map_of (dFiles d) i)) (\<lambda>f. case f of
     None \<Rightarrow> ret None
   | Some None \<Rightarrow> fail ''checkpoint: unmarshal''
   | Some (Some c) \<Rightarrow> ret (Some c))"

section \<open>Scanning\<close>

text \<open>\<^verbatim>\<open>strconv.ParseInt(s, 10, 64)\<close>: its syntax, and its value.\<close>

definition signed_decimal :: "string \<Rightarrow> int option" where
  "signed_decimal s =
     (let (neg, ds) = (case s of [] \<Rightarrow> (False, [])
            | c # t \<Rightarrow> if c = CHR ''-'' then (True, t) else if c = CHR ''+'' then (False, t) else (False, s))
      in if ds = [] \<or> \<not> list_all is_digit ds then None
         else Some (if neg then - int (dec_val ds) else int (dec_val ds)))"

definition parse_int64 :: "string \<Rightarrow> int" where \<comment> \<open>the value, the error ignored: zero, or the nearest bound\<close>
  "parse_int64 s = (case signed_decimal s of None \<Rightarrow> 0 | Some n \<Rightarrow> max (- (2 ^ 63)) (min (2 ^ 63 - 1) n))"

definition checkpoint_sequence :: "string \<Rightarrow> int" where
  "checkpoint_sequence i = parse_int64 (rev (takeWhile (\<lambda>c. c \<noteq> CHR ''-'') (rev i)))"

definition readable :: "('v, 'o) disk \<Rightarrow> ('v, 'o) ckpt list" where
  "readable d = concat (map (\<lambda>(i, f). case f of None \<Rightarrow> [] | Some c \<Rightarrow> if ckID c = [] then [] else [c]) (dFiles d))"

definition scan :: "('v, 'o) disk \<Rightarrow> ('v, 'o) ckpt list" where
  "scan d = sort_key (\<lambda>c. (ckTimestamp c, checkpoint_sequence (ckID c))) (readable d)"

section \<open>Retention\<close>

definition victims :: "int \<Rightarrow> ('v, 'o) disk \<Rightarrow> ('v, 'o) ckpt list" where
  "victims retain d = (let completed = filter is_completed (scan d) in take (length completed - nat retain) completed)"

definition remove_ckpt :: "('v, 'o) ckpt \<Rightarrow> (('v, 'o) disk, unit) op" where
  "remove_ckpt c =
     andThen io (\<lambda>_. andThen (modify (\<lambda>d. d\<lparr>dFiles := AList.delete (ckID c) (dFiles d)\<rparr>)) (\<lambda>_.
     andThen io (\<lambda>_. modify (\<lambda>d. d\<lparr>dStateDirs := filter (\<lambda>(i, _). i \<noteq> ckID c) (dStateDirs d)\<rparr>))))"

definition enforce_retention :: "int \<Rightarrow> (('v, 'o) disk, unit) op" where
  "enforce_retention retain =
     (if retain < 1 then ret ()
      else andThen (gets (\<lambda>d. (scan d, victims retain d))) (\<lambda>(all, vs).
           andThen (for_each remove_ckpt vs) (\<lambda>_. if all \<noteq> [] then io else ret ())))"

section \<open>Saving\<close>

definition sync_state_dir :: "string \<Rightarrow> string \<Rightarrow> (('v, 'o) disk, unit) op" where
  "sync_state_dir i rel = andThen (gets (\<lambda>d. (i, rel) \<in> set (dStateDirs d)))
     (\<lambda>there. if there then io else fail (''checkpoint: sync state dir '' @ rel))"

definition save_locked :: "file_storage \<Rightarrow> ('v, 'o) ckpt \<Rightarrow> (('v, 'o) disk, unit) op" where
  "save_locked fs data0 =
     andThen io (\<lambda>_. andThen (modify (\<lambda>d. d\<lparr>dMade := True\<rparr>)) (\<lambda>_.
     let data = (if ckStatus data0 = StatusNone then data0\<lparr>ckStatus := StatusCompleted\<rparr> else data0)
     in andThen (for_each (\<lambda>(_, rel). sync_state_dir (ckID data) rel) (ckStateDirs data)) (\<lambda>_.
        andThen (write_file_sync (put_ckpt data)) (\<lambda>_.
        andThen (write_file_sync (\<lambda>d. d\<lparr>dLatest := Some (ckID data)\<rparr>)) (\<lambda>_.
        andThen (if ckStatus data = StatusCompleted
                 then write_file_sync (\<lambda>d. d\<lparr>dLatestCompleted := Some (ckID data)\<rparr>) else ret ()) (\<lambda>_.
        enforce_retention (fsRetain fs)))))))"

definition started :: "file_storage \<Rightarrow> (('v, 'o) disk, 'a) op \<Rightarrow> (('v, 'o) disk, 'a) op" where
  "started fs m = (case fsStartupErr fs of Some e \<Rightarrow> fail e | None \<Rightarrow> m)"

definition save :: "file_storage \<Rightarrow> ('v, 'o) ckpt \<Rightarrow> (('v, 'o) disk, unit) op" where
  "save fs data = started fs (save_locked fs data)"

definition update_status :: "file_storage \<Rightarrow> string \<Rightarrow> ck_status \<Rightarrow> (('v, 'o) disk, unit) op" where
  "update_status fs i st = started fs (andThen (load_specific_locked i) (\<lambda>f. case f of
       None \<Rightarrow> fail (''checkpoint: update status: '' @ i @ '' not found'')
     | Some data \<Rightarrow> save_locked fs (data\<lparr>ckStatus := st\<rparr>)))"

section \<open>Loading\<close>

datatype pointer = Latest | LatestCompleted

fun get_pointer :: "pointer \<Rightarrow> ('v, 'o) disk \<Rightarrow> string option" where
  "get_pointer Latest d = dLatest d"
| "get_pointer LatestCompleted d = dLatestCompleted d"

fun set_pointer :: "pointer \<Rightarrow> string \<Rightarrow> ('v, 'o) disk \<Rightarrow> ('v, 'o) disk" where
  "set_pointer Latest i d = d\<lparr>dLatest := Some i\<rparr>"
| "set_pointer LatestCompleted i d = d\<lparr>dLatestCompleted := Some i\<rparr>"

definition wanted :: "pointer \<Rightarrow> ('v, 'o) ckpt \<Rightarrow> bool" where
  "wanted p c \<longleftrightarrow> (p = LatestCompleted \<longrightarrow> is_completed c)"

definition load_pointer :: "pointer \<Rightarrow> (('v, 'o) disk, ('v, 'o) ckpt option) op" where
  "load_pointer p =
     andThen (gets (get_pointer p)) (\<lambda>i.
     andThen (case i of None \<Rightarrow> ret None
         | Some i \<Rightarrow> andThen (attempt (load_specific_locked i)) (\<lambda>f. ret (case f of
               Inr (Some c) \<Rightarrow> if wanted p c then Some c else None | _ \<Rightarrow> None)))
       (\<lambda>hit. case hit of
         Some c \<Rightarrow> ret (Some c)
       | None \<Rightarrow> andThen (gets scan) (\<lambda>cs. case find (wanted p) (rev cs) of
             None \<Rightarrow> ret None
           | Some c \<Rightarrow> andThen (write_file_sync (set_pointer p (ckID c))) (\<lambda>_. ret (Some c)))))"

definition load :: "file_storage \<Rightarrow> (('v, 'o) disk, ('v, 'o) ckpt option) op" where
  "load fs = started fs (load_pointer Latest)"

definition load_specific :: "file_storage \<Rightarrow> string \<Rightarrow> (('v, 'o) disk, ('v, 'o) ckpt option) op" where
  "load_specific fs i = started fs (load_specific_locked i)"

definition load_latest_completed :: "file_storage \<Rightarrow> (('v, 'o) disk, ('v, 'o) ckpt option) op" where
  "load_latest_completed fs = started fs (load_pointer LatestCompleted)"

section \<open>Opening\<close>

definition sweep_orphans :: "(('v, 'o) disk, unit) op" where
  "sweep_orphans = andThen (gets dMade) (\<lambda>made. if \<not> made then ret () else
     andThen (gets (\<lambda>d. filter (\<lambda>i. i \<notin> fst ` set (dFiles d)) (remdups (map fst (dStateDirs d))))) (\<lambda>orphans.
     andThen (for_each (\<lambda>i. andThen io (\<lambda>_. modify (\<lambda>d. d\<lparr>dStateDirs := filter (\<lambda>(j, _). j \<noteq> i) (dStateDirs d)\<rparr>))) orphans)
       (\<lambda>_. io)))"

definition maintain :: "int \<Rightarrow> (('v, 'o) disk, unit) op" where
  "maintain retain = andThen (gets dMade) (\<lambda>made. if \<not> made then ret () else
     andThen sweep_orphans (\<lambda>_. andThen (load_pointer Latest) (\<lambda>_. andThen (load_pointer LatestCompleted) (\<lambda>_.
     enforce_retention retain))))"

definition new_file_storage_with_options :: "int \<Rightarrow> (('v, 'o) disk, file_storage) op" where
  "new_file_storage_with_options retain =
     (if retain < 1 then fail ''checkpoint: retain completed must be at least 1''
      else andThen (maintain retain) (\<lambda>_. ret \<lparr>fsRetain = retain, fsStartupErr = None\<rparr>))"

definition new_file_storage :: "(('v, 'o) disk, file_storage) op" where
  "new_file_storage = andThen (attempt (new_file_storage_with_options DefaultRetainedCheckpoints)) (\<lambda>r. ret (case r of
     Inr fs \<Rightarrow> fs | Inl e \<Rightarrow> \<lparr>fsRetain = DefaultRetainedCheckpoints, fsStartupErr = Some e\<rparr>))"

definition delete_state_dirs :: "string \<Rightarrow> (('v, 'o) disk, unit) op" where
  "delete_state_dirs i = unless_err (andThen io (\<lambda>_. andThen (modify (\<lambda>d. d\<lparr>dStateDirs := filter (\<lambda>(j, _). j \<noteq> i) (dStateDirs d)\<rparr>)) (\<lambda>_. io)))"

end
