(* ===== verification/Reduce_Op.thy ===== *)
theory Reduce_Op
  imports Window_Op Key_Routing Checkpoint_Storage
begin

text \<open>
  The Reduce operator (\<^verbatim>\<open>operator/reduce.go\<close>): one accumulator per key, or per key and window when the
  records come from a Window; the eviction of closed windows; the JSON snapshot and its restore. Then
  a keyed stage of Reduce workers (\<^verbatim>\<open>pipeline/keyed_stage.go\<close>) with the snapshots that the engine
  collects from it and restores into it (\<^verbatim>\<open>collectSnapshots\<close>, \<^verbatim>\<open>restoreWorkersFromCheckpoint\<close> in
  \<^verbatim>\<open>engine.go\<close>). The memory backend hands out copies that are never nil, so a stored accumulator is a
  byte string and only an absent one is nil.
\<close>

section \<open>The operator\<close>

record 's reduce_op =
  roBackend :: 's
  roWindowFrontier :: gotime

definition new_reduce :: "'s \<Rightarrow> 's reduce_op" where
  "new_reduce s = \<lparr>roBackend = s, roWindowFrontier = zero_time\<rparr>"

definition window_allowed_lateness :: "rec \<Rightarrow> duration" where
  "window_allowed_lateness r =
     (case rHeaders r ''window_allowed_lateness_nanos'' of
        None \<Rightarrow> 0
      | Some raw \<Rightarrow> (case signed_decimal raw of
            None \<Rightarrow> 0
          | Some n \<Rightarrow> if \<not> in_int64 n \<or> n \<le> 0 then 0 else n))"

definition evict_closed_windows :: "('v, 's) value_ops \<Rightarrow> gotime \<Rightarrow> 's \<Rightarrow> 's" where
  "evict_closed_windows V frontier s =
     fold (vClear V)
       (filter (\<lambda>k. case state_key_window_end k of None \<Rightarrow> False | Some end \<Rightarrow> end < frontier) (vKeys V s)) s"

definition advance_window_frontier :: "('v, 's) value_ops \<Rightarrow> rec \<Rightarrow> 's reduce_op \<Rightarrow> 's reduce_op" where
  "advance_window_frontier V r op =
     (case rHeaders r ''window_end'' of
        None \<Rightarrow> op
      | Some raw \<Rightarrow> (case parse_rfc3339nano raw of
            None \<Rightarrow> op
          | Some end \<Rightarrow>
              let allowed = window_allowed_lateness r;
                  frontier = (if 0 < allowed then end - allowed + 1 else end - allowed)
              in if \<not> roWindowFrontier op < frontier then op
                 else \<lparr>roBackend = evict_closed_windows V frontier (roBackend op), roWindowFrontier = frontier\<rparr>))"

definition reduce_record :: "(bytes, 's) value_ops \<Rightarrow> reduce_fn \<Rightarrow> rec \<Rightarrow> 's reduce_op \<Rightarrow> 's reduce_op \<times> rec" where
  "reduce_record V f r op =
     (let sk = state_key r;
          newAccum = bytes_of (f (vGet V sk (roBackend op)) r)
      in (advance_window_frontier V r (op\<lparr>roBackend := vSet V sk newAccum (roBackend op)\<rparr>),
          blank\<lparr>rKey := rKey r, rValue := newAccum, rTimestamp := rTimestamp r, rOffset := rOffset r,
            rHeaders := rHeaders r\<rparr>))"

text \<open>\<^verbatim>\<open>Process\<close>; the snapshot that a barrier triggers is the caller's, who sees the state between records.\<close>

fun reduce_process :: "(bytes, 's) value_ops \<Rightarrow> reduce_fn \<Rightarrow> rec list \<Rightarrow> 's reduce_op \<Rightarrow> 's reduce_op \<times> rec list" where
  "reduce_process V f [] op = (op, [])"
| "reduce_process V f (r # rs) op =
     (let (op', o1) = (if is_marker r then (op, r) else reduce_record V f r op);
          (op'', out) = reduce_process V f rs op'
      in (op'', o1 # out))"

definition reduce_snapshot :: "('v, 's) value_ops \<Rightarrow> 's reduce_op \<Rightarrow> (string \<times> 'v) list" where
  "reduce_snapshot V op = marshal_map (vSnapshotAll V (roBackend op))"

definition reduce_restore :: "('v, 's) value_ops \<Rightarrow> (string \<times> 'v) list \<Rightarrow> 's reduce_op \<Rightarrow> 's reduce_op" where
  "reduce_restore V doc op = op\<lparr>roBackend := vRestoreAll V (unmarshal_map doc) (roBackend op)\<rparr>"

section \<open>A keyed stage of Reduce workers\<close>

text \<open>\<open>seq\<close> is some order in which the merge may emit what the workers send.\<close>

inductive interleaved :: "'a list list \<Rightarrow> 'a list \<Rightarrow> bool" where
  interleaved_Nil: "\<forall>ys \<in> set yss. ys = [] \<Longrightarrow> interleaved yss []"
| interleaved_Cons: "i < length yss \<Longrightarrow> yss ! i = y # ys \<Longrightarrow> interleaved (yss[i := ys]) zs \<Longrightarrow> interleaved yss (y # zs)"

definition keyed_workers :: "key_by \<Rightarrow> 's \<Rightarrow> 's reduce_op list" where
  "keyed_workers kb s0 = replicate (nat (kbPartitions kb)) (new_reduce s0)"

definition keyed_run :: "(bytes, 's) value_ops \<Rightarrow> reduce_fn \<Rightarrow> key_by \<Rightarrow> 's reduce_op list \<Rightarrow> rec list \<Rightarrow> rec list \<Rightarrow>
    's reduce_op list \<Rightarrow> bool" where
  "keyed_run V f kb ws rs out ws' \<longleftrightarrow>
     (case keyed_inputs kb rs of
        None \<Rightarrow> False
      | Some ins \<Rightarrow>
          length ws = length ins \<and>
          (let res = map2 (reduce_process V f) ins ws
           in ws' = map fst res \<and> interleaved (map (filter is_data \<circ> snd) res) out))"

type_synonym op_snapshot = "(string \<times> bytes) list option" \<comment> \<open>\<^const>\<open>None\<close> is the nil slice\<close>

definition worker_key :: "nat \<Rightarrow> string" where
  "worker_key i = ''worker-'' @ dec i"

text \<open>The KeyBy is operator 0 and has no state; operator 1 is the Reduce that the workers were cloned from, which never runs.\<close>

definition collect_snapshots :: "(bytes, 's) value_ops \<Rightarrow> 's \<Rightarrow> 's reduce_op list \<Rightarrow> (string \<times> op_snapshot) list" where
  "collect_snapshots V s0 ws =
     (''op-0'', None) # (''op-1'', Some (reduce_snapshot V (new_reduce s0))) #
     map (\<lambda>i. (worker_key i, Some (reduce_snapshot V (ws ! i)))) [0..<length ws]"

definition restore_operator_state :: "(bytes, 's) value_ops \<Rightarrow> (string \<times> op_snapshot) list \<Rightarrow> string \<Rightarrow> 's reduce_op \<Rightarrow> 's reduce_op" where
  "restore_operator_state V snaps key op =
     (case map_of snaps key of Some (Some doc) \<Rightarrow> reduce_restore V doc op | _ \<Rightarrow> op)"

definition restore_workers_from :: "(bytes, 's) value_ops \<Rightarrow> key_by \<Rightarrow> 's \<Rightarrow> (string \<times> op_snapshot) list \<Rightarrow> 's reduce_op list" where
  "restore_workers_from V kb s0 snaps =
     map (\<lambda>i. restore_operator_state V snaps (worker_key i) (new_reduce s0)) [0..<nat (kbPartitions kb)]"

section \<open>The reference\<close>

text \<open>What one key's records lead to: every record emits the new accumulator.\<close>

definition key_stream :: "key_by \<Rightarrow> bytes \<Rightarrow> rec list \<Rightarrow> rec list" where
  "key_stream kb k rs = map (\<lambda>r. r\<lparr>rKey := kbSelector kb r\<rparr>) (filter (\<lambda>r. is_data r \<and> kbSelector kb r = k) rs)"

fun running :: "reduce_fn \<Rightarrow> bytes option \<Rightarrow> rec list \<Rightarrow> rec list" where
  "running f acc [] = []"
| "running f acc (r # rs) =
     (let v = bytes_of (f acc r)
      in blank\<lparr>rKey := rKey r, rValue := v, rTimestamp := rTimestamp r, rOffset := rOffset r, rHeaders := rHeaders r\<rparr>
         # running f (Some v) rs)"

definition total :: "reduce_fn \<Rightarrow> bytes option \<Rightarrow> rec list \<Rightarrow> bytes option" where
  "total f acc rs = fold (\<lambda>r a. Some (bytes_of (f a r))) rs acc"

lemma running_append: "running f acc (rs @ rs') = running f acc rs @ running f (total f acc rs) rs'"
  by (induction rs arbitrary: acc) (simp_all add: total_def Let_def)

lemma total_append: "total f acc (rs @ rs') = total f (total f acc rs) rs'"
  by (simp add: total_def)

lemma total_Cons [simp]: "total f acc [] = acc" "total f acc (r # rs) = total f (Some (bytes_of (f acc r))) rs"
  by (simp_all add: total_def)

lemma interleaved_filter:
  assumes "interleaved yss zs" and "j < length yss" and "\<forall>i < length yss. i \<noteq> j \<longrightarrow> filter P (yss ! i) = []"
  shows "filter P zs = filter P (yss ! j)"
  using assms
proof (induction rule: interleaved.induct)
  case (interleaved_Cons i yss y ys zs)
  then have "\<forall>i' < length (yss[i := ys]). i' \<noteq> j \<longrightarrow> filter P (yss[i := ys] ! i') = []"
    by (auto simp: nth_list_update split: if_splits)
  then have IH: "filter P zs = filter P (yss[i := ys] ! j)" using interleaved_Cons by simp
  show ?case
  proof (cases "i = j")
    case False
    then have "\<not> P y" using interleaved_Cons.hyps(1,2) interleaved_Cons.prems(2) by (auto split: if_splits)
    then show ?thesis using IH False by simp
  qed (use IH interleaved_Cons.hyps interleaved_Cons.prems in simp)
qed (metis filter.simps(1) nth_mem)

lemma share_key:
  "filter (\<lambda>r. is_data r \<and> rKey r = k) (worker_share kb rs w) = (if nat (route_key kb k) = w then key_stream kb k rs else [])"
  by (induction rs) (auto simp: worker_share_def key_stream_def route_def is_marker_def)

section \<open>Behaviour\<close>

lemma worker_key_inj: "worker_key i = worker_key j \<longleftrightarrow> i = j"
  by (metis worker_key_def same_append_eq dec_val_dec)

lemma map_of_worker_keys:
  "map_of (map (\<lambda>i. (worker_key i, g i)) [0..<n]) (worker_key i) = (if i < n then Some (g i) else None)"
  by (induction n) (auto simp: map_add_def worker_key_inj less_Suc_eq)

lemma map_of_collect:
  assumes "i < length ws"
  shows "map_of (collect_snapshots V s0 ws) (worker_key i) = Some (Some (reduce_snapshot V (ws ! i)))"
proof -
  have "worker_key i \<noteq> ''op-0''" "worker_key i \<noteq> ''op-1''" by (simp_all add: worker_key_def)
  then show ?thesis using assms by (simp add: collect_snapshots_def map_of_worker_keys)
qed

lemma keyed_share:
  assumes "r \<in> set (worker_share kb rs w)" and "\<forall>r \<in> set rs. is_marker r \<or> P (r\<lparr>rKey := kbSelector kb r\<rparr>)"
  shows "is_marker r \<or> P r"
  using assms by (auto simp: worker_share_def split: if_splits)

text \<open>
  Two operators that cannot be told apart by records outside windows: same accumulators, no frontier.
  The keys of the second one survive JSON.
\<close>

definition reduce_alike :: "('v, 's) value_ops \<Rightarrow> ('s \<Rightarrow> bool) \<Rightarrow> 's reduce_op \<Rightarrow> 's reduce_op \<Rightarrow> bool" where
  "reduce_alike V ok p q \<longleftrightarrow> ok (roBackend p) \<and> ok (roBackend q) \<and>
     (\<forall>k. vGet V k (roBackend p) = vGet V k (roBackend q)) \<and>
     (\<forall>k. vGet V k (roBackend q) \<noteq> None \<longrightarrow> valid_utf8 k) \<and>
     roWindowFrontier p = zero_time \<and> roWindowFrontier q = zero_time"

definition unwindowed :: "rec \<Rightarrow> bool" where
  "unwindowed r \<longleftrightarrow> rHeaders r ''window_start'' = None \<and> rHeaders r ''window_end'' = None \<and> valid_utf8 (rKey r)"

lemma unwindowed_key [simp]: "unwindowed r \<Longrightarrow> state_key r = rKey r"
  by (simp add: unwindowed_def state_key_def)

locale reduce_stage = value_state V inv "\<lambda>_. True" for V :: "(bytes, 's) value_ops" and inv +
  fixes f :: reduce_fn and kb :: key_by and s0 :: 's
  assumes empty_inv: "inv s0" and empty_get: "vGet V k s0 = None"
    and partitions: "0 < kbPartitions kb"
begin

abbreviation alike where "alike \<equiv> reduce_alike V inv"

lemma alike_new: "alike (new_reduce s0) (new_reduce s0)"
  by (simp add: reduce_alike_def new_reduce_def empty_inv empty_get)

lemma alike_record:
  assumes "alike p q" and "unwindowed r"
  shows "snd (reduce_record V f r p) = snd (reduce_record V f r q)"
    and "alike (fst (reduce_record V f r p)) (fst (reduce_record V f r q))"
  using assms unfolding reduce_alike_def unwindowed_def
  by (simp_all add: reduce_record_def advance_window_frontier_def Let_def get_set inv_set state_key_def)

lemma alike_process:
  assumes "alike p q" and "\<forall>r \<in> set rs. is_marker r \<or> unwindowed r"
  shows "snd (reduce_process V f rs p) = snd (reduce_process V f rs q) \<and>
    alike (fst (reduce_process V f rs p)) (fst (reduce_process V f rs q))"
  using assms
proof (induction rs arbitrary: p q)
  case (Cons r rs)
  show ?case
  proof (cases "is_marker r")
    case True
    then show ?thesis using Cons by (simp add: case_prod_unfold Let_def)
  next
    case False
    then show ?thesis using Cons.IH [OF alike_record(2)] alike_record(1) Cons.prems by (simp add: case_prod_unfold Let_def)
  qed
qed simp

lemma alike_restore:
  assumes "alike p q"
  shows "alike p (reduce_restore V (reduce_snapshot V q) (new_reduce s0))"
proof -
  let ?m = "vSnapshotAll V (roBackend q)"
  have sn: "distinct (map fst ?m)" "\<And>k. map_of ?m k = vGet V k (roBackend q)"
    using snapshot [of "roBackend q"] assms by (simp_all add: reduce_alike_def)
  have "valid_utf8 k" if "k \<in> fst ` set ?m" for k
    using that sn(2) [of k] assms unfolding reduce_alike_def by (metis map_of_eq_None_iff)
  then have "distinct (map fst (unmarshal_map (marshal_map ?m)))" "map_of (unmarshal_map (marshal_map ?m)) = map_of ?m"
    using map_roundtrip [OF sn(1)] by simp_all
  then show ?thesis
    using assms sn(2) unfolding reduce_alike_def
    by (simp add: reduce_restore_def reduce_snapshot_def new_reduce_def get_restore inv_restore empty_inv)
qed

text \<open>One worker computes the reference for each of its keys.\<close>

lemma process_key:
  assumes "inv (roBackend op)" and "\<forall>r \<in> set rs. is_marker r \<or> unwindowed r"
  shows "inv (roBackend (fst (reduce_process V f rs op))) \<and>
    vGet V k (roBackend (fst (reduce_process V f rs op))) =
      total f (vGet V k (roBackend op)) (filter (\<lambda>r. is_data r \<and> rKey r = k) rs) \<and>
    filter (\<lambda>r. is_data r \<and> rKey r = k) (snd (reduce_process V f rs op)) =
      running f (vGet V k (roBackend op)) (filter (\<lambda>r. is_data r \<and> rKey r = k) rs)"
  using assms
proof (induction rs arbitrary: op)
  case (Cons r rs)
  show ?case
  proof (cases "is_marker r")
    case True
    then show ?thesis using Cons by (simp add: case_prod_unfold Let_def)
  next
    case False
    define op' where "op' = op\<lparr>roBackend := vSet V (rKey r) (bytes_of (f (vGet V (rKey r) (roBackend op)) r)) (roBackend op)\<rparr>"
    have u: "unwindowed r" using False Cons.prems by simp
    then have rec: "reduce_record V f r op = (op', blank\<lparr>rKey := rKey r, rValue := bytes_of (f (vGet V (rKey r) (roBackend op)) r),
        rTimestamp := rTimestamp r, rOffset := rOffset r, rHeaders := rHeaders r\<rparr>)"
      by (simp add: reduce_record_def op'_def advance_window_frontier_def Let_def) (simp add: unwindowed_def)
    have inv': "inv (roBackend op')" using Cons.prems(1) by (simp add: op'_def inv_set)
    have get': "vGet V k (roBackend op') = (if k = rKey r then Some (bytes_of (f (vGet V k (roBackend op)) r)) else vGet V k (roBackend op))"
      using Cons.prems(1) by (simp add: op'_def get_set)
    have "is_data (blank\<lparr>rKey := a, rValue := b, rTimestamp := c, rOffset := d, rHeaders := e\<rparr>)" for a b c d e
      by (simp add: is_marker_def blank_def)
    then show ?thesis using Cons.IH [OF inv'] Cons.prems(2) False get' by (auto simp: rec case_prod_unfold Let_def)
  qed
qed simp

text \<open>The accumulator of a key, on the worker that the key is routed to.\<close>

definition accum :: "'s reduce_op list \<Rightarrow> bytes \<Rightarrow> bytes option" where
  "accum ws k = vGet V k (roBackend (ws ! nat (route_key kb k)))"

definition stage_ok :: "'s reduce_op list \<Rightarrow> bool" where
  "stage_ok ws \<longleftrightarrow> length ws = nat (kbPartitions kb) \<and> (\<forall>w \<in> set ws. inv (roBackend w))"

lemma stage_ok_init: "stage_ok (keyed_workers kb s0)" and accum_init: "accum (keyed_workers kb s0) k = None"
  using partitions route_key_bounds [of kb k]
  by (simp_all add: stage_ok_def accum_def keyed_workers_def new_reduce_def empty_inv empty_get nat_less_iff)

lemma keyed_run_keys:
  assumes ok: "stage_ok ws" and plain: "\<forall>r \<in> set rs. is_marker r \<or> unwindowed (r\<lparr>rKey := kbSelector kb r\<rparr>)"
    and run: "keyed_run V f kb ws rs out ws'"
  shows "stage_ok ws' \<and> accum ws' k = total f (accum ws k) (key_stream kb k rs) \<and>
    filter (\<lambda>r. rKey r = k) out = running f (accum ws k) (key_stream kb k rs)"
proof -
  define n where "n = nat (kbPartitions kb)"
  define res where "res = map (\<lambda>i. reduce_process V f (worker_share kb rs i) (ws ! i)) [0..<n]"
  have len: "length ws = n" using ok by (simp add: stage_ok_def n_def)
  have j: "nat (route_key kb k) < n" using partitions route_key_bounds [of kb k] by (simp add: n_def nat_less_iff)
  have "map2 (reduce_process V f) (map (worker_share kb rs) [0..<n]) ws = res"
    by (rule nth_equalityI) (simp_all add: res_def len)
  then have w': "ws' = map fst res" and out: "interleaved (map (filter is_data \<circ> snd) res) out"
    using run unfolding keyed_run_def by (simp_all add: keyed_inputs_shares [OF partitions] n_def Let_def)
  have wk: "inv (roBackend (fst (res ! i))) \<and>
      vGet V k (roBackend (fst (res ! i))) = total f (vGet V k (roBackend (ws ! i))) (filter (\<lambda>r. is_data r \<and> rKey r = k) (worker_share kb rs i)) \<and>
      filter (\<lambda>r. is_data r \<and> rKey r = k) (snd (res ! i)) =
        running f (vGet V k (roBackend (ws ! i))) (filter (\<lambda>r. is_data r \<and> rKey r = k) (worker_share kb rs i))" if "i < n" for i
  proof -
    have "inv (roBackend (ws ! i))" using ok that len by (simp add: stage_ok_def)
    then show ?thesis using process_key keyed_share [OF _ plain] that by (simp add: res_def)
  qed
  have fk: "filter (\<lambda>r. rKey r = k) (filter is_data ys) = filter (\<lambda>r. is_data r \<and> rKey r = k) ys" for ys
    by simp
  have "filter (\<lambda>r. rKey r = k) out = filter (\<lambda>r. rKey r = k) (map (filter is_data \<circ> snd) res ! nat (route_key kb k))"
    by (rule interleaved_filter [OF out]) (use wk j in \<open>auto simp: res_def fk share_key\<close>)
  then show ?thesis using wk [OF j] wk j len
    by (auto simp: accum_def share_key w' stage_ok_def in_set_conv_nth res_def n_def fk)
qed

abbreviation stage_alike where "stage_alike ps qs \<equiv> length ps = nat (kbPartitions kb) \<and> list_all2 alike ps qs"

lemma stage_init: "stage_alike (keyed_workers kb s0) (keyed_workers kb s0)"
  by (simp add: keyed_workers_def alike_new list_all2_conv_all_nth)

lemma stage_restore:
  assumes "stage_alike ps qs"
  shows "stage_alike ps (restore_workers_from V kb s0 (collect_snapshots V s0 qs))"
  using assms
  by (auto simp: list_all2_conv_all_nth restore_workers_from_def restore_operator_state_def map_of_collect intro: alike_restore)

lemma stage_run:
  assumes "stage_alike ps qs" and "\<forall>r \<in> set rs. is_marker r \<or> unwindowed (r\<lparr>rKey := kbSelector kb r\<rparr>)"
    and run: "keyed_run V f kb qs rs out qs'"
  shows "\<exists>ps'. keyed_run V f kb ps rs out ps' \<and> stage_alike ps' qs'"
proof -
  define ins where "ins = map (worker_share kb rs) [0..<nat (kbPartitions kb)]"
  have ki: "keyed_inputs kb rs = Some ins" unfolding ins_def by (rule keyed_inputs_shares [OF partitions])
  have len: "length ps = length ins" "length qs = length ins" using assms(1) by (auto simp: ins_def dest: list_all2_lengthD)
  have "snd (reduce_process V f (ins ! i) (ps ! i)) = snd (reduce_process V f (ins ! i) (qs ! i)) \<and>
      alike (fst (reduce_process V f (ins ! i) (ps ! i))) (fst (reduce_process V f (ins ! i) (qs ! i)))" if "i < length ins" for i
    by (rule alike_process) (use assms(1) that keyed_share [OF _ assms(2)] len in \<open>auto simp: list_all2_conv_all_nth ins_def\<close>)
  then have "map (filter is_data \<circ> snd) (map2 (reduce_process V f) ins ps) = map (filter is_data \<circ> snd) (map2 (reduce_process V f) ins qs)"
    "list_all2 alike (map fst (map2 (reduce_process V f) ins ps)) (map fst (map2 (reduce_process V f) ins qs))"
    using len by (auto intro!: nth_equalityI simp: list_all2_conv_all_nth)
  then show ?thesis using run len by (auto simp: keyed_run_def ki Let_def ins_def)
qed

end

definition keyed_by :: "(rec \<Rightarrow> bytes) \<Rightarrow> nat \<Rightarrow> key_by" where \<comment> \<open>\<open>n + 1\<close> workers\<close>
  "keyed_by sel n = with_partitions (keyBy sel) (int (Suc n))"

lemma keyed_by_fields [simp]: "kbPartitions (keyed_by sel n) = int (Suc n)" "kbSelector (keyed_by sel n) = sel"
  by (simp_all add: keyed_by_def with_partitions_def keyBy_def)

interpretation mem_reduce: reduce_stage "mem_values ns" mem_inv f "keyed_by sel n" new_mem for ns f sel n
  by unfold_locales simp_all

section \<open>The order in which a keyed stage emits\<close>

lemma interleaved_concat: "interleaved (replicate n [] @ yss) (concat yss)"
proof (induction yss arbitrary: n)
  case Nil
  then show ?case by (simp add: interleaved_Nil)
next
  case (Cons ys yss)
  show ?case
  proof (induction ys)
    case Nil
    then show ?case using Cons.IH [of "Suc n"] by (simp add: replicate_append_same [symmetric])
  next
    case (Cons y ys)
    then show ?case by (auto intro: interleaved_Cons [of n _ y ys] simp: nth_append list_update_append)
  qed
qed

definition keyed_next :: "(bytes, 's) value_ops \<Rightarrow> reduce_fn \<Rightarrow> key_by \<Rightarrow> 's reduce_op list \<Rightarrow> rec list \<Rightarrow>
    (rec list \<times> 's reduce_op list) option" where
  "keyed_next V f kb ws rs =
     (case keyed_inputs kb rs of
        None \<Rightarrow> None
      | Some ins \<Rightarrow>
          let res = map2 (reduce_process V f) ins ws
          in if length ws = length ins then Some (concat (map (filter is_data \<circ> snd) res), map fst res) else None)"

lemma keyed_next_run: "keyed_next V f kb ws rs = Some (out, ws') \<Longrightarrow> keyed_run V f kb ws rs out ws'"
  using interleaved_concat [of 0] by (auto simp: keyed_run_def keyed_next_def Let_def split: option.splits if_splits)

text \<open>
  C12. The partition-parallel Reduce equals the sequential one, key by key: on records outside windows, with keys that are valid
  UTF-8, the keyed stage can process any input, and whatever the number of workers and however
  their outputs interleave, the records emitted for a key are the successive accumulators of exactly that
  key's records, in input order.
\<close>

theorem keyed_reduce_equivalence:
  assumes "\<forall>r \<in> set rs. is_marker r \<or> unwindowed (r\<lparr>rKey := sel r\<rparr>)"
  shows "(\<exists>out ws. keyed_run (mem_values ns) f (keyed_by sel n) (keyed_workers (keyed_by sel n) (new_mem :: (bytes, bytes) mem)) rs out ws) \<and>
    (\<forall>out ws. keyed_run (mem_values ns) f (keyed_by sel n) (keyed_workers (keyed_by sel n) (new_mem :: (bytes, bytes) mem)) rs out ws \<longrightarrow>
       (\<forall>key. filter (\<lambda>r. rKey r = key) out = running f None (key_stream (keyed_by sel n) key rs)))"
proof (intro conjI allI impI)
  have "keyed_next (mem_values ns) f (keyed_by sel n) (keyed_workers (keyed_by sel n) (new_mem :: (bytes, bytes) mem)) rs \<noteq> None"
    by (simp add: keyed_next_def keyed_inputs_shares keyed_workers_def Let_def del: of_nat_Suc)
  then show "\<exists>out ws. keyed_run (mem_values ns) f (keyed_by sel n) (keyed_workers (keyed_by sel n) (new_mem :: (bytes, bytes) mem)) rs out ws"
    using keyed_next_run by fastforce
next
  fix out ws key
  assume run: "keyed_run (mem_values ns) f (keyed_by sel n) (keyed_workers (keyed_by sel n) (new_mem :: (bytes, bytes) mem)) rs out ws"
  have "\<forall>r \<in> set rs. is_marker r \<or> unwindowed (r\<lparr>rKey := kbSelector (keyed_by sel n) r\<rparr>)" using assms by simp
  from mem_reduce.keyed_run_keys [OF mem_reduce.stage_ok_init this run, of key]
  show "filter (\<lambda>r. rKey r = key) out = running f None (key_stream (keyed_by sel n) key rs)"
    by (simp add: mem_reduce.accum_init)
qed

definition reduce_demo :: "rec list" where
  "reduce_demo = [new_record 1 ''a'' ''x'', new_watermark 2, new_record 3 ''b'' ''y'', new_record 4 ''a'' ''z'']"

theorem keyed_reduce_equivalence_witness:
  "\<exists>out ws. keyed_run (mem_values ''reduce'') (\<lambda>acc r. Some (bytes_of acc @ rValue r)) (keyed_by rKey 1)
     (keyed_workers (keyed_by rKey 1) (new_mem :: (bytes, bytes) mem)) reduce_demo out ws \<and>
     map rValue (filter (\<lambda>r. rKey r = ''a'') out) = [''x'', ''xz''] \<and> map rValue (filter (\<lambda>r. rKey r = ''b'') out) = [''y'']"
proof -
  have "valid_utf8 ''a''" "valid_utf8 ''b''" by (rule ascii_valid; simp add: byte_in_def)+
  then have plain: "\<forall>r \<in> set reduce_demo. is_marker r \<or> unwindowed (r\<lparr>rKey := rKey r\<rparr>)"
    by (simp add: reduce_demo_def unwindowed_def new_record_def blank_def)
  have "map rValue (running (\<lambda>acc r. Some (bytes_of acc @ rValue r)) None (key_stream (keyed_by rKey 1) ''a'' reduce_demo)) = [''x'', ''xz'']"
    "map rValue (running (\<lambda>acc r. Some (bytes_of acc @ rValue r)) None (key_stream (keyed_by rKey 1) ''b'' reduce_demo)) = [''y'']"
    by (simp_all add: key_stream_def reduce_demo_def new_record_def blank_def is_marker_def new_watermark_def bytes_of_def Let_def)
  then show ?thesis
    using keyed_reduce_equivalence [OF plain, of "''reduce''" "\<lambda>acc r. Some (bytes_of acc @ rValue r)" 1] by metis
qed

end
