(* ===== verification/Aligned_Merge.thy ===== *)
theory Aligned_Merge
  imports Key_Routing "HOL-Library.Sublist"
begin

text \<open>
  The aligned merge of a keyed stage (\<^verbatim>\<open>alignedMerge\<close> in \<^verbatim>\<open>pipeline/markers.go\<close>): one forwarder per
  worker feeds a shared bounded channel and parks after a marker; the collector counts marker copies,
  emits a marker when the last copy has arrived and then wakes the forwarders one after the other.
  The goroutines are an interleaving step relation. A record carries the index of its worker, which
  the code never looks at. Cancellation of the hard context, which makes the collector return at
  some point of such a run, is not a step.
\<close>

definition internalBuf :: nat where
  "internalBuf = 256"

record merge =
  mIn :: "rec list list" \<comment> \<open>what each worker output channel still delivers before it is closed\<close>
  mParked :: "bool list" \<comment> \<open>the forwarder waits on its resume channel\<close>
  mResume :: "bool list" \<comment> \<open>a token lies in the resume channel (capacity one)\<close>
  mFan :: "(nat \<times> rec) list" \<comment> \<open>the fan-in channel, oldest first\<close>
  mArrived :: nat
  mWaking :: "nat option" \<comment> \<open>the collector's loop over the resume channels; \<^const>\<open>None\<close>: receiving\<close>
  mOut :: "(nat \<times> rec) list"

definition merge_start :: "rec list list \<Rightarrow> merge" where
  "merge_start ins = \<lparr>mIn = ins, mParked = replicate (length ins) False,
     mResume = replicate (length ins) False, mFan = [], mArrived = 0, mWaking = None, mOut = []\<rparr>"

inductive merge_step :: "merge \<Rightarrow> merge \<Rightarrow> bool" where
  forward: "\<lbrakk>w < length (mIn s); \<not> mParked s ! w; mIn s ! w = r # rs; length (mFan s) < internalBuf\<rbrakk>
    \<Longrightarrow> merge_step s (s\<lparr>mIn := (mIn s)[w := rs], mFan := mFan s @ [(w, r)],
          mParked := (mParked s)[w := is_marker r]\<rparr>)"
| unpark: "\<lbrakk>w < length (mIn s); mParked s ! w; mResume s ! w\<rbrakk>
    \<Longrightarrow> merge_step s (s\<lparr>mParked := (mParked s)[w := False], mResume := (mResume s)[w := False]\<rparr>)"
| data: "\<lbrakk>mWaking s = None; mFan s = (w, r) # fs; is_data r\<rbrakk>
    \<Longrightarrow> merge_step s (s\<lparr>mFan := fs, mOut := mOut s @ [(w, r)]\<rparr>)"
| hold: "\<lbrakk>mWaking s = None; mFan s = (w, r) # fs; is_marker r; mArrived s + 1 < length (mIn s)\<rbrakk>
    \<Longrightarrow> merge_step s (s\<lparr>mFan := fs, mArrived := mArrived s + 1\<rparr>)"
| emit: "\<lbrakk>mWaking s = None; mFan s = (w, r) # fs; is_marker r; \<not> mArrived s + 1 < length (mIn s)\<rbrakk>
    \<Longrightarrow> merge_step s (s\<lparr>mFan := fs, mArrived := 0, mOut := mOut s @ [(w, r)], mWaking := Some 0\<rparr>)"
| wake: "\<lbrakk>mWaking s = Some i; i < length (mIn s); \<not> mResume s ! i\<rbrakk>
    \<Longrightarrow> merge_step s (s\<lparr>mResume := (mResume s)[i := True], mWaking := Some (i + 1)\<rparr>)"
| woken: "\<lbrakk>mWaking s = Some i; \<not> i < length (mIn s)\<rbrakk>
    \<Longrightarrow> merge_step s (s\<lparr>mWaking := None\<rparr>)"

inductive_cases merge_stepE: "merge_step s s'"

abbreviation merge_reach :: "rec list list \<Rightarrow> merge \<Rightarrow> bool" where
  "merge_reach ins s \<equiv> merge_step\<^sup>*\<^sup>* (merge_start ins) s"

text \<open>The output as worker \<open>w\<close> accounts for it: its own data records and every marker.\<close>

definition view :: "nat \<Rightarrow> (nat \<times> rec) list \<Rightarrow> rec list" where
  "view w out = map snd (filter (\<lambda>(v, r). v = w \<or> is_marker r) out)"

definition from_worker :: "nat \<Rightarrow> (nat \<times> rec) list \<Rightarrow> rec list" where
  "from_worker w fs = map snd (filter (\<lambda>(v, r). v = w) fs)"

lemma view_simps [simp]:
  "view w [] = []"
  "view w (xs @ ys) = view w xs @ view w ys"
  "view w [(v, r)] = (if v = w \<or> is_marker r then [r] else [])"
  by (simp_all add: view_def)

lemma from_worker_simps [simp]:
  "from_worker w [] = []"
  "from_worker w (xs @ ys) = from_worker w xs @ from_worker w ys"
  "from_worker w ((v, r) # xs) = (if v = w then r # from_worker w xs else from_worker w xs)"
  by (simp_all add: from_worker_def)

lemma markers_view: "filter is_marker (view w out) = filter is_marker (map snd out)"
  by (induction out) (auto simp: view_def)

section \<open>The invariant\<close>

text \<open>
  \<open>D\<close> is the set of workers whose copy of the current marker the collector has taken and not yet
  emitted. A worker in \<open>D\<close> is parked with nothing in flight; a worker whose copy is in flight is
  parked and the copy is the last thing it sent; a worker that runs, or has been woken, has no
  marker in flight.
\<close>

definition in_flight_ok :: "bool \<Rightarrow> bool \<Rightarrow> bool \<Rightarrow> rec list \<Rightarrow> bool" where
  "in_flight_ok parked token settled fs =
     (if parked then
        if token then fs = [] \<and> \<not> settled
        else if settled then fs = []
        else fs \<noteq> [] \<and> is_marker (last fs) \<and> filter is_marker (butlast fs) = []
      else \<not> token \<and> \<not> settled \<and> filter is_marker fs = [])"

lemma in_flight_settled [simp]:
  "in_flight_ok parked token True fs \<longleftrightarrow> parked \<and> \<not> token \<and> fs = []"
  by (simp add: in_flight_ok_def)

definition due :: "merge \<Rightarrow> nat \<Rightarrow> bool" where \<comment> \<open>still to be woken by the running wake-up loop\<close>
  "due s w = (case mWaking s of None \<Rightarrow> False | Some i \<Rightarrow> i \<le> w)"

definition worker_inv :: "rec list \<Rightarrow> rec list \<Rightarrow> merge \<Rightarrow> nat set \<Rightarrow> nat \<Rightarrow> bool" where
  "worker_inv stream ms s D w \<longleftrightarrow>
     in_flight_ok (mParked s ! w) (mResume s ! w) (w \<in> D \<or> due s w) (from_worker w (mFan s)) \<and>
     stream = view w (mOut s) @
       (if w \<in> D then [ms ! length (filter is_marker (map snd (mOut s)))] else [])
       @ from_worker w (mFan s) @ mIn s ! w"

definition merge_shape :: "nat \<Rightarrow> merge \<Rightarrow> nat set \<Rightarrow> bool" where
  "merge_shape n s D \<longleftrightarrow>
     length (mIn s) = n \<and> length (mParked s) = n \<and> length (mResume s) = n \<and>
     D \<subseteq> {..<n} \<and> card D = mArrived s \<and> (mArrived s < n \<or> n = 0) \<and> (mWaking s \<noteq> None \<longrightarrow> D = {}) \<and>
     fst ` set (mFan s) \<subseteq> {..<n}"

definition merge_inv :: "rec list list \<Rightarrow> rec list \<Rightarrow> merge \<Rightarrow> nat set \<Rightarrow> bool" where
  "merge_inv ins ms s D \<longleftrightarrow>
     merge_shape (length ins) s D \<and> (\<forall>w < length ins. worker_inv (ins ! w) ms s D w) \<and>
     (D \<noteq> {} \<longrightarrow> length (filter is_marker (map snd (mOut s))) < length ms)"

lemma merge_invD:
  assumes "merge_inv ins ms s D"
  shows "merge_shape (length ins) s D" and "w < length ins \<Longrightarrow> worker_inv (ins ! w) ms s D w"
    and "length (mIn s) = length ins" and "length (mParked s) = length ins"
    and "length (mResume s) = length ins"
    and "D \<noteq> {} \<Longrightarrow> length (filter is_marker (map snd (mOut s))) < length ms"
  using assms by (simp_all add: merge_inv_def merge_shape_def)

lemma merge_inv_start: "merge_inv ins ms (merge_start ins) {}"
  by (simp add: merge_inv_def merge_shape_def worker_inv_def merge_start_def in_flight_ok_def due_def)

lemma inv_forward:
  assumes "merge_inv ins ms s D" and "w < length (mIn s)" "\<not> mParked s ! w" "mIn s ! w = r # rs"
  shows "merge_inv ins ms (s\<lparr>mIn := (mIn s)[w := rs], mFan := mFan s @ [(w, r)],
          mParked := (mParked s)[w := is_marker r]\<rparr>) D" (is "merge_inv _ _ ?s _")
proof -
  note inv = merge_invD [OF assms(1)]
  have "worker_inv (ins ! v) ms ?s D v" if "v < length ins" for v
    using inv(2) [OF that] inv(3-5) assms(2-) that
    by (cases "v = w") (auto simp: worker_inv_def in_flight_ok_def due_def)
  with inv assms(2) show ?thesis by (auto simp: merge_inv_def merge_shape_def)
qed

lemma inv_unpark:
  assumes "merge_inv ins ms s D" and "w < length (mIn s)" "mParked s ! w" "mResume s ! w"
  shows "merge_inv ins ms (s\<lparr>mParked := (mParked s)[w := False], mResume := (mResume s)[w := False]\<rparr>) D"
    (is "merge_inv _ _ ?s _")
proof -
  note inv = merge_invD [OF assms(1)]
  have "worker_inv (ins ! v) ms ?s D v" if "v < length ins" for v
    using inv(2) [OF that] inv(3-5) assms(2-) that
    by (cases "v = w") (auto simp: worker_inv_def in_flight_ok_def due_def)
  with inv show ?thesis by (auto simp: merge_inv_def merge_shape_def)
qed

lemma inv_data:
  assumes "merge_inv ins ms s D" and "mFan s = (w, r) # fs" "is_data r"
  shows "merge_inv ins ms (s\<lparr>mFan := fs, mOut := mOut s @ [(w, r)]\<rparr>) D" (is "merge_inv _ _ ?s _")
proof -
  note inv = merge_invD [OF assms(1)]
  have "worker_inv (ins ! v) ms ?s D v" if "v < length ins" for v
    using inv(2) [OF that] assms(2-)
    by (cases "v = w") (auto simp: worker_inv_def in_flight_ok_def due_def split: if_splits)
  with inv assms(2,3) show ?thesis by (auto simp: merge_inv_def merge_shape_def)
qed

lemma inv_wake:
  assumes "merge_inv ins ms s D" and "mWaking s = Some i" "i < length (mIn s)" "\<not> mResume s ! i"
  shows "merge_inv ins ms (s\<lparr>mResume := (mResume s)[i := True], mWaking := Some (i + 1)\<rparr>) D"
    (is "merge_inv _ _ ?s _")
proof -
  note inv = merge_invD [OF assms(1)]
  have due: "due ?s v = (due s v \<and> v \<noteq> i)" for v
    using assms(2) by (auto simp: due_def)
  have tok: "mResume ?s ! v = (if v = i then True else mResume s ! v)" for v
    using inv(3,5) assms(3) by (simp add: nth_list_update)
  have D: "D = {}" and "due s i"
    using inv(1) assms(2) by (simp_all add: merge_shape_def due_def)
  have "worker_inv (ins ! v) ms ?s D v" if v: "v < length ins" for v
    using inv(2) [OF v] \<open>due s i\<close> assms(4) unfolding worker_inv_def due tok D
    by (auto simp: in_flight_ok_def split: if_splits)
  with inv(1) D show ?thesis by (auto simp: merge_inv_def merge_shape_def)
qed

lemma inv_woken:
  assumes "merge_inv ins ms s D" and "mWaking s = Some i" "\<not> i < length (mIn s)"
  shows "merge_inv ins ms (s\<lparr>mWaking := None\<rparr>) D" (is "merge_inv _ _ ?s _")
proof -
  note inv = merge_invD [OF assms(1)]
  have "worker_inv (ins ! v) ms ?s D v" if "v < length ins" for v
    using inv(2) [OF that] inv(3-5) assms(2-) that
    by (auto simp: worker_inv_def due_def)
  with inv show ?thesis by (auto simp: merge_inv_def merge_shape_def)
qed

text \<open>The copy at the head of the fan-in channel is the marker every worker is to deliver next.\<close>

lemma next_marker:
  assumes "worker_inv stream ms s D w" and "filter is_marker stream = ms"
    and "mFan s = (w, r) # fs" "is_marker r"
  shows "w \<notin> D" and "ms ! length (filter is_marker (map snd (mOut s))) = r"
    and "length (filter is_marker (map snd (mOut s))) < length ms"
    and "from_worker w fs = []" and "mParked s ! w" and "\<not> mResume s ! w" and "\<not> due s w"
proof -
  from assms show D: "w \<notin> D" and *: "from_worker w fs = []" "mParked s ! w" "\<not> mResume s ! w" "\<not> due s w"
    by (auto simp: worker_inv_def in_flight_ok_def split: if_splits)
  with assms have "stream = view w (mOut s) @ r # mIn s ! w" by (simp add: worker_inv_def)
  then have ms: "ms = filter is_marker (map snd (mOut s)) @ r # filter is_marker (mIn s ! w)"
    using assms(2,4) markers_view [of w "mOut s"] by auto
  then show "ms ! length (filter is_marker (map snd (mOut s))) = r"
    and "length (filter is_marker (map snd (mOut s))) < length ms"
    by (metis nth_append_length) (simp add: ms)
qed

lemma inv_hold:
  assumes "merge_inv ins ms s D" and "\<forall>w < length ins. filter is_marker (ins ! w) = ms"
    and "mWaking s = None" "mFan s = (w, r) # fs" "is_marker r" "mArrived s + 1 < length (mIn s)"
  shows "merge_inv ins ms (s\<lparr>mFan := fs, mArrived := mArrived s + 1\<rparr>) (insert w D)"
    (is "merge_inv _ _ ?s _")
proof -
  note inv = merge_invD [OF assms(1)]
  have w: "w < length ins" using inv(1) assms(4) by (simp add: merge_shape_def)
  note nx = next_marker [OF inv(2) [OF w] _ assms(4,5)]
  have "worker_inv (ins ! v) ms ?s (insert w D) v" if "v < length ins" for v
    using inv(2) [OF that] nx assms(2-) that w
    by (cases "v = w") (auto simp: worker_inv_def in_flight_ok_def due_def)
  moreover have "card (insert w D) = mArrived s + 1"
    using inv(1) nx(1) assms(2) w finite_subset [of D "{..<length ins}"] by (simp add: merge_shape_def)
  moreover have "length (filter is_marker (map snd (mOut s))) < length ms"
    using nx(3) assms(2) w by blast
  ultimately show ?thesis using inv w assms(3,4,6) by (auto simp: merge_inv_def merge_shape_def)
qed

lemma inv_emit:
  assumes "merge_inv ins ms s D" and "\<forall>w < length ins. filter is_marker (ins ! w) = ms"
    and "mWaking s = None" "mFan s = (w, r) # fs" "is_marker r" "\<not> mArrived s + 1 < length (mIn s)"
  shows "merge_inv ins ms (s\<lparr>mFan := fs, mArrived := 0, mOut := mOut s @ [(w, r)], mWaking := Some 0\<rparr>) {}"
    (is "merge_inv _ _ ?s _")
proof -
  note inv = merge_invD [OF assms(1)]
  have w: "w < length ins" using inv(1) assms(4) by (simp add: merge_shape_def)
  note nx = next_marker [OF inv(2) [OF w] _ assms(4,5)]
  have fin: "finite D" using inv(1) finite_subset [of D "{..<length ins}"] by (simp add: merge_shape_def)
  have "card (insert w D) = mArrived s + 1" "insert w D \<subseteq> {..<length ins}"
    using inv(1) nx(1) assms(2) w fin by (auto simp: merge_shape_def)
  with assms(6) inv(3) card_mono [of "{..<length ins}" "insert w D"]
  have all: "insert w D = {..<length ins}"
    by (intro card_subset_eq) auto
  have m: "ms ! length (filter is_marker (map snd (mOut s))) = r"
    using nx(2) assms(2) w by blast
  have "worker_inv (ins ! v) ms ?s {} v" if v: "v < length ins" for v
  proof (cases "v = w")
    case True
    with inv(2) [OF v] nx assms(2-) v show ?thesis
      by (auto simp: worker_inv_def in_flight_ok_def due_def)
  next
    case False
    then have "v \<in> D" using all v by blast
    then have "mParked s ! v \<and> \<not> mResume s ! v \<and> from_worker v (mFan s) = []"
      and "ins ! v = view v (mOut s) @ [r] @ from_worker v (mFan s) @ mIn s ! v"
      using inv(2) [OF v] unfolding worker_inv_def m by simp_all
    moreover have "due ?s v" by (simp add: due_def)
    moreover have "from_worker v fs = from_worker v (mFan s)"
      using False assms(4) by simp
    ultimately show ?thesis using assms(5) unfolding worker_inv_def by simp
  qed
  with inv assms(4) show ?thesis by (auto simp: merge_inv_def merge_shape_def)
qed

lemma merge_reach_inv:
  assumes "\<forall>w < length ins. filter is_marker (ins ! w) = ms" and "merge_reach ins s"
  shows "\<exists>D. merge_inv ins ms s D"
  using assms(2)
proof (induction rule: rtranclp_induct)
  case base
  then show ?case using merge_inv_start by blast
next
  case (step s s')
  then obtain D where D: "merge_inv ins ms s D" by blast
  from step(2) show ?case
  proof cases
    case (hold w r fs)
    with inv_hold [OF D assms(1)] show ?thesis by blast
  next
    case (emit w r fs)
    with inv_emit [OF D assms(1)] show ?thesis by blast
  next
    case (wake i)
    with inv_wake [OF D] show ?thesis by blast
  next
    case (woken i)
    with inv_woken [OF D] show ?thesis by blast
  qed (use inv_forward [OF D] inv_unpark [OF D] inv_data [OF D] in blast)+
qed

section \<open>No record overtakes a marker\<close>

lemma view_prefix:
  assumes "merge_inv ins ms s D" and "w < length ins"
  shows "prefix (view w (mOut s)) (ins ! w)"
  using merge_invD(2) [OF assms] unfolding worker_inv_def by (metis prefixI)

text \<open>
  C2. Alignment: when all workers deliver the same sequence of markers, then at every moment of every
  interleaving the merged output, seen as the data of one worker together with the markers, is a
  prefix of what that worker produced. So each marker is emitted once, after every record any worker
  sent before it and before every record sent after it, and each worker's order is kept.
\<close>

theorem aligned_merge_prefix:
  assumes "\<forall>w < length ins. filter is_marker (ins ! w) = ms" and "merge_reach ins s"
  shows "\<forall>w < length ins. prefix (view w (mOut s)) (ins ! w)"
  using merge_reach_inv [OF assms] view_prefix by blast

text \<open>
  A run for the witnesses: two workers, each with a watermark and the second with a record before it,
  taken through every kind of step to the end.
\<close>

definition merge_demo_ins :: "rec list list" where
  "merge_demo_ins = [[new_watermark 5], [new_record 1 ''l'' ''v'', new_watermark 5]]"

definition merge_demo_done :: merge where
  "merge_demo_done = \<lparr>mIn = [[], []], mParked = [False, False], mResume = [False, False], mFan = [],
     mArrived = 0, mWaking = None, mOut = [(1, new_record 1 ''l'' ''v''), (1, new_watermark 5)]\<rparr>"

lemma merge_demo_ins_markers: "\<forall>w < length merge_demo_ins. filter is_marker (merge_demo_ins ! w) = [new_watermark 5]"
  by (auto simp: merge_demo_ins_def less_Suc_eq new_record_def blank_def is_marker_def new_watermark_def)

lemma merge_demo_run: "(merge_step ^^ 11) (merge_start merge_demo_ins) merge_demo_done"
proof -
  let ?m = "new_watermark 5" and ?d = "new_record 1 ''l'' ''v''"
  let ?st = "\<lambda>i p r f a k out. \<lparr>mIn = i, mParked = p, mResume = r, mFan = f, mArrived = a, mWaking = k, mOut = out\<rparr>"
  let ?F = "[False, False]" and ?T = "[True, True]" and ?o = "[(1, ?d)]" and ?oo = "[(1, ?d), (1, ?m)]" and ?e = "[[], []]"
  have kinds: "is_data ?d" "is_marker ?m" "\<not> is_marker ?d"
    by (simp_all add: new_record_def blank_def is_marker_def new_watermark_def)
  have room: "0 < internalBuf" by (simp add: internalBuf_def)
  have "merge_step (?st [[?m], [?d, ?m]] ?F ?F [] 0 None []) (?st [[], [?d, ?m]] [True, False] ?F [(0, ?m)] 0 None [])"
    using merge_step.forward [of 0 "?st [[?m], [?d, ?m]] ?F ?F [] 0 None []"] kinds room by simp
  moreover have "merge_step (?st [[], [?d, ?m]] [True, False] ?F [(0, ?m)] 0 None []) (?st [[], [?d, ?m]] [True, False] ?F [] 1 None [])"
    using merge_step.hold [of "?st [[], [?d, ?m]] [True, False] ?F [(0, ?m)] 0 None []"] kinds by simp
  moreover have "merge_step (?st [[], [?d, ?m]] [True, False] ?F [] 1 None []) (?st [[], [?m]] [True, False] ?F [(1, ?d)] 1 None [])"
    using merge_step.forward [of 1 "?st [[], [?d, ?m]] [True, False] ?F [] 1 None []"] kinds room by simp
  moreover have "merge_step (?st [[], [?m]] [True, False] ?F [(1, ?d)] 1 None []) (?st [[], [?m]] [True, False] ?F [] 1 None ?o)"
    using merge_step.data [of "?st [[], [?m]] [True, False] ?F [(1, ?d)] 1 None []"] kinds by simp
  moreover have "merge_step (?st [[], [?m]] [True, False] ?F [] 1 None ?o) (?st ?e ?T ?F [(1, ?m)] 1 None ?o)"
    using merge_step.forward [of 1 "?st [[], [?m]] [True, False] ?F [] 1 None ?o"] kinds room by simp
  moreover have "merge_step (?st ?e ?T ?F [(1, ?m)] 1 None ?o) (?st ?e ?T ?F [] 0 (Some 0) ?oo)"
    using merge_step.emit [of "?st ?e ?T ?F [(1, ?m)] 1 None ?o"] kinds by simp
  moreover have "merge_step (?st ?e ?T ?F [] 0 (Some 0) ?oo) (?st ?e ?T [True, False] [] 0 (Some 1) ?oo)"
    using merge_step.wake [of "?st ?e ?T ?F [] 0 (Some 0) ?oo"] by simp
  moreover have "merge_step (?st ?e ?T [True, False] [] 0 (Some 1) ?oo) (?st ?e ?T ?T [] 0 (Some 2) ?oo)"
    using merge_step.wake [of "?st ?e ?T [True, False] [] 0 (Some 1) ?oo"] by (simp add: numeral_2_eq_2)
  moreover have "merge_step (?st ?e ?T ?T [] 0 (Some 2) ?oo) (?st ?e ?T ?T [] 0 None ?oo)"
    using merge_step.woken [of "?st ?e ?T ?T [] 0 (Some 2) ?oo"] by simp
  moreover have "merge_step (?st ?e ?T ?T [] 0 None ?oo) (?st ?e [False, True] [False, True] [] 0 None ?oo)"
    using merge_step.unpark [of 0 "?st ?e ?T ?T [] 0 None ?oo"] by simp
  moreover have "merge_step (?st ?e [False, True] [False, True] [] 0 None ?oo) (?st ?e ?F ?F [] 0 None ?oo)"
    using merge_step.unpark [of 1 "?st ?e [False, True] [False, True] [] 0 None ?oo"] by simp
  ultimately show ?thesis
    by (simp add: merge_demo_done_def merge_demo_ins_def merge_start_def eval_nat_numeral relcompp_apply) blast
qed

lemmas merge_demo_reach = relpowp_imp_rtranclp [OF merge_demo_run]

lemma merge_demo_stuck: "\<nexists>s'. merge_step merge_demo_done s'"
  by (auto elim!: merge_stepE simp: merge_demo_done_def less_Suc_eq)

theorem aligned_merge_prefix_witness:
  "merge_reach merge_demo_ins merge_demo_done \<and>
   prefix (view 0 (mOut merge_demo_done)) (merge_demo_ins ! 0) \<and> prefix (view 1 (mOut merge_demo_done)) (merge_demo_ins ! 1)"
  using aligned_merge_prefix [OF merge_demo_ins_markers merge_demo_reach] merge_demo_reach
  by (simp add: merge_demo_ins_def All_less_Suc)

section \<open>The merge delivers everything\<close>

definition merge_measure :: "merge \<Rightarrow> nat" where
  "merge_measure s =
     (2 * length (mIn s) + 3) * sum_list (map length (mIn s)) + (2 * length (mIn s) + 2) * length (mFan s) +
     (case mWaking s of None \<Rightarrow> 0 | Some i \<Rightarrow> 2 * (length (mIn s) - i) + 1) + length (filter id (mResume s))"

lemma sum_length_update:
  assumes "w < length xss" and "xss ! w = x # xs"
  shows "sum_list (map length xss) = Suc (sum_list (map length (xss[w := xs])))"
  using assms by (induction xss arbitrary: w) (auto split: nat.splits simp: less_Suc_eq_0_disj)

lemma tokens_update:
  assumes "w < length ts"
  shows "\<not> ts ! w \<Longrightarrow> length (filter id (ts[w := True])) = Suc (length (filter id ts))"
    and "ts ! w \<Longrightarrow> length (filter id ts) = Suc (length (filter id (ts[w := False])))"
  using assms by (induction ts arbitrary: w) (auto split: nat.splits simp: less_Suc_eq_0_disj)

lemma merge_step_measure:
  assumes "merge_step s s'" and "length (mResume s) = length (mIn s)"
  shows "merge_measure s' < merge_measure s \<and> length (mIn s') = length (mIn s) \<and>
    length (mResume s') = length (mIn s')"
  using assms(1)
proof cases
  case (forward w r rs)
  then show ?thesis
    using sum_length_update [of w "mIn s" r rs] assms(2)
    by (simp add: merge_measure_def split: option.split)
next
  case (unpark w)
  then show ?thesis
    using tokens_update(2) [of w "mResume s"] assms(2)
    by (simp add: merge_measure_def split: option.split)
next
  case (wake i)
  then show ?thesis
    using tokens_update(1) [of i "mResume s"] assms(2) by (simp add: merge_measure_def)
qed (use assms(2) in \<open>simp_all add: merge_measure_def\<close>)

lemma merge_steps_bounded:
  assumes "(merge_step ^^ k) s s'" and "length (mResume s) = length (mIn s)"
  shows "k + merge_measure s' \<le> merge_measure s"
  using assms
proof (induction k arbitrary: s)
  case (Suc k)
  from Suc.prems(1) obtain t where t: "merge_step s t" "(merge_step ^^ k) t s'"
    by (meson relpowp_Suc_D2)
  from merge_step_measure [OF t(1) Suc.prems(2)] Suc.IH [OF t(2)] show ?case by linarith
qed simp

lemma merge_stuck:
  assumes inv: "merge_inv ins ms s D" and ms: "\<forall>w < length ins. filter is_marker (ins ! w) = ms"
    and stuck: "\<nexists>s'. merge_step s s'" and w: "w < length ins"
  shows "view w (mOut s) = ins ! w"
proof -
  note len = merge_invD(3-5) [OF inv]
  have flight: "in_flight_ok (mParked s ! v) (mResume s ! v) (v \<in> D \<or> due s v) (from_worker v (mFan s))"
    if "v < length ins" for v
    using merge_invD(2) [OF inv that] by (simp add: worker_inv_def)
  have waking: "mWaking s = None"
  proof (cases "mWaking s")
    case (Some i)
    then have "i < length (mIn s)" using stuck merge_step.woken by blast
    moreover from this Some have "\<not> mResume s ! i" using flight [of i] len by (simp add: due_def)
    ultimately show ?thesis using Some stuck merge_step.wake by blast
  qed
  then have fan: "mFan s = []"
    using stuck merge_step.data merge_step.hold merge_step.emit by (metis list.exhaust surj_pair)
  have due: "\<not> due s v" for v using waking by (simp add: due_def)
  have idle: "v \<in> D \<or> mIn s ! v = []" if "v < length ins" for v
  proof (cases "mParked s ! v")
    case True
    then have "\<not> mResume s ! v" using stuck merge_step.unpark [of v s] that len by auto
    with True flight [OF that] fan due show ?thesis by (auto simp: in_flight_ok_def split: if_splits)
  next
    case False
    then have "mIn s ! v = []"
      using stuck merge_step.forward [of v s] that len fan
      by (metis internalBuf_def list.exhaust list.size(3) zero_less_numeral)
    then show ?thesis ..
  qed
  have eq: "ins ! v = view v (mOut s) @ (if v \<in> D then [ms ! length (filter is_marker (map snd (mOut s)))] else [])
      @ mIn s ! v" if "v < length ins" for v
    using merge_invD(2) [OF inv that] fan by (simp add: worker_inv_def)
  have "D = {}"
  proof (rule ccontr)
    assume "D \<noteq> {}"
    have sub: "D \<subseteq> {..<length ins}" "card D < length ins"
      using merge_invD(1) [OF inv] w by (auto simp: merge_shape_def)
    then obtain u where u: "u < length ins" "u \<notin> D"
      by (metis card_lessThan lessThan_iff less_irrefl subset_antisym subsetI)
    have "ms = filter is_marker (map snd (mOut s))"
      using eq [OF u(1)] idle [OF u(1)] u ms markers_view [of u "mOut s"] by auto
    then show False
      using merge_invD(6) [OF inv \<open>D \<noteq> {}\<close>] by simp
  qed
  then show ?thesis using eq [OF w] idle [OF w] by simp
qed

text \<open>
  C3. When all workers deliver the same sequence of markers, the merge cannot run forever and cannot get
  stuck early: every interleaving has a bounded number
  of steps, and one that cannot be continued has delivered everything each worker produced, markers
  included.
\<close>

theorem aligned_merge_delivers:
  assumes "\<forall>w < length ins. filter is_marker (ins ! w) = ms"
    and "(merge_step ^^ k) (merge_start ins) s"
  shows "k \<le> (2 * length ins + 3) * sum_list (map length ins) \<and>
    ((\<nexists>s'. merge_step s s') \<longrightarrow> (\<forall>w < length ins. view w (mOut s) = ins ! w))"
proof -
  have "merge_measure (merge_start ins) = (2 * length ins + 3) * sum_list (map length ins)"
    by (simp add: merge_measure_def merge_start_def)
  then have "k \<le> (2 * length ins + 3) * sum_list (map length ins)"
    using merge_steps_bounded [OF assms(2)] by (simp add: merge_start_def)
  moreover obtain D where "merge_inv ins ms s D"
    using merge_reach_inv [OF assms(1)] relpowp_imp_rtranclp [OF assms(2)] by blast
  ultimately show ?thesis using merge_stuck assms(1) by blast
qed

theorem aligned_merge_delivers_witness:
  "11 \<le> (2 * length merge_demo_ins + 3) * sum_list (map length merge_demo_ins) \<and>
   view 0 (mOut merge_demo_done) = merge_demo_ins ! 0 \<and> view 1 (mOut merge_demo_done) = merge_demo_ins ! 1"
  using aligned_merge_delivers [OF merge_demo_ins_markers merge_demo_run] merge_demo_stuck
  by (simp add: merge_demo_ins_def All_less_Suc)

section \<open>A worker that closes early\<close>

text \<open>
  The code never compares markers, it counts them. A run on worker outputs with different markers is
  therefore also a run on outputs where all markers are the same one and every output is padded with
  copies of it, so that the invariant above applies.
\<close>

definition plain_marker :: "rec \<Rightarrow> rec" where
  "plain_marker r = (if is_marker r then new_watermark 0 else r)"

definition padding :: "nat \<Rightarrow> rec list \<Rightarrow> rec list" where
  "padding n xs = replicate (n - length (filter is_marker xs)) (new_watermark 0)"

definition padded :: "rec list list \<Rightarrow> merge \<Rightarrow> merge" where
  "padded ex s = s\<lparr>mIn := map2 (\<lambda>xs e. map plain_marker xs @ e) (mIn s) ex,
     mFan := map (apsnd plain_marker) (mFan s), mOut := map (apsnd plain_marker) (mOut s)\<rparr>"

lemma plain_marker_simps [simp]:
  "is_marker (plain_marker r) = is_marker r" "is_data r \<Longrightarrow> plain_marker r = r"
  "is_marker r \<Longrightarrow> plain_marker r = new_watermark 0"
  by (simp_all add: plain_marker_def is_marker_def new_watermark_def)

lemma padded_simps [simp]:
  "mParked (padded ex s) = mParked s" "mResume (padded ex s) = mResume s" "mArrived (padded ex s) = mArrived s"
  "mWaking (padded ex s) = mWaking s" "mFan (padded ex s) = map (apsnd plain_marker) (mFan s)"
  "mOut (padded ex s) = map (apsnd plain_marker) (mOut s)"
  by (simp_all add: padded_def)

lemma padded_mIn:
  assumes "length ex = length (mIn s)"
  shows "length (mIn (padded ex s)) = length (mIn s)"
    and "w < length (mIn s) \<Longrightarrow> mIn (padded ex s) ! w = map plain_marker (mIn s ! w) @ ex ! w"
  using assms by (simp_all add: padded_def)

lemma map2_update:
  assumes "length xs = length ys" and "w < length xs"
  shows "map2 f (xs[w := x]) ys = (map2 f xs ys)[w := f x (ys ! w)]"
  using assms by (intro nth_equalityI) (auto simp: nth_list_update)

lemma padded_step:
  assumes "merge_step s t" and "length ex = length (mIn s)"
  shows "merge_step (padded ex s) (padded ex t)" and "length (mIn t) = length (mIn s)"
proof -
  note n = padded_mIn(1) [OF assms(2)]
  from assms(1) show "merge_step (padded ex s) (padded ex t)"
  proof cases
    case (forward w r rs)
    have "merge_step (padded ex s) ((padded ex s)\<lparr>mIn := (mIn (padded ex s))[w := map plain_marker rs @ ex ! w],
        mFan := mFan (padded ex s) @ [(w, plain_marker r)], mParked := (mParked (padded ex s))[w := is_marker (plain_marker r)]\<rparr>)"
      using forward n padded_mIn(2) [OF assms(2), of w] by (intro merge_step.forward) auto
    also have "(padded ex s)\<lparr>mIn := (mIn (padded ex s))[w := map plain_marker rs @ ex ! w],
        mFan := mFan (padded ex s) @ [(w, plain_marker r)], mParked := (mParked (padded ex s))[w := is_marker (plain_marker r)]\<rparr> = padded ex t"
      using forward assms(2) by (intro merge.equality) (simp_all add: padded_def map2_update)
    finally show ?thesis .
  next
    case (unpark w)
    with merge_step.unpark [of w "padded ex s"] assms(2) show ?thesis by (cases s) (simp add: padded_def)
  next
    case (data w r fs)
    with merge_step.data [of "padded ex s" w "plain_marker r" "map (apsnd plain_marker) fs"] show ?thesis
      by (cases s) (simp add: padded_def)
  next
    case (hold w r fs)
    with merge_step.hold [of "padded ex s" w "plain_marker r" "map (apsnd plain_marker) fs"] n show ?thesis
      by (cases s) (simp add: padded_def)
  next
    case (emit w r fs)
    with merge_step.emit [of "padded ex s" w "plain_marker r" "map (apsnd plain_marker) fs"] n show ?thesis
      by (cases s) (simp add: padded_def)
  next
    case (wake i)
    with merge_step.wake [of "padded ex s" i] assms(2) show ?thesis by (cases s) (simp add: padded_def)
  next
    case (woken i)
    with merge_step.woken [of "padded ex s" i] assms(2) show ?thesis by (cases s) (simp add: padded_def)
  qed
  from assms(1) show "length (mIn t) = length (mIn s)" by cases simp_all
qed

lemma padded_reach:
  assumes "merge_reach ins s" and "length ex = length ins"
  shows "merge_reach (map2 (\<lambda>xs e. map plain_marker xs @ e) ins ex) (padded ex s) \<and> length (mIn s) = length ins"
  using assms(1)
proof (induction rule: rtranclp_induct)
  case base
  have "padded ex (merge_start ins) = merge_start (map2 (\<lambda>xs e. map plain_marker xs @ e) ins ex)"
    using assms(2) by (simp add: padded_def merge_start_def)
  then show ?case by (simp add: merge_start_def)
next
  case (step s t)
  with padded_step [OF step(2), of ex] assms(2) show ?case by (auto intro: rtranclp.rtrancl_into_rtrancl)
qed

lemma plain_markers:
  "filter is_marker (map plain_marker xs) = replicate (length (filter is_marker xs)) (new_watermark 0)"
  "filter is_data (map plain_marker xs) = filter is_data xs"
  by (induction xs) (auto simp: replicate_append_same)

lemma from_worker_plain: "from_worker w (map (apsnd plain_marker) fs) = map plain_marker (from_worker w fs)"
  by (induction fs) (auto simp: from_worker_def)

lemma view_plain: "view w (map (apsnd plain_marker) out) = map plain_marker (view w out)"
  by (induction out) (auto simp: view_def)

lemma data_view: "filter is_data (view w out) = filter is_data (from_worker w out)"
  by (induction out) (auto simp: view_def from_worker_def)

text \<open>Up to the names of markers, a worker's output is what was emitted, held, in flight and unread.\<close>

lemma merge_accounts:
  assumes "merge_reach ins s" and "w < length ins"
  shows "\<exists>held. map plain_marker (ins ! w) = map plain_marker (view w (mOut s)) @ held @
      map plain_marker (from_worker w (mFan s)) @ map plain_marker (mIn s ! w) \<and> (\<not> mParked s ! w \<longrightarrow> held = [])"
proof -
  define n where "n = Max ((\<lambda>xs. length (filter is_marker xs)) ` set ins)"
  define ex where "ex = map (padding n) ins"
  let ?ins = "map2 (\<lambda>xs e. map plain_marker xs @ e) ins ex"
  have ex: "length ex = length ins" by (simp add: ex_def)
  have nth: "?ins ! v = map plain_marker (ins ! v) @ padding n (ins ! v)" if "v < length ins" for v
    using that by (simp add: ex_def)
  have "length (filter is_marker (ins ! v)) \<le> n" if "v < length ins" for v
    using that unfolding n_def by (intro Max_ge) auto
  then have "filter is_marker (?ins ! v) = replicate n (new_watermark 0)" if "v < length ins" for v
    using that unfolding nth [OF that] by (simp add: plain_markers padding_def is_marker_def flip: replicate_add)
  then have ms: "\<forall>v < length ?ins. filter is_marker (?ins ! v) = replicate n (new_watermark 0)"
    using ex by simp
  from padded_reach [OF assms(1) ex] have reach: "merge_reach ?ins (padded ex s)" and len: "length (mIn s) = length ins"
    by simp_all
  obtain D where D: "merge_inv ?ins (replicate n (new_watermark 0)) (padded ex s) D"
    using merge_reach_inv [OF ms reach] by blast
  have "worker_inv (?ins ! w) (replicate n (new_watermark 0)) (padded ex s) D w"
    by (rule merge_invD(2) [OF D]) (use assms(2) ex in simp)
  moreover have "w \<in> D \<Longrightarrow> mParked s ! w" using calculation by (simp add: worker_inv_def)
  ultimately show ?thesis
    using nth [OF assms(2)] padded_mIn(2) [of ex s w] assms(2) ex len
    by (auto simp: worker_inv_def view_plain from_worker_plain ex_def)
qed

text \<open>The part of a worker's output before its marker number \<open>k\<close>, counted from zero.\<close>

fun before_marker :: "nat \<Rightarrow> rec list \<Rightarrow> rec list" where
  "before_marker k [] = []"
| "before_marker k (r # rs) =
     (if is_data r then r # before_marker k rs
      else case k of 0 \<Rightarrow> [] | Suc k' \<Rightarrow> r # before_marker k' rs)"

lemma before_marker_append:
  "length (filter is_marker xs) \<le> k \<Longrightarrow>
     before_marker k (xs @ ys) = xs @ before_marker (k - length (filter is_marker xs)) ys"
  by (induction xs arbitrary: k) (auto split: nat.split)

lemma before_marker_plain: "before_marker k (map plain_marker xs) = map plain_marker (before_marker k xs)"
  by (induction xs arbitrary: k) (auto split: nat.split)

text \<open>All forwarders have returned and the fan-in channel, now closed, is drained: the merge returns.\<close>

definition merge_returns :: "merge \<Rightarrow> bool" where
  "merge_returns s \<longleftrightarrow> mWaking s = None \<and> mFan s = [] \<and> list_all (\<lambda>p. \<not> p) (mParked s) \<and> list_all (\<lambda>xs. xs = []) (mIn s)"

lemma merge_reach_lengths:
  assumes "merge_reach ins s"
  shows "length (mIn s) = length ins \<and> length (mParked s) = length ins"
  using assms by (induction rule: rtranclp_induct) (auto elim!: merge_stepE simp: merge_start_def)

text \<open>
  C21. The comment on \<^verbatim>\<open>alignedMerge\<close> says it returns when all worker outputs are closed. With any
  number of workers, if worker \<open>v\<close> closes its output after fewer markers than another worker
  \<open>u\<close> delivers, that is not so. In every interleaving no more markers come out than \<open>v\<close> delivered, of
  every worker only data before its first marker beyond that number comes out, and the merge never
  returns, although no run has more than a bounded number of steps.
\<close>

theorem aligned_merge_starves:
  assumes "v < length ins" and "u < length ins"
    and "length (filter is_marker (ins ! v)) < length (filter is_marker (ins ! u))"
    and "(merge_step ^^ n) (merge_start ins) s"
  shows "length (filter is_marker (map snd (mOut s))) \<le> length (filter is_marker (ins ! v)) \<and>
    (\<forall>w < length ins. prefix (filter is_data (from_worker w (mOut s)))
       (filter is_data (before_marker (length (filter is_marker (ins ! v))) (ins ! w)))) \<and>
    \<not> merge_returns s \<and> n \<le> (2 * length ins + 3) * sum_list (map length ins)"
proof (intro conjI allI impI)
  let ?k = "length (filter is_marker (ins ! v))" and ?e = "length (filter is_marker (map snd (mOut s)))"
  have reach: "merge_reach ins s" using assms(4) by (rule relpowp_imp_rtranclp)
  have count: "length (filter is_marker (ins ! w)) = length (filter is_marker (map plain_marker (ins ! w)))" for w
    by (simp add: plain_markers)
  show e: "?e \<le> ?k"
  proof -
    obtain ys where "map plain_marker (ins ! v) = map plain_marker (view v (mOut s)) @ ys"
      using merge_accounts [OF reach assms(1)] by blast
    then have "length (filter is_marker (map plain_marker (view v (mOut s)))) \<le> ?k" unfolding count by simp
    then show ?thesis by (simp only: plain_markers markers_view length_replicate)
  qed
  show "prefix (filter is_data (from_worker w (mOut s))) (filter is_data (before_marker ?k (ins ! w)))" if w: "w < length ins" for w
  proof -
    obtain ys where "map plain_marker (ins ! w) = map plain_marker (view w (mOut s)) @ ys"
      using merge_accounts [OF reach w] by blast
    moreover have "length (filter is_marker (map plain_marker (view w (mOut s)))) \<le> ?k"
      using e by (simp add: plain_markers markers_view)
    ultimately have "map plain_marker (before_marker ?k (ins ! w)) = map plain_marker (view w (mOut s)) @
        before_marker (?k - length (filter is_marker (map plain_marker (view w (mOut s))))) ys"
      using before_marker_append by (simp add: before_marker_plain [symmetric])
    then have "prefix (filter is_data (map plain_marker (view w (mOut s)))) (filter is_data (map plain_marker (before_marker ?k (ins ! w))))"
      by simp
    then show ?thesis by (simp only: plain_markers data_view)
  qed
  show "\<not> merge_returns s"
  proof
    assume "merge_returns s"
    then have "map plain_marker (ins ! u) = map plain_marker (view u (mOut s))"
      using merge_accounts [OF reach assms(2)] merge_reach_lengths [OF reach] assms(2)
      by (auto simp: merge_returns_def list_all_length)
    then have "length (filter is_marker (ins ! u)) = ?e"
      unfolding count by (simp add: plain_markers markers_view)
    with e assms(3) show False by simp
  qed
  show "n \<le> (2 * length ins + 3) * sum_list (map length ins)"
    using merge_steps_bounded [OF assms(4)] by (simp add: merge_start_def merge_measure_def)
qed

text \<open>Three workers: the first closes at once, the second has a watermark, the third only data.\<close>

definition starve_demo_ins :: "rec list list" where
  "starve_demo_ins = [[], [new_record 1 ''l'' ''v'', new_watermark 5, new_record 6 ''k'' ''v''], [new_record 7 ''l'' ''w'']]"

definition starve_demo_rest :: merge where
  "starve_demo_rest = \<lparr>mIn = [[], [new_record 6 ''k'' ''v''], []], mParked = [False, True, False],
     mResume = [False, False, False], mFan = [], mArrived = 1, mWaking = None,
     mOut = [(1, new_record 1 ''l'' ''v''), (2, new_record 7 ''l'' ''w'')]\<rparr>"

lemma starve_demo_run: "(merge_step ^^ 6) (merge_start starve_demo_ins) starve_demo_rest"
proof -
  let ?m = "new_watermark 5" and ?d = "new_record 1 ''l'' ''v''" and ?e = "new_record 6 ''k'' ''v''" and ?f = "new_record 7 ''l'' ''w''"
  let ?st = "\<lambda>i p f a out. \<lparr>mIn = i, mParked = p, mResume = [False, False, False], mFan = f, mArrived = a, mWaking = None, mOut = out\<rparr>"
  let ?F = "[False, False, False]" and ?P = "[False, True, False]"
  have kinds: "is_data ?d" "is_data ?f" "is_marker ?m" "\<not> is_marker ?d" "\<not> is_marker ?f"
    by (simp_all add: new_record_def blank_def is_marker_def new_watermark_def)
  have room: "0 < internalBuf" "1 < internalBuf" by (simp_all add: internalBuf_def)
  have "merge_step (?st [[], [?d, ?m, ?e], [?f]] ?F [] 0 []) (?st [[], [?m, ?e], [?f]] ?F [(1, ?d)] 0 [])"
    using merge_step.forward [of 1 "?st [[], [?d, ?m, ?e], [?f]] ?F [] 0 []"] kinds room by simp
  moreover have "merge_step (?st [[], [?m, ?e], [?f]] ?F [(1, ?d)] 0 []) (?st [[], [?e], [?f]] ?P [(1, ?d), (1, ?m)] 0 [])"
    using merge_step.forward [of 1 "?st [[], [?m, ?e], [?f]] ?F [(1, ?d)] 0 []"] kinds room by simp
  moreover have "merge_step (?st [[], [?e], [?f]] ?P [(1, ?d), (1, ?m)] 0 []) (?st [[], [?e], [?f]] ?P [(1, ?m)] 0 [(1, ?d)])"
    using merge_step.data [of "?st [[], [?e], [?f]] ?P [(1, ?d), (1, ?m)] 0 []"] kinds by simp
  moreover have "merge_step (?st [[], [?e], [?f]] ?P [(1, ?m)] 0 [(1, ?d)]) (?st [[], [?e], [?f]] ?P [] 1 [(1, ?d)])"
    using merge_step.hold [of "?st [[], [?e], [?f]] ?P [(1, ?m)] 0 [(1, ?d)]"] kinds by simp
  moreover have "merge_step (?st [[], [?e], [?f]] ?P [] 1 [(1, ?d)]) (?st [[], [?e], []] ?P [(2, ?f)] 1 [(1, ?d)])"
    using merge_step.forward [of 2 "?st [[], [?e], [?f]] ?P [] 1 [(1, ?d)]"] kinds room by (simp add: numeral_2_eq_2)
  moreover have "merge_step (?st [[], [?e], []] ?P [(2, ?f)] 1 [(1, ?d)]) (?st [[], [?e], []] ?P [] 1 [(1, ?d), (2, ?f)])"
    using merge_step.data [of "?st [[], [?e], []] ?P [(2, ?f)] 1 [(1, ?d)]"] kinds by simp
  ultimately show ?thesis
    by (simp add: starve_demo_rest_def starve_demo_ins_def merge_start_def eval_nat_numeral relcompp_apply) blast
qed

lemma starve_demo_stuck: "\<nexists>s'. merge_step starve_demo_rest s'"
  by (auto elim!: merge_stepE simp: starve_demo_rest_def less_Suc_eq numeral_2_eq_2)

theorem aligned_merge_starves_witness:
  "(merge_step ^^ 6) (merge_start starve_demo_ins) starve_demo_rest \<and> (\<nexists>s'. merge_step starve_demo_rest s') \<and>
   \<not> merge_returns starve_demo_rest \<and> filter is_marker (map snd (mOut starve_demo_rest)) = [] \<and>
   prefix (filter is_data (from_worker 1 (mOut starve_demo_rest))) (filter is_data (before_marker 0 (starve_demo_ins ! 1)))"
proof (intro conjI)
  have markers: "filter is_marker (starve_demo_ins ! 0) = []" "filter is_marker (starve_demo_ins ! 1) = [new_watermark 5]"
    by (simp_all add: starve_demo_ins_def is_marker_def new_record_def blank_def new_watermark_def)
  have len: "length starve_demo_ins = 3" by (simp add: starve_demo_ins_def)
  note starves = aligned_merge_starves [of 0 starve_demo_ins 1, unfolded markers len, simplified, OF starve_demo_run]
  show "\<not> merge_returns starve_demo_rest" "filter is_marker (map snd (mOut starve_demo_rest)) = []"
    "prefix (filter is_data (from_worker 1 (mOut starve_demo_rest))) (filter is_data (before_marker 0 (starve_demo_ins ! 1)))"
    using starves by (simp_all add: comp_def filter_map)
qed (rule starve_demo_run starve_demo_stuck)+

end
