(* ===== verification/Keyed_Stage.thy ===== *)
theory Keyed_Stage
  imports Reduce_Op Aligned_Merge
begin

text \<open>
  A keyed stage from end to end (\<^verbatim>\<open>pipeline/keyed_stage.go\<close>): the router, one chain of cloned Window and
  Reduce operators per worker, and the aligned merge. The merge relies on the workers delivering the
  same markers in the same sequence; here this is proved for the operators that the chains consist of.
  The clones' own channels deliver in order and lose nothing, so a chain is a composition.
\<close>

text \<open>
  A clone with its state. A Window lists the keys of its state in an unspecified order, which is a
  function of the input that is left; its idle timer is not set.
\<close>

datatype ('s, 't) worker_op =
    ReduceClone reduce_fn "'s reduce_op"
  | WindowClone window_cfg "'t window_op" "rec list \<Rightarrow> string list"

fun window_events :: "(rec list \<Rightarrow> string list) \<Rightarrow> rec list \<Rightarrow> window_event list" where
  "window_events ord [] = [InputClosed (ord [])]"
| "window_events ord (r # rs) = Arrive r (ord (r # rs)) # window_events ord rs"

record ('s, 't) clone_ops =
  coValues :: "(bytes, 's) value_ops" \<comment> \<open>the state of a Reduce\<close>
  coLists :: "(record_json, 't) list_ops" \<comment> \<open>the buffered records of a Window\<close>
  coWatermark :: "(bytes, 't) value_ops" \<comment> \<open>its watermark\<close>

fun clone_process :: "('s, 't) clone_ops \<Rightarrow> ('s, 't) worker_op \<Rightarrow> rec list \<Rightarrow> rec list option" where
  "clone_process B (ReduceClone f op) rs = Some (snd (reduce_process (coValues B) f rs op))"
| "clone_process B (WindowClone cfg op ord) rs =
     map_option snd (win_run (coLists B) (coWatermark B) cfg (window_events ord rs) op)"

fun chain_process :: "('s, 't) clone_ops \<Rightarrow> ('s, 't) worker_op list \<Rightarrow> rec list \<Rightarrow> rec list option" where
  "chain_process B [] rs = Some rs"
| "chain_process B (c # cs) rs = (case clone_process B c rs of None \<Rightarrow> None | Some out \<Rightarrow> chain_process B cs out)"

text \<open>
  \<^verbatim>\<open>Run\<close>: what the merge has read and emitted at some moment when \<open>ws\<close> are the worker chains. A worker
  that panics (\<^const>\<open>None\<close>) cancels the stage and has no state here.
\<close>

definition keyed_stage_reach :: "('s, 't) clone_ops \<Rightarrow> key_by \<Rightarrow> ('s, 't) worker_op list list \<Rightarrow> rec list \<Rightarrow> rec list list \<Rightarrow> merge \<Rightarrow> bool" where
  "keyed_stage_reach B kb ws rs outs s \<longleftrightarrow>
     (case keyed_inputs kb rs of
        None \<Rightarrow> False
      | Some shares \<Rightarrow> map2 (chain_process B) ws shares = map Some outs \<and> length ws = length shares \<and> merge_reach outs s)"

section \<open>What the operators do to markers\<close>

lemma reduce_markers: "filter is_marker (snd (reduce_process V f rs op)) = filter is_marker rs"
proof (induction rs arbitrary: op)
  case (Cons r rs)
  moreover have "is_data (snd (reduce_record V f r op))"
    by (simp add: reduce_record_def Let_def is_marker_def blank_def)
  ultimately show ?case by (simp add: case_prod_unfold Let_def)
qed simp

lemma fire_windows_markers: "filter is_marker (snd (fire_windows L cfg ks s)) = []"
proof (induction ks arbitrary: s)
  case (Cons k ks)
  have "filter is_marker (snd (fire_window L cfg k s)) = []"
    by (auto simp: fire_window_def Let_def filter_empty_conv split: option.split)
  with Cons show ?case by (simp add: case_prod_unfold Let_def)
qed simp

lemma window_markers:
  assumes "win_run L V cfg (window_events ord rs) op = Some (op', out)" and "\<not> woStopped op"
  shows "filter is_marker out = filter (\<lambda>r. is_marker r \<and> \<not> isWatermark r) rs"
  using assms
proof (induction rs arbitrary: op out)
  case Nil
  then show ?case by (auto simp: flush_remaining_def case_prod_unfold Let_def fire_windows_markers)
next
  case (Cons r rs)
  then obtain op1 out1 out2 where step: "win_step L V cfg (Arrive r (ord (r # rs))) op = Some (op1, out1)"
    and rest: "win_run L V cfg (window_events ord rs) op1 = Some (op', out2)" and out: "out = out1 @ out2"
    by (auto split: option.splits)
  from step Cons.prems(2) have "\<not> woStopped op1" "filter is_marker out1 = (if is_marker r \<and> \<not> isWatermark r then [r] else [])"
    by (auto simp: handle_watermark_def case_prod_unfold Let_def fire_windows_markers emit_late_def is_marker_def split: if_splits option.splits)
  with Cons.IH [OF rest] out show ?case by simp
qed

fun is_window :: "('s, 't) worker_op \<Rightarrow> bool" where
  "is_window (WindowClone cfg op ord) \<longleftrightarrow> True"
| "is_window (ReduceClone f op) \<longleftrightarrow> False"

fun clone_runs :: "('s, 't) worker_op \<Rightarrow> bool" where
  "clone_runs (WindowClone cfg op ord) \<longleftrightarrow> \<not> woStopped op"
| "clone_runs (ReduceClone f op) \<longleftrightarrow> True"

lemma chain_markers:
  assumes "chain_process B cs rs = Some out" and "list_all clone_runs cs"
  shows "filter is_marker out = filter (\<lambda>r. is_marker r \<and> (list_ex is_window cs \<longrightarrow> \<not> isWatermark r)) rs"
  using assms
proof (induction cs arbitrary: rs)
  case (Cons c cs)
  then obtain mid where mid: "clone_process B c rs = Some mid" "chain_process B cs mid = Some out"
    by (auto split: option.splits)
  have m: "filter is_marker mid = filter (\<lambda>r. is_marker r \<and> (is_window c \<longrightarrow> \<not> isWatermark r)) rs"
    using mid(1) Cons.prems(2) by (cases c) (auto simp: reduce_markers dest: window_markers)
  have "filter is_marker out = filter (\<lambda>r. list_ex is_window cs \<longrightarrow> \<not> isWatermark r) (filter is_marker mid)"
    using Cons.IH [OF mid(2)] Cons.prems(2) by (simp add: conj_commute)
  then show ?case unfolding m by (auto intro: filter_cong)
qed simp

section \<open>The stage\<close>

text \<open>
  C8. The keyed stage as a whole, from any states of its clones: the router, workers that each run a chain
  of Window and Reduce clones (the same kinds in the same order on every worker, none stopped, no idle
  timer) and the merge. At every moment of every interleaving the markers of the stage's output are a
  prefix of those it is to forward, which are the markers of the input for a chain of Reduces and the
  barriers alone for a chain with a Window, since a Window consumes watermarks. When the merge has come
  to rest, each of them has come out exactly once, and every worker's records lie between the same
  markers as in its own output.
\<close>

theorem keyed_stage_markers:
  assumes "0 < kbPartitions kb" and "list_all (\<lambda>cs. list_all clone_runs cs \<and> map is_window cs = kinds) ws"
    and "keyed_stage_reach B kb ws rs outs s"
  shows "prefix (filter is_marker (map snd (mOut s))) (filter (\<lambda>r. is_marker r \<and> (True \<in> set kinds \<longrightarrow> \<not> isWatermark r)) rs) \<and>
    ((\<nexists>s'. merge_step s s') \<longrightarrow>
       filter is_marker (map snd (mOut s)) = filter (\<lambda>r. is_marker r \<and> (True \<in> set kinds \<longrightarrow> \<not> isWatermark r)) rs \<and>
       (\<forall>w < length outs. view w (mOut s) = outs ! w))"
proof -
  define n where "n = nat (kbPartitions kb)"
  define ms where "ms = filter (\<lambda>r. is_marker r \<and> (True \<in> set kinds \<longrightarrow> \<not> isWatermark r)) rs"
  have outs: "map2 (chain_process B) ws (map (worker_share kb rs) [0..<n]) = map Some outs" and len: "length ws = n"
    and reach: "merge_reach outs s"
    using assms(3) keyed_inputs_shares [OF assms(1), of rs] by (simp_all add: keyed_stage_reach_def n_def)
  have lo: "length outs = n" using arg_cong [OF outs, of length] len by simp
  have ms: "filter is_marker (outs ! w) = ms" if w: "w < length outs" for w
  proof -
    have run: "chain_process B (ws ! w) (worker_share kb rs w) = Some (outs ! w)"
      using arg_cong [OF outs, of "\<lambda>xs. xs ! w"] w len lo by simp
    have cs: "list_all clone_runs (ws ! w)" "map is_window (ws ! w) = kinds"
      using assms(2) w len lo by (simp_all add: list_all_length)
    have "list_ex is_window (ws ! w) = (True \<in> set kinds)" unfolding cs(2) [symmetric] by (auto simp: list_ex_iff)
    then have "filter is_marker (outs ! w) =
        filter (\<lambda>r. True \<in> set kinds \<longrightarrow> \<not> isWatermark r) (filter is_marker (worker_share kb rs w))"
      using chain_markers [OF run cs(1)] by (simp add: conj_commute)
    then show ?thesis unfolding worker_share_markers by (simp add: ms_def conj_commute)
  qed
  then obtain D where D: "merge_inv outs ms s D" using merge_reach_inv reach by blast
  have pos: "0 < length outs" using assms(1) lo by (simp add: n_def)
  have "prefix (filter is_marker (view 0 (mOut s))) (filter is_marker (outs ! 0))"
    using view_prefix [OF D pos] by (auto simp: prefix_def)
  then have "prefix (filter is_marker (map snd (mOut s))) ms" using ms [OF pos] by (simp add: markers_view)
  moreover have "view w (mOut s) = outs ! w" if "\<nexists>s'. merge_step s s'" "w < length outs" for w
    using merge_stuck [OF D _ that] ms by blast
  ultimately show ?thesis using ms [OF pos] pos markers_view unfolding ms_def by metis
qed

definition stage_demo_ops :: "((bytes, bytes) mem, (bytes, record_json) mem) clone_ops" where
  "stage_demo_ops = \<lparr>coValues = mem_values ''reduce'', coLists = mem_lists ''records'', coWatermark = mem_values ''meta''\<rparr>"

definition stage_demo_workers :: "((bytes, bytes) mem, (bytes, record_json) mem) worker_op list list" where
  "stage_demo_workers = replicate 2 [ReduceClone (\<lambda>acc r. Some (bytes_of acc @ rValue r)) (new_reduce new_mem)]"

lemma stage_demo_reach:
  "keyed_stage_reach stage_demo_ops (keyed_by rKey 1) stage_demo_workers [new_record 1 ''l'' ''v'', new_watermark 5] merge_demo_ins merge_demo_done"
proof -
  have route: "route_key (keyed_by rKey 1) ''l'' = 1" by code_simp
  have "keyed_inputs (keyed_by rKey 1) [new_record 1 ''l'' ''v'', new_watermark 5] = Some merge_demo_ins"
    using route by (simp add: keyed_inputs_def router_send_def Let_def merge_demo_ins_def new_record_def blank_def is_marker_def numeral_2_eq_2)
  then show ?thesis
    using merge_demo_reach
    by (simp add: keyed_stage_reach_def stage_demo_workers_def stage_demo_ops_def merge_demo_ins_def numeral_2_eq_2
        reduce_record_def advance_window_frontier_def state_key_def new_reduce_def Let_def bytes_of_def new_record_def blank_def is_marker_def)
qed

theorem keyed_stage_markers_witness:
  "keyed_stage_reach stage_demo_ops (keyed_by rKey 1) stage_demo_workers [new_record 1 ''l'' ''v'', new_watermark 5] merge_demo_ins merge_demo_done \<and>
   filter is_marker (map snd (mOut merge_demo_done)) = [new_watermark 5] \<and> view 1 (mOut merge_demo_done) = merge_demo_ins ! 1"
proof -
  have "list_all (\<lambda>cs. list_all clone_runs cs \<and> map is_window cs = [False]) stage_demo_workers"
    by (simp add: stage_demo_workers_def numeral_2_eq_2)
  from keyed_stage_markers [OF _ this stage_demo_reach] merge_demo_stuck stage_demo_reach show ?thesis
    by (simp add: new_record_def blank_def is_marker_def merge_demo_ins_def)
qed

end
