(* ===== verification/Pebble_State.thy ===== *)
theory Pebble_State
  imports State_Backend Byte_Order "HOL-Library.Word"
begin

text \<open>
  The durable state backend (\<^verbatim>\<open>state/pebble.go\<close>): key encodings, value and list namespaces on one
  ordered key-value store, lazily seeded sequence counters for list entries, and the checkpoint and
  restore operations. The store itself, Pebble, is a parameter: a record of operations whose
  documented laws (point reads and writes, range deletion, ordered range scans) are the locale
  \<^verbatim>\<open>ordered_kv\<close>. I/O errors of the store, on which the code panics, are not modelled.
\<close>

section \<open>The store\<close>

record ('v, 'db) kv =
  kOpen :: 'db \<comment> \<open>a store opened on an empty directory\<close>
  kGet :: "bytes \<Rightarrow> 'db \<Rightarrow> 'v option"
  kSet :: "bytes \<Rightarrow> 'v \<Rightarrow> 'db \<Rightarrow> 'db"
  kDelete :: "bytes \<Rightarrow> 'db \<Rightarrow> 'db"
  kDeleteRange :: "bytes \<Rightarrow> bytes \<Rightarrow> 'db \<Rightarrow> 'db"
  kScan :: "bytes \<Rightarrow> bytes \<Rightarrow> 'db \<Rightarrow> (bytes \<times> 'v) list" \<comment> \<open>lower bound inclusive, upper exclusive\<close>

section \<open>Keys\<close>

abbreviation nul :: char where
  "nul \<equiv> CHR 0x00"

definition value_user_key :: "string \<Rightarrow> string \<Rightarrow> bytes" where
  "value_user_key ns key = [CHR ''v'', nul] @ ns @ [nul] @ key"

definition value_prefix_bytes :: "string \<Rightarrow> bytes" where
  "value_prefix_bytes ns = value_user_key ns []"

definition value_user_key_from_full :: "string \<Rightarrow> bytes \<Rightarrow> string" where
  "value_user_key_from_full ns full =
     (if length (value_prefix_bytes ns) < length full then drop (length (value_prefix_bytes ns)) full else [])"

definition list_entry_key :: "string \<Rightarrow> string \<Rightarrow> 64 word \<Rightarrow> bytes" where
  "list_entry_key ns key seq = [CHR ''l'', nul] @ ns @ [nul] @ key @ [nul] @ be 8 (unat seq)"

definition list_prefix_bytes :: "string \<Rightarrow> string \<Rightarrow> bytes" where
  "list_prefix_bytes ns key = take (length (list_entry_key ns key 0) - 8) (list_entry_key ns key 0)"

definition list_namespace_prefix :: "string \<Rightarrow> bytes" where
  "list_namespace_prefix ns = [CHR ''l'', nul] @ ns @ [nul]"

section \<open>The backend\<close>

record 'db pebble =
  pDb :: 'db
  pSeqs :: "string \<times> string \<rightharpoonup> 64 word"
  pClosed :: bool

definition open_pebble :: "'db \<Rightarrow> 'db pebble" where
  "open_pebble db = \<lparr>pDb = db, pSeqs = Map.empty, pClosed = False\<rparr>"

definition close_pebble :: "'db pebble \<Rightarrow> 'db pebble" where
  "close_pebble p = p\<lparr>pClosed := True\<rparr>"

definition checkpoint_to :: "'db pebble \<Rightarrow> 'db option" where \<comment> \<open>the flushed store, or an error\<close>
  "checkpoint_to p = (if pClosed p then None else Some (pDb p))"

definition restore_from :: "'db \<Rightarrow> 'db pebble \<Rightarrow> 'db pebble" where
  "restore_from db p = p\<lparr>pDb := db, pSeqs := Map.empty, pClosed := False\<rparr>"

definition reset_pebble :: "('v, 'db) kv \<Rightarrow> 'db pebble \<Rightarrow> 'db pebble" where
  "reset_pebble K p = p\<lparr>pDb := kOpen K, pSeqs := Map.empty, pClosed := False\<rparr>"

definition scan_prefix :: "('v, 'db) kv \<Rightarrow> bytes \<Rightarrow> 'db pebble \<Rightarrow> (bytes \<times> 'v) list" where
  "scan_prefix K pre p = kScan K pre (prefix_upper_bound pre) (pDb p)"

definition pebble_get :: "('v, 'db) kv \<Rightarrow> string \<Rightarrow> string \<Rightarrow> 'db pebble \<Rightarrow> 'v option" where
  "pebble_get K ns key p = (if pClosed p then None else kGet K (value_user_key ns key) (pDb p))"

definition pebble_set :: "('v, 'db) kv \<Rightarrow> string \<Rightarrow> string \<Rightarrow> 'v \<Rightarrow> 'db pebble \<Rightarrow> 'db pebble" where
  "pebble_set K ns key v p =
     (if pClosed p then p else p\<lparr>pDb := kSet K (value_user_key ns key) v (pDb p)\<rparr>)"

definition pebble_clear :: "('v, 'db) kv \<Rightarrow> string \<Rightarrow> string \<Rightarrow> 'db pebble \<Rightarrow> 'db pebble" where
  "pebble_clear K ns key p =
     (if pClosed p then p else p\<lparr>pDb := kDelete K (value_user_key ns key) (pDb p)\<rparr>)"

definition pebble_keys :: "('v, 'db) kv \<Rightarrow> string \<Rightarrow> 'db pebble \<Rightarrow> string list" where
  "pebble_keys K ns p =
     (if pClosed p then []
      else map (value_user_key_from_full ns \<circ> fst) (scan_prefix K (value_prefix_bytes ns) p))"

definition pebble_snapshot_all :: "('v, 'db) kv \<Rightarrow> string \<Rightarrow> 'db pebble \<Rightarrow> (string \<times> 'v) list" where
  "pebble_snapshot_all K ns p =
     (if pClosed p then []
      else map (\<lambda>(k, v). (value_user_key_from_full ns k, v)) (scan_prefix K (value_prefix_bytes ns) p))"

definition pebble_restore_all ::
  "('v, 'db) kv \<Rightarrow> string \<Rightarrow> (string \<times> 'v) list \<Rightarrow> 'db pebble \<Rightarrow> 'db pebble" where
  "pebble_restore_all K ns entries p =
     (if pClosed p then p
      else p\<lparr>pDb := fold (\<lambda>(k, v). kSet K (value_user_key ns k) v) entries
          (kDeleteRange K (value_prefix_bytes ns) (prefix_upper_bound (value_prefix_bytes ns)) (pDb p))\<rparr>)"

definition next_list_seq :: "('v, 'db) kv \<Rightarrow> string \<Rightarrow> string \<Rightarrow> 'db pebble \<Rightarrow> 64 word" where
  "next_list_seq K ns key p =
     (case rev (scan_prefix K (list_prefix_bytes ns key) p) of
        [] \<Rightarrow> 0
      | (k, v) # _ \<Rightarrow> of_nat (be_val (drop (length k - 8) k)) + 1)"

definition pebble_append :: "('v, 'db) kv \<Rightarrow> string \<Rightarrow> string \<Rightarrow> 'v \<Rightarrow> 'db pebble \<Rightarrow> 'db pebble" where
  "pebble_append K ns key v p =
     (if pClosed p then p
      else
        let seq = (case pSeqs p (ns, key) of Some q \<Rightarrow> q | None \<Rightarrow> next_list_seq K ns key p)
        in p\<lparr>pSeqs := (pSeqs p)((ns, key) \<mapsto> seq + 1), pDb := kSet K (list_entry_key ns key seq) v (pDb p)\<rparr>)"

definition pebble_get_all :: "('v, 'db) kv \<Rightarrow> string \<Rightarrow> string \<Rightarrow> 'db pebble \<Rightarrow> 'v list" where
  "pebble_get_all K ns key p =
     (if pClosed p then [] else map snd (scan_prefix K (list_prefix_bytes ns key) p))"

definition pebble_list_clear :: "('v, 'db) kv \<Rightarrow> string \<Rightarrow> string \<Rightarrow> 'db pebble \<Rightarrow> 'db pebble" where
  "pebble_list_clear K ns key p =
     (if pClosed p then p
      else p\<lparr>pDb := kDeleteRange K (list_prefix_bytes ns key)
          (prefix_upper_bound (list_prefix_bytes ns key)) (pDb p)\<rparr>)"

fun unseen :: "string list \<Rightarrow> string list \<Rightarrow> string list" where \<comment> \<open>the \<^verbatim>\<open>seen\<close> map of \<^verbatim>\<open>Keys\<close>\<close>
  "unseen seen [] = []"
| "unseen seen (k # ks) = (if k \<in> set seen then unseen seen ks else k # unseen (k # seen) ks)"

definition pebble_list_keys :: "('v, 'db) kv \<Rightarrow> string \<Rightarrow> 'db pebble \<Rightarrow> string list" where
  "pebble_list_keys K ns p =
     (if pClosed p then []
      else let pre = list_namespace_prefix ns in
        unseen [] (map (\<lambda>full. take (length full - 9 - length pre) (drop (length pre) full))
          (filter (\<lambda>full. length pre + 9 \<le> length full) (map fst (scan_prefix K pre p)))))"

definition pebble_values :: "('v, 'db) kv \<Rightarrow> string \<Rightarrow> ('v, 'db pebble) value_ops" where
  "pebble_values K ns = \<lparr>vGet = pebble_get K ns, vSet = pebble_set K ns, vClear = pebble_clear K ns,
     vKeys = pebble_keys K ns, vSnapshotAll = pebble_snapshot_all K ns, vRestoreAll = pebble_restore_all K ns\<rparr>"

definition pebble_lists :: "('v, 'db) kv \<Rightarrow> string \<Rightarrow> ('v, 'db pebble) list_ops" where
  "pebble_lists K ns = \<lparr>lAppend = pebble_append K ns, lGetAll = pebble_get_all K ns,
     lClear = pebble_list_clear K ns, lKeys = pebble_list_keys K ns\<rparr>"

lemmas pebble_value_defs = pebble_values_def pebble_get_def pebble_set_def pebble_clear_def
  pebble_keys_def pebble_snapshot_all_def pebble_restore_all_def

section \<open>Facts about the keys\<close>

lemma list_prefix_bytes_eq: "list_prefix_bytes ns key = list_namespace_prefix ns @ key @ [nul]"
proof -
  have "list_entry_key ns key 0 = (list_namespace_prefix ns @ key @ [nul]) @ be 8 0"
    by (simp add: list_namespace_prefix_def list_entry_key_def)
  then show ?thesis by (simp add: list_prefix_bytes_def)
qed

lemma list_entry_key_eq: "list_entry_key ns key seq = list_prefix_bytes ns key @ be 8 (unat seq)"
  by (simp add: list_prefix_bytes_eq list_namespace_prefix_def list_entry_key_def)

lemma nul_not_max [simp]: "nul \<noteq> byte_max"
  by (simp add: byte_max_def char_of_def)

lemma value_user_key_split: "value_user_key ns key = value_prefix_bytes ns @ key"
  by (simp add: value_user_key_def value_prefix_bytes_def)

lemma prefix_value_user_key: "prefix (value_prefix_bytes ns) (value_user_key ns k)"
  by (simp add: value_user_key_split)

lemma value_user_key_inject [simp]: "value_user_key ns k = value_user_key ns k' \<longleftrightarrow> k = k'"
  by (simp add: value_user_key_split)

lemma value_user_key_from_full_append: "value_user_key_from_full ns (value_prefix_bytes ns @ k) = k"
  by (simp add: value_user_key_from_full_def)

lemma bounded_prefixes [simp]:
  "\<exists>c \<in> set (value_prefix_bytes ns). c \<noteq> byte_max"
  "\<exists>c \<in> set (list_prefix_bytes ns key). c \<noteq> byte_max"
  "\<exists>c \<in> set (list_namespace_prefix ns). c \<noteq> byte_max"
  by (auto simp: value_prefix_bytes_def value_user_key_def list_prefix_bytes_eq list_namespace_prefix_def
      intro!: bexI [of _ nul])

lemma unat_64: "unat (w :: 64 word) < 256 ^ 8"
  using unsigned_less [of w] by simp

lemma list_entry_key_inject: "list_entry_key ns key s = list_entry_key ns key t \<longleftrightarrow> s = t"
  by (simp add: list_entry_key_eq be_inject [OF unat_64 unat_64] word_unat_eq_iff)

lemma append_less_append: "(xs @ ys < xs @ zs) = (ys < (zs :: 'a :: linorder list))"
  by (induction xs) simp_all

lemma list_entry_key_less: "list_entry_key ns key s < list_entry_key ns key t \<longleftrightarrow> s < t"
  by (simp add: list_entry_key_eq append_less_append be_less [OF unat_64 unat_64] word_less_nat_alt)

lemma nul_free_split:
  assumes "nul \<notin> set a" and "nul \<notin> set b" and "prefix (a @ [nul]) (b @ nul # xs)"
  shows "a = b"
  using assms
proof (induction a arbitrary: b)
  case Nil
  then show ?case by (cases b) auto
next
  case (Cons c a)
  then show ?case by (cases b) auto
qed

lemma unat_top: "unat (- 1 :: 64 word) = 2 ^ 64 - 1"
  by (simp add: unsigned_minus_1_eq_mask mask_eq_exp_minus_1)

lemma seq_increases:
  fixes w :: "64 word"
  shows "w < - 1 \<Longrightarrow> w < w + 1" and "w < - 2 \<Longrightarrow> w < w + 1" and "w < - 2 \<Longrightarrow> w + 1 < - 1"
proof -
  have "unat (- 2 :: 64 word) = 2 ^ 64 - 2" by simp
  then show "w < - 1 \<Longrightarrow> w < w + 1" "w < - 2 \<Longrightarrow> w < w + 1" "w < - 2 \<Longrightarrow> w + 1 < - 1"
    using unat_top by (simp_all add: word_less_nat_alt unat_word_ariths)
qed

lemma strict_scan_unique:
  assumes "sorted (map fst xs)" "distinct (map fst xs)" "sorted (map fst ys)" "distinct (map fst ys)"
    and "map_of xs = map_of (ys :: ('a :: linorder \<times> 'b) list)"
  shows "xs = ys"
proof -
  have "set xs = set ys" using assms map_of_inject_set by blast
  moreover have "inj_on fst (set xs \<union> set ys)"
    using \<open>set xs = set ys\<close> assms(2) by (simp add: distinct_map)
  ultimately show ?thesis using assms map_sorted_distinct_set_unique by blast
qed

lemma unseen_props: "distinct (unseen seen ks) \<and> set (unseen seen ks) = set ks - set seen"
  by (induction seen ks rule: unseen.induct) auto

lemma strip_prefix_entries:
  assumes "\<forall>k \<in> fst ` set xs. k = pre @ f k"
  shows "map_of (map (\<lambda>(k, v). (f k, v)) xs) q = map_of xs (pre @ q)"
    and "distinct (map fst xs) \<Longrightarrow> distinct (map (f \<circ> fst) xs)"
proof -
  show "map_of (map (\<lambda>(k, v). (f k, v)) xs) q = map_of xs (pre @ q)"
    using assms
  proof (induction xs)
    case (Cons x xs)
    then have "q = f (fst x) \<longleftrightarrow> pre @ q = fst x" by (metis image_eqI list.set_intros(1) same_append_eq)
    with Cons show ?case by (cases x) auto
  qed simp
  have "map fst xs = map (\<lambda>k. pre @ k) (map (f \<circ> fst) xs)" using assms by simp
  then show "distinct (map fst xs) \<Longrightarrow> distinct (map (f \<circ> fst) xs)" by (metis distinct_map)
qed

section \<open>The contract of the store\<close>

locale ordered_kv =
  fixes K :: "('v, 'db) kv"
  assumes get_open: "kGet K k (kOpen K) = None"
    and get_kset: "kGet K k' (kSet K k v d) = (if k' = k then Some v else kGet K k' d)"
    and get_kdelete: "kGet K k' (kDelete K k d) = (if k' = k then None else kGet K k' d)"
    and get_krange: "kGet K k' (kDeleteRange K lo hi d) = (if lo \<le> k' \<and> k' < hi then None else kGet K k' d)"
    and scan_sorted: "sorted (map fst (kScan K lo hi d)) \<and> distinct (map fst (kScan K lo hi d))"
    and scan_get: "map_of (kScan K lo hi d) k = (if lo \<le> k \<and> k < hi then kGet K k d else None)"
begin

lemma scan_prefix_props:
  assumes "\<exists>c \<in> set pre. c \<noteq> byte_max"
  shows "sorted (map fst (scan_prefix K pre p))" and "distinct (map fst (scan_prefix K pre p))"
    and "map_of (scan_prefix K pre p) k = (if prefix pre k then kGet K k (pDb p) else None)"
  using scan_sorted scan_get prefix_range [OF assms] by (simp_all add: scan_prefix_def)

lemma scan_prefix_mem:
  assumes "\<exists>c \<in> set pre. c \<noteq> byte_max"
  shows "(k, v) \<in> set (scan_prefix K pre p) \<longleftrightarrow> prefix pre k \<and> kGet K k (pDb p) = Some v"
proof -
  have "(k, v) \<in> set (scan_prefix K pre p) \<longleftrightarrow> map_of (scan_prefix K pre p) k = Some v"
    using scan_prefix_props(2) [OF assms] by (simp add: map_of_eq_Some_iff)
  then show ?thesis using scan_prefix_props(3) [OF assms] by simp
qed

lemma scan_prefix_fst:
  assumes "\<exists>c \<in> set pre. c \<noteq> byte_max"
  shows "fst ` set (scan_prefix K pre p) = {k. prefix pre k \<and> kGet K k (pDb p) \<noteq> None}"
  using scan_prefix_mem [OF assms] by force

lemma scan_value_keys:
  "\<forall>k \<in> fst ` set (scan_prefix K (value_prefix_bytes ns) p). k = value_prefix_bytes ns @ value_user_key_from_full ns k"
proof
  fix k
  assume "k \<in> fst ` set (scan_prefix K (value_prefix_bytes ns) p)"
  then have "prefix (value_prefix_bytes ns) k" by (auto simp: scan_prefix_mem)
  then show "k = value_prefix_bytes ns @ value_user_key_from_full ns k"
    by (auto simp: prefix_def value_user_key_from_full_append)
qed

lemma pebble_entries:
  assumes "\<not> pClosed p"
  shows "distinct (pebble_keys K ns p)" and "map fst (pebble_snapshot_all K ns p) = pebble_keys K ns p"
    and "map_of (pebble_snapshot_all K ns p) k = pebble_get K ns k p"
proof -
  note strip = strip_prefix_entries [OF scan_value_keys [of ns p]]
  show "distinct (pebble_keys K ns p)"
    using strip(2) assms by (simp add: pebble_keys_def scan_prefix_props(2))
  show "map fst (pebble_snapshot_all K ns p) = pebble_keys K ns p"
    using assms by (simp add: pebble_keys_def pebble_snapshot_all_def case_prod_unfold)
  show "map_of (pebble_snapshot_all K ns p) k = pebble_get K ns k p"
    using strip(1) [of k] assms
    by (simp add: pebble_snapshot_all_def pebble_get_def scan_prefix_props(3) value_user_key_split)
qed

lemma fold_kset:
  "distinct (map fst es) \<Longrightarrow>
    kGet K (value_user_key ns k) (fold (\<lambda>(k, v). kSet K (value_user_key ns k) v) es d) =
      (case map_of es k of Some v \<Rightarrow> Some v | None \<Rightarrow> kGet K (value_user_key ns k) d)"
proof (induction es arbitrary: d)
  case (Cons e es)
  obtain a b where e: "e = (a, b)" by fastforce
  from Cons.prems e have "map_of es a = None" by (simp add: map_of_eq_None_iff)
  with Cons e show ?case by (cases "k = a") (auto simp: get_kset split: option.split)
qed simp

end

sublocale ordered_kv \<subseteq> pv: value_state "pebble_values K ns" "\<lambda>p. \<not> pClosed p" "\<lambda>_. True" for ns
proof
  fix s :: "'db pebble" and k k' v es
  assume open_: "\<not> pClosed s"
  let ?V = "pebble_values K ns"
  show "\<not> pClosed (vSet ?V k v s)" "\<not> pClosed (vClear ?V k s)" "\<not> pClosed (vRestoreAll ?V es s)"
    using open_ by (simp_all add: pebble_value_defs)
  show "vGet ?V k' (vSet ?V k v s) = (if k' = k then Some v else vGet ?V k' s)"
    using open_ by (simp add: pebble_value_defs get_kset)
  show "vGet ?V k' (vClear ?V k s) = (if k' = k then None else vGet ?V k' s)"
    using open_ by (simp add: pebble_value_defs get_kdelete)
  show "distinct (map fst es) \<Longrightarrow> vGet ?V k' (vRestoreAll ?V es s) = map_of es k'"
    using open_ prefix_range [of "value_prefix_bytes ns" "value_user_key ns k'"]
    by (simp add: pebble_value_defs fold_kset get_krange prefix_value_user_key split: option.split)
  have "set (pebble_keys K ns s) = fst ` set (pebble_snapshot_all K ns s)"
    using pebble_entries(2) [OF open_, of ns] by (metis list.set_map)
  then show "distinct (vKeys ?V s) \<and> set (vKeys ?V s) = {k. True \<and> vGet ?V k s \<noteq> None}"
    using pebble_entries [OF open_, of ns]
    by (auto simp: pebble_values_def dom_map_of_conv_image_fst [symmetric])
  show "distinct (map fst (vSnapshotAll ?V s)) \<and>
      (\<forall>k. True \<longrightarrow> map_of (vSnapshotAll ?V s) k = vGet ?V k s) \<and>
      (\<forall>k \<in> fst ` set (vSnapshotAll ?V s). True)"
    using pebble_entries [OF open_, of ns] by (simp add: pebble_values_def)
qed

section \<open>List namespaces\<close>

text \<open>
  The invariant of a list namespace: every entry below its prefix belongs to a key without a zero
  byte, and a seeded counter is past every stored sequence number of its key.
\<close>

definition nul_free :: "string \<Rightarrow> bool" where
  "nul_free key \<longleftrightarrow> nul \<notin> set key"

definition stored_seqs :: "('v, 'db) kv \<Rightarrow> string \<Rightarrow> string \<Rightarrow> 'db pebble \<Rightarrow> 64 word set" where
  "stored_seqs K ns key p = {seq. kGet K (list_entry_key ns key seq) (pDb p) \<noteq> None}"

definition pl_inv :: "('v, 'db) kv \<Rightarrow> string \<Rightarrow> 'db pebble \<Rightarrow> bool" where
  "pl_inv K ns p \<longleftrightarrow> \<not> pClosed p \<and>
     (\<forall>k. prefix (list_namespace_prefix ns) k \<and> kGet K k (pDb p) \<noteq> None \<longrightarrow>
        (\<exists>key seq. nul_free key \<and> k = list_entry_key ns key seq)) \<and>
     (\<forall>key q. nul_free key \<and> pSeqs p (ns, key) = Some q \<longrightarrow> (\<forall>seq \<in> stored_seqs K ns key p. seq < q))"

definition pl_fits :: "('v, 'db) kv \<Rightarrow> string \<Rightarrow> string \<Rightarrow> 'db pebble \<Rightarrow> bool" where
  "pl_fits K ns key p \<longleftrightarrow> (\<forall>seq \<in> stored_seqs K ns key p. seq < - 2) \<and>
     (\<forall>q. pSeqs p (ns, key) = Some q \<longrightarrow> q < - 1)"

lemma list_entry_key_other:
  assumes "nul_free key" and "nul_free key'"
  shows "prefix (list_prefix_bytes ns key) (list_entry_key ns key' seq) \<longleftrightarrow> key = key'"
  using assms nul_free_split [of key key' "be 8 (unat seq)"]
  by (auto simp: list_entry_key_eq list_prefix_bytes_eq nul_free_def)

lemma list_entry_key_cases:
  assumes "nul_free key" and "nul_free key'"
  shows "list_entry_key ns key s = list_entry_key ns key' t \<longleftrightarrow> key = key' \<and> s = t"
  using list_entry_key_other [OF assms, of ns t] list_entry_key_inject
  by (metis list_entry_key_eq prefixI)

lemma prefix_namespace: "prefix (list_namespace_prefix ns) (list_entry_key ns key seq)"
  "prefix (list_prefix_bytes ns key) k \<Longrightarrow> prefix (list_namespace_prefix ns) k"
  by (auto simp: list_entry_key_eq list_prefix_bytes_eq prefix_def)

context ordered_kv
begin

lemma scan_list_entries:
  assumes "pl_inv K ns p" and "nul_free key" and "(k, v) \<in> set (scan_prefix K (list_prefix_bytes ns key) p)"
  obtains seq where "k = list_entry_key ns key seq" and "seq \<in> stored_seqs K ns key p"
proof -
  from assms(3) have k: "prefix (list_prefix_bytes ns key) k" "kGet K k (pDb p) = Some v"
    by (simp_all add: scan_prefix_mem)
  with assms(1) prefix_namespace(2) obtain key' seq where "nul_free key'" "k = list_entry_key ns key' seq"
    unfolding pl_inv_def by (metis option.distinct(1))
  with k assms(2) list_entry_key_other [OF assms(2)] that show ?thesis
    by (auto simp: stored_seqs_def)
qed

lemma scan_after_set:
  assumes "pl_inv K ns p" and "nul_free key" and "\<forall>s \<in> stored_seqs K ns key p. s < seq"
    and "pDb p' = kSet K (list_entry_key ns key seq) v (pDb p)"
  shows "scan_prefix K (list_prefix_bytes ns key) p' =
    scan_prefix K (list_prefix_bytes ns key) p @ [(list_entry_key ns key seq, v)]"
proof (rule strict_scan_unique)
  let ?xs = "scan_prefix K (list_prefix_bytes ns key) p" and ?n = "list_entry_key ns key seq"
  have below: "k < ?n" if "k \<in> set (map fst ?xs)" for k
    using that assms(3) by (auto elim!: scan_list_entries [OF assms(1,2)] simp: list_entry_key_less)
  then show "sorted (map fst (?xs @ [(?n, v)]))" "distinct (map fst (?xs @ [(?n, v)]))"
    using scan_prefix_props(1,2) [of "list_prefix_bytes ns key" p]
    by (auto simp: sorted_append less_imp_le)
  show "map_of (scan_prefix K (list_prefix_bytes ns key) p') = map_of (?xs @ [(?n, v)])"
  proof
    fix k
    have "?n \<notin> fst ` set ?xs" using below by force
    then have "map_of ?xs ?n = None" by (simp add: map_of_eq_None_iff)
    then show "map_of (scan_prefix K (list_prefix_bytes ns key) p') k = map_of (?xs @ [(?n, v)]) k"
      using assms(4)
      by (auto simp: scan_prefix_props(3) get_kset list_entry_key_eq map_add_def split: option.split)
  qed
qed (simp_all add: scan_prefix_props)

lemma scan_unchanged:
  assumes "\<And>k. prefix pre k \<Longrightarrow> kGet K k (pDb p') = kGet K k (pDb p)" and "\<exists>c \<in> set pre. c \<noteq> byte_max"
  shows "scan_prefix K pre p' = scan_prefix K pre p"
  using assms(1) scan_prefix_props [OF assms(2)]
  by (intro strict_scan_unique) (auto simp: fun_eq_iff)

lemma next_list_seq_above:
  assumes "pl_inv K ns p" and "nul_free key" and "pl_fits K ns key p"
  shows "\<forall>s \<in> stored_seqs K ns key p. s < next_list_seq K ns key p"
    and "next_list_seq K ns key p < - 1"
proof -
  let ?xs = "scan_prefix K (list_prefix_bytes ns key) p"
  have mem: "list_entry_key ns key s \<in> set (map fst ?xs)" if "s \<in> stored_seqs K ns key p" for s
  proof -
    from that obtain y where "kGet K (list_entry_key ns key s) (pDb p) = Some y"
      by (auto simp: stored_seqs_def)
    then have "(list_entry_key ns key s, y) \<in> set ?xs"
      by (simp add: scan_prefix_mem) (simp add: list_entry_key_eq)
    then show ?thesis by force
  qed
  have "(\<forall>s \<in> stored_seqs K ns key p. s < next_list_seq K ns key p) \<and> next_list_seq K ns key p < - 1"
  proof (cases "rev ?xs")
    case Nil
    then have "stored_seqs K ns key p = {}" using mem by auto
    with Nil unat_top show ?thesis by (simp add: next_list_seq_def word_less_nat_alt)
  next
    case (Cons x xs)
    obtain k v where x: "x = (k, v)" by fastforce
    have xs: "?xs = rev xs @ [(k, v)]" using Cons x by (metis rev.simps(2) rev_rev_ident)
    then obtain t where t: "k = list_entry_key ns key t" "t \<in> stored_seqs K ns key p"
      using scan_list_entries [OF assms(1,2), of k v] by (metis in_set_conv_decomp)
    have "be_val (be 8 (unat t)) = unat t" by (rule be_val_be [OF unat_64])
    then have nxt: "next_list_seq K ns key p = t + 1"
      using Cons x t(1) by (simp add: next_list_seq_def list_entry_key_eq)
    have "t < - 2" using t(2) assms(3) by (simp add: pl_fits_def)
    then have "t < t + 1" "t + 1 < - 1" by (rule seq_increases)+
    moreover have "s \<le> t" if "s \<in> stored_seqs K ns key p" for s
    proof -
      have "list_entry_key ns key s \<le> k"
        using mem [OF that] scan_prefix_props(1) [of "list_prefix_bytes ns key" p] unfolding xs
        by (auto simp: sorted_append)
      then show ?thesis using t(1) list_entry_key_less by (metis not_le)
    qed
    ultimately show ?thesis unfolding nxt by (meson order.strict_trans1)
  qed
  then show "\<forall>s \<in> stored_seqs K ns key p. s < next_list_seq K ns key p" "next_list_seq K ns key p < - 1"
    by auto
qed

lemma pebble_append_unfold:
  assumes "pl_inv K ns p" and "nul_free key" and "pl_fits K ns key p"
  obtains seq where "pebble_append K ns key v p =
      p\<lparr>pSeqs := (pSeqs p)((ns, key) \<mapsto> seq + 1), pDb := kSet K (list_entry_key ns key seq) v (pDb p)\<rparr>"
    and "\<forall>s \<in> stored_seqs K ns key p. s < seq" and "seq < seq + 1"
proof -
  define seq where "seq = (case pSeqs p (ns, key) of Some q \<Rightarrow> q | None \<Rightarrow> next_list_seq K ns key p)"
  have "\<forall>s \<in> stored_seqs K ns key p. s < seq" "seq < - 1"
    using assms next_list_seq_above [OF assms]
    by (auto simp: seq_def pl_inv_def pl_fits_def split: option.split)
  moreover from \<open>seq < - 1\<close> have "seq < seq + 1" by (rule seq_increases)
  moreover have "\<not> pClosed p" using assms(1) by (simp add: pl_inv_def)
  ultimately show ?thesis using that [of seq] by (simp add: pebble_append_def seq_def Let_def)
qed

lemma pebble_append_inv:
  assumes "pl_inv K ns p" and "nul_free key" and "pl_fits K ns key p"
  shows "pl_inv K ns (pebble_append K ns key v p)"
proof -
  obtain seq where eq: "pebble_append K ns key v p =
      p\<lparr>pSeqs := (pSeqs p)((ns, key) \<mapsto> seq + 1), pDb := kSet K (list_entry_key ns key seq) v (pDb p)\<rparr>"
    and above: "\<forall>s \<in> stored_seqs K ns key p. s < seq" "seq < seq + 1"
    by (rule pebble_append_unfold [OF assms])
  have "s < q" if "nul_free key'" "s \<in> stored_seqs K ns key' (pebble_append K ns key v p)"
      "pSeqs (pebble_append K ns key v p) (ns, key') = Some q" for key' s q
  proof (cases "key' = key")
    case True
    with that above show ?thesis
      by (auto simp: eq stored_seqs_def get_kset list_entry_key_inject split: if_splits dest: order.strict_trans)
  next
    case False
    with that assms show ?thesis
      by (auto simp: eq stored_seqs_def get_kset list_entry_key_cases pl_inv_def)
  qed
  moreover have "\<exists>key' s. nul_free key' \<and> k = list_entry_key ns key' s"
    if "prefix (list_namespace_prefix ns) k" "kGet K k (pDb (pebble_append K ns key v p)) \<noteq> None" for k
    using that assms(1,2) by (auto simp: eq get_kset pl_inv_def split: if_splits)
  moreover have "\<not> pClosed (pebble_append K ns key v p)" using assms(1) by (simp add: eq pl_inv_def)
  ultimately show ?thesis by (auto simp: pl_inv_def)
qed

lemma pebble_append_all:
  assumes "pl_inv K ns p" and "nul_free key" and "pl_fits K ns key p" and "nul_free key'"
  shows "pebble_get_all K ns key' (pebble_append K ns key v p) =
    (if key' = key then pebble_get_all K ns key p @ [v] else pebble_get_all K ns key' p)"
proof -
  obtain seq where eq: "pebble_append K ns key v p =
      p\<lparr>pSeqs := (pSeqs p)((ns, key) \<mapsto> seq + 1), pDb := kSet K (list_entry_key ns key seq) v (pDb p)\<rparr>"
    and above: "\<forall>s \<in> stored_seqs K ns key p. s < seq"
    by (rule pebble_append_unfold [OF assms(1-3)])
  have db: "pDb (pebble_append K ns key v p) = kSet K (list_entry_key ns key seq) v (pDb p)"
    "\<not> pClosed (pebble_append K ns key v p)" "\<not> pClosed p"
    using assms(1) by (simp_all add: eq pl_inv_def)
  show ?thesis
  proof (cases "key' = key")
    case True
    with scan_after_set [OF assms(1,2) above db(1)] db show ?thesis by (simp add: pebble_get_all_def)
  next
    case False
    have "scan_prefix K (list_prefix_bytes ns key') (pebble_append K ns key v p) =
        scan_prefix K (list_prefix_bytes ns key') p"
      using False list_entry_key_other [OF assms(4,2), of ns seq]
      by (intro scan_unchanged) (auto simp: db(1) get_kset)
    with False db show ?thesis by (simp add: pebble_get_all_def)
  qed
qed

lemma pebble_list_clear_get:
  assumes "\<not> pClosed p"
  shows "kGet K k (pDb (pebble_list_clear K ns key p)) =
    (if prefix (list_prefix_bytes ns key) k then None else kGet K k (pDb p))"
  using assms prefix_range [of "list_prefix_bytes ns key" k]
  by (simp add: pebble_list_clear_def get_krange)

lemma pebble_list_clear_same [simp]:
  "pSeqs (pebble_list_clear K ns key p) = pSeqs p" "pClosed (pebble_list_clear K ns key p) = pClosed p"
  by (simp_all add: pebble_list_clear_def)

lemma pebble_list_clear_inv:
  assumes "pl_inv K ns p"
  shows "pl_inv K ns (pebble_list_clear K ns key p)"
proof -
  have "\<not> pClosed p" using assms by (simp add: pl_inv_def)
  note get = pebble_list_clear_get [OF this]
  have "stored_seqs K ns key' (pebble_list_clear K ns key p) \<subseteq> stored_seqs K ns key' p" for key'
    by (auto simp: stored_seqs_def get)
  then have "seq \<in> stored_seqs K ns key' p" if "seq \<in> stored_seqs K ns key' (pebble_list_clear K ns key p)" for seq key'
    using that by blast
  with assms show ?thesis unfolding pl_inv_def by (simp add: get)
qed

lemma pebble_clear_all:
  assumes "pl_inv K ns p" and "nul_free key" and "nul_free key'"
  shows "pebble_get_all K ns key' (pebble_list_clear K ns key p) =
    (if key' = key then [] else pebble_get_all K ns key' p)"
proof -
  have open_: "\<not> pClosed p" using assms(1) by (simp add: pl_inv_def)
  note get = pebble_list_clear_get [OF open_]
  show ?thesis
  proof (cases "key' = key")
    case True
    have "scan_prefix K (list_prefix_bytes ns key) (pebble_list_clear K ns key p) = []"
      using scan_prefix_mem [of "list_prefix_bytes ns key"] get
      by (metis bounded_prefixes(2) list.set_intros(1) neq_Nil_conv option.distinct(1) surj_pair)
    with True show ?thesis by (simp add: pebble_get_all_def)
  next
    case False
    have "scan_prefix K (list_prefix_bytes ns key') (pebble_list_clear K ns key p) =
        scan_prefix K (list_prefix_bytes ns key') p"
    proof (rule strict_scan_unique)
      show "map_of (scan_prefix K (list_prefix_bytes ns key') (pebble_list_clear K ns key p)) =
          map_of (scan_prefix K (list_prefix_bytes ns key') p)"
      proof
        fix k
        have "kGet K k (pDb p) = None"
          if "prefix (list_prefix_bytes ns key') k" "prefix (list_prefix_bytes ns key) k"
        proof (rule ccontr)
          assume "kGet K k (pDb p) \<noteq> None"
          with that(1) assms(1) prefix_namespace(2) obtain kk s where "nul_free kk" "k = list_entry_key ns kk s"
            unfolding pl_inv_def by metis
          with that list_entry_key_other assms False show False by metis
        qed
        then show "map_of (scan_prefix K (list_prefix_bytes ns key') (pebble_list_clear K ns key p)) k =
            map_of (scan_prefix K (list_prefix_bytes ns key') p) k"
          by (simp add: scan_prefix_props(3) get)
      qed
    qed (simp_all add: scan_prefix_props)
    with False open_ show ?thesis by (simp add: pebble_get_all_def)
  qed
qed

lemma pebble_list_keys_set:
  assumes "pl_inv K ns p"
  shows "distinct (pebble_list_keys K ns p)"
    and "set (pebble_list_keys K ns p) = {k. nul_free k \<and> pebble_get_all K ns k p \<noteq> []}"
proof -
  have open_: "\<not> pClosed p" using assms by (simp add: pl_inv_def)
  let ?pre = "list_namespace_prefix ns"
  let ?cut = "\<lambda>full. take (length full - 9 - length ?pre) (drop (length ?pre) full)"
  have cut: "?cut (list_entry_key ns key s) = key" "length ?pre + 9 \<le> length (list_entry_key ns key s)" for key s
    by (simp_all add: list_entry_key_eq list_prefix_bytes_eq)
  show "distinct (pebble_list_keys K ns p)"
    using unseen_props open_ by (simp add: pebble_list_keys_def Let_def)
  have keys: "set (pebble_list_keys K ns p) = ?cut ` {full. prefix ?pre full \<and> kGet K full (pDb p) \<noteq> None \<and> length ?pre + 9 \<le> length full}"
    using open_ scan_prefix_fst [of ?pre p]
    by (auto simp: pebble_list_keys_def Let_def unseen_props)
  have all: "pebble_get_all K ns k p \<noteq> [] \<longleftrightarrow> (\<exists>s. kGet K (list_entry_key ns k s) (pDb p) \<noteq> None)" if nf: "nul_free k" for k
  proof
    assume "pebble_get_all K ns k p \<noteq> []"
    then have "scan_prefix K (list_prefix_bytes ns k) p \<noteq> []" by (auto simp: pebble_get_all_def)
    then obtain x where "x \<in> set (scan_prefix K (list_prefix_bytes ns k) p)" by (metis last_in_set)
    then obtain kk vv where "(kk, vv) \<in> set (scan_prefix K (list_prefix_bytes ns k) p)"
      by (metis surj_pair)
    then obtain s where "s \<in> stored_seqs K ns k p" using scan_list_entries [OF assms nf] by blast
    then show "\<exists>s. kGet K (list_entry_key ns k s) (pDb p) \<noteq> None" by (auto simp: stored_seqs_def)
  next
    assume "\<exists>s. kGet K (list_entry_key ns k s) (pDb p) \<noteq> None"
    then obtain s v where "kGet K (list_entry_key ns k s) (pDb p) = Some v" by auto
    then have "(list_entry_key ns k s, v) \<in> set (scan_prefix K (list_prefix_bytes ns k) p)"
      by (simp add: scan_prefix_mem) (simp add: list_entry_key_eq)
    then show "pebble_get_all K ns k p \<noteq> []" using open_ by (auto simp: pebble_get_all_def)
  qed
  show "set (pebble_list_keys K ns p) = {k. nul_free k \<and> pebble_get_all K ns k p \<noteq> []}"
  proof (intro set_eqI iffI)
    fix k assume "k \<in> set (pebble_list_keys K ns p)"
    then obtain full where f: "k = ?cut full" "prefix ?pre full" "kGet K full (pDb p) \<noteq> None"
      unfolding keys by blast
    with assms obtain key s where "nul_free key" "full = list_entry_key ns key s"
      unfolding pl_inv_def by blast
    with f cut(1) all show "k \<in> {k. nul_free k \<and> pebble_get_all K ns k p \<noteq> []}" by auto
  next
    fix k assume "k \<in> {k. nul_free k \<and> pebble_get_all K ns k p \<noteq> []}"
    with all obtain s where "kGet K (list_entry_key ns k s) (pDb p) \<noteq> None" by blast
    then show "k \<in> set (pebble_list_keys K ns p)"
      unfolding keys using cut prefix_namespace(1) by (intro image_eqI [of _ _ "list_entry_key ns k s"]) auto
  qed
qed

end

sublocale ordered_kv \<subseteq> pl: list_state "pebble_lists K ns" "pl_inv K ns" nul_free "pl_fits K ns" for ns
  by unfold_locales
    (simp_all add: pebble_lists_def pebble_append_inv pebble_append_all pebble_list_clear_inv
      pebble_clear_all pebble_list_keys_set)

section \<open>A reference store\<close>

text \<open>An association list with sorted scans satisfies the contract.\<close>

definition alist_kv :: "('v, (bytes \<times> 'v) list) kv" where
  "alist_kv = \<lparr>kOpen = [], kGet = (\<lambda>k d. map_of d k), kSet = AList.update, kDelete = AList.delete,
     kDeleteRange = (\<lambda>lo hi. filter (\<lambda>(k, v). \<not> (lo \<le> k \<and> k < hi))),
     kScan = (\<lambda>lo hi d. map (\<lambda>k. (k, the (map_of d k)))
       (sort (remdups (filter (\<lambda>k. lo \<le> k \<and> k < hi) (map fst d)))))\<rparr>"

interpretation akv: ordered_kv "alist_kv :: ('v, (bytes \<times> 'v) list) kv"
proof
  fix k k' lo hi :: bytes and v :: 'v and d :: "(bytes \<times> 'v) list"
  show "kGet alist_kv k (kOpen alist_kv) = (None :: 'v option)"
    by (simp add: alist_kv_def)
  show "kGet alist_kv k' (kSet alist_kv k v d) = (if k' = k then Some v else kGet alist_kv k' d)"
    by (simp add: alist_kv_def update_conv')
  show "kGet alist_kv k' (kDelete alist_kv k d) = (if k' = k then None else kGet alist_kv k' d)"
    by (simp add: alist_kv_def delete_conv')
  show "kGet alist_kv k' (kDeleteRange alist_kv lo hi d) =
      (if lo \<le> k' \<and> k' < hi then None else kGet alist_kv k' d)"
    by (induction d) (auto simp: alist_kv_def)
  show "sorted (map fst (kScan alist_kv lo hi d)) \<and> distinct (map fst (kScan alist_kv lo hi d))"
    by (simp add: alist_kv_def comp_def)
  have "map_of (map (\<lambda>k. (k, the (map_of d k))) ks) k = (if k \<in> set ks then Some (the (map_of d k)) else None)" for ks
    by (induction ks) auto
  then have "map_of (kScan alist_kv lo hi d) k =
      (if (lo \<le> k \<and> k < hi) \<and> k \<in> fst ` set d then Some (the (map_of d k)) else None)"
    by (simp add: alist_kv_def conj_commute)
  moreover have "k \<in> fst ` set d \<longleftrightarrow> map_of d k \<noteq> None" by (simp add: map_of_eq_None_iff)
  ultimately show "map_of (kScan alist_kv lo hi d) k = (if lo \<le> k \<and> k < hi then kGet alist_kv k d else None)"
    by (simp only: alist_kv_def kv.select_convs) auto
qed

section \<open>What the backend promises\<close>

text \<open>
  C6. On any store that obeys its contract, a list namespace of the durable backend behaves like a map
  from keys to lists, for keys without a zero byte and below the range of the sequence counter: an
  append adds one entry at the end of its own list, a clear empties its own list, other lists are
  untouched, and the keys listed are those with entries. This also holds right after a restart, when
  the in-memory counters are gone and the next sequence number is read back from the store.
\<close>

theorem pebble_list_refines:
  assumes "ordered_kv K" and "pl_inv K ns p" and "nul_free key" and "nul_free key'"
    and "pl_fits K ns key p"
  shows "\<forall>q \<in> {p, restore_from (pDb p) p}.
      pebble_get_all K ns key' (pebble_append K ns key v q) =
        (if key' = key then pebble_get_all K ns key p @ [v] else pebble_get_all K ns key' p) \<and>
      pebble_get_all K ns key' (pebble_list_clear K ns key q) =
        (if key' = key then [] else pebble_get_all K ns key' p) \<and>
      set (pebble_list_keys K ns q) = {k. nul_free k \<and> pebble_get_all K ns k p \<noteq> []} \<and>
      pl_inv K ns (pebble_append K ns key v q) \<and> pl_inv K ns (pebble_list_clear K ns key q)"
proof
  fix q
  assume q: "q \<in> {p, restore_from (pDb p) p}"
  have inv: "pl_inv K ns q" "pl_fits K ns key q"
    using q assms(2,5) by (auto simp: pl_inv_def pl_fits_def restore_from_def stored_seqs_def)
  have all: "pebble_get_all K ns k q = pebble_get_all K ns k p" for k
    using q assms(2) by (auto simp: pebble_get_all_def restore_from_def scan_prefix_def pl_inv_def)
  show "pebble_get_all K ns key' (pebble_append K ns key v q) =
        (if key' = key then pebble_get_all K ns key p @ [v] else pebble_get_all K ns key' p) \<and>
      pebble_get_all K ns key' (pebble_list_clear K ns key q) =
        (if key' = key then [] else pebble_get_all K ns key' p) \<and>
      set (pebble_list_keys K ns q) = {k. nul_free k \<and> pebble_get_all K ns k p \<noteq> []} \<and>
      pl_inv K ns (pebble_append K ns key v q) \<and> pl_inv K ns (pebble_list_clear K ns key q)"
    using ordered_kv.pebble_append_all [OF assms(1) inv(1) assms(3) inv(2) assms(4)]
      ordered_kv.pebble_clear_all [OF assms(1) inv(1) assms(3,4)]
      ordered_kv.pebble_list_keys_set(2) [OF assms(1) inv(1)]
      ordered_kv.pebble_append_inv [OF assms(1) inv(1) assms(3) inv(2)]
      ordered_kv.pebble_list_clear_inv [OF assms(1) inv(1)]
    by (simp add: all)
qed

definition witness_backend :: "(bytes \<times> string) list pebble" where
  "witness_backend = pebble_append alist_kv ''w'' ''k'' ''one'' (open_pebble (kOpen alist_kv))"

lemma witness_backend_ok:
  "pl_inv alist_kv ''w'' witness_backend" "pl_fits alist_kv ''w'' ''k'' witness_backend"
proof -
  have empty: "pl_inv alist_kv ''w'' (open_pebble (kOpen alist_kv :: (bytes \<times> string) list))"
    "pl_fits alist_kv ''w'' ''k'' (open_pebble (kOpen alist_kv :: (bytes \<times> string) list))"
    by (simp_all add: pl_inv_def pl_fits_def open_pebble_def stored_seqs_def akv.get_open)
  then show "pl_inv alist_kv ''w'' witness_backend"
    unfolding witness_backend_def by (intro akv.pebble_append_inv) (simp_all add: nul_free_def)
  have db: "pSeqs witness_backend (''w'', ''k'') = Some 1"
    "pDb witness_backend = [(list_entry_key ''w'' ''k'' 0, ''one'')]"
    by (simp_all add: witness_backend_def pebble_append_def open_pebble_def next_list_seq_def scan_prefix_def alist_kv_def Let_def)
  have "stored_seqs alist_kv ''w'' ''k'' witness_backend = {0}"
    by (auto simp: stored_seqs_def db alist_kv_def list_entry_key_inject)
  then show "pl_fits alist_kv ''w'' ''k'' witness_backend"
    using unat_top by (simp add: pl_fits_def db word_less_nat_alt)
qed

theorem pebble_list_refines_witness:
  "pebble_get_all alist_kv ''w'' ''k'' (pebble_append alist_kv ''w'' ''k'' ''two'' (restore_from (pDb witness_backend) witness_backend)) =
     pebble_get_all alist_kv ''w'' ''k'' witness_backend @ [''two''] \<and>
   pebble_get_all alist_kv ''w'' ''k'' (pebble_list_clear alist_kv ''w'' ''k'' witness_backend) = [] \<and>
   pl_inv alist_kv ''w'' (pebble_append alist_kv ''w'' ''k'' ''two'' witness_backend)"
  using pebble_list_refines [of alist_kv "''w''" witness_backend "''k''" "''k''" "''two''"] witness_backend_ok
  by (simp add: nul_free_def akv.ordered_kv_axioms)

text \<open>
  C22. The zero byte separates the parts of an entry key, so keys that contain one are not kept apart,
  although the comment on \<^verbatim>\<open>Keys\<close> calls the layout robust against such keys: whatever is appended to
  the list of \<open>a\<close>, zero byte, \<open>b\<close> also shows up in the list of \<open>a\<close>, and clearing the list of \<open>a\<close>
  removes it.
\<close>

theorem pebble_list_nul_mixes:
  assumes "ordered_kv K" and "\<not> pClosed p"
  shows "v \<in> set (pebble_get_all K ns a (pebble_append K ns (a @ nul # b) v p)) \<and>
    pebble_get_all K ns (a @ nul # b) (pebble_list_clear K ns a p) = []"
proof -
  have pre: "prefix (list_prefix_bytes ns a) (list_entry_key ns (a @ nul # b) s)"
    "prefix (list_prefix_bytes ns a) (list_prefix_bytes ns (a @ nul # b))" for s
    by (simp_all add: list_entry_key_eq list_prefix_bytes_eq)
  have "\<exists>s. (list_entry_key ns (a @ nul # b) s, v) \<in>
      set (scan_prefix K (list_prefix_bytes ns a) (pebble_append K ns (a @ nul # b) v p))"
    using assms(2) pre(1)
    by (auto simp: ordered_kv.scan_prefix_mem [OF assms(1)] pebble_append_def Let_def ordered_kv.get_kset [OF assms(1)])
  then have "v \<in> set (pebble_get_all K ns a (pebble_append K ns (a @ nul # b) v p))"
    using assms(2) by (force simp: pebble_get_all_def pebble_append_def Let_def)
  moreover have "x \<notin> set (scan_prefix K (list_prefix_bytes ns (a @ nul # b)) (pebble_list_clear K ns a p))" for x
    using ordered_kv.pebble_list_clear_get [OF assms] pre(2)
    by (cases x) (auto simp: ordered_kv.scan_prefix_mem [OF assms(1)] dest: prefix_order.trans)
  then have "scan_prefix K (list_prefix_bytes ns (a @ nul # b)) (pebble_list_clear K ns a p) = []"
    by (metis last_in_set)
  ultimately show ?thesis by (simp add: pebble_get_all_def)
qed

theorem pebble_list_nul_mixes_witness:
  "''v'' \<in> set (pebble_get_all alist_kv ''w'' ''a'' (pebble_append alist_kv ''w'' (''a'' @ nul # ''b'') ''v'' (open_pebble []))) \<and>
   pebble_get_all alist_kv ''w'' (''a'' @ nul # ''b'') (pebble_list_clear alist_kv ''w'' ''a'' (open_pebble ([] :: (bytes \<times> string) list))) = []"
  by (rule pebble_list_nul_mixes) (simp_all add: akv.ordered_kv_axioms open_pebble_def)

end
