(* ===== verification/Window_Invariant.thy ===== *)
theory Window_Invariant
  imports Window_Correct
begin

text \<open>
  The invariant of the window operator's buffer, for every assigner: each buffered record lies in the
  window it is filed under and has its key, no buffered window is already due, and the sessions of one
  key do not overlap; and the properties that rest on it.
\<close>

section \<open>What one assignment does\<close>

lemma fold_min_props:
  fixes a :: int
  shows "fold (\<lambda>e a. min a (f e)) xs a \<le> a" and "x \<in> set xs \<Longrightarrow> fold (\<lambda>e a. min a (f e)) xs a \<le> f x"
    and "fold (\<lambda>e a. min a (f e)) xs a = a \<or> (\<exists>x \<in> set xs. fold (\<lambda>e a. min a (f e)) xs a = f x)"
proof -
  have *: "fold (\<lambda>e a. min a (f e)) xs a \<le> a \<and> (\<forall>x \<in> set xs. fold (\<lambda>e a. min a (f e)) xs a \<le> f x) \<and>
      (fold (\<lambda>e a. min a (f e)) xs a = a \<or> (\<exists>x \<in> set xs. fold (\<lambda>e a. min a (f e)) xs a = f x))"
  proof (induction xs arbitrary: a)
    case (Cons x xs)
    from Cons.IH [of "min a (f x)"] show ?case by (auto simp: min_def split: if_splits)
  qed simp
  then show "fold (\<lambda>e a. min a (f e)) xs a \<le> a"
    and "x \<in> set xs \<Longrightarrow> fold (\<lambda>e a. min a (f e)) xs a \<le> f x"
    and "fold (\<lambda>e a. min a (f e)) xs a = a \<or> (\<exists>x \<in> set xs. fold (\<lambda>e a. min a (f e)) xs a = f x)"
    by blast+
qed

lemma fold_max_props:
  fixes a :: int
  shows "a \<le> fold (\<lambda>e a. max a (f e)) xs a" and "x \<in> set xs \<Longrightarrow> f x \<le> fold (\<lambda>e a. max a (f e)) xs a"
    and "fold (\<lambda>e a. max a (f e)) xs a = a \<or> (\<exists>x \<in> set xs. fold (\<lambda>e a. max a (f e)) xs a = f x)"
proof -
  have *: "a \<le> fold (\<lambda>e a. max a (f e)) xs a \<and> (\<forall>x \<in> set xs. f x \<le> fold (\<lambda>e a. max a (f e)) xs a) \<and>
      (fold (\<lambda>e a. max a (f e)) xs a = a \<or> (\<exists>x \<in> set xs. fold (\<lambda>e a. max a (f e)) xs a = f x))"
  proof (induction xs arbitrary: a)
    case (Cons x xs)
    from Cons.IH [of "max a (f x)"] show ?case by (auto simp: max_def split: if_splits)
  qed simp
  then show "a \<le> fold (\<lambda>e a. max a (f e)) xs a"
    and "x \<in> set xs \<Longrightarrow> f x \<le> fold (\<lambda>e a. max a (f e)) xs a"
    and "fold (\<lambda>e a. max a (f e)) xs a = a \<or> (\<exists>x \<in> set xs. fold (\<lambda>e a. max a (f e)) xs a = f x)"
    by blast+
qed

text \<open>
  The sessions a new window touches, and the window its record ends up in: its own, or the hull of its
  own and those sessions.
\<close>

definition removed_windows :: "window_cfg \<Rightarrow> string list \<Rightarrow> string \<Rightarrow> window \<Rightarrow> string list" where
  "removed_windows cfg ks key win = (if is_session (woAssigner cfg) then overlapping key win ks else [])"

definition merged_window :: "window_cfg \<Rightarrow> string list \<Rightarrow> string \<Rightarrow> window \<Rightarrow> window" where
  "merged_window cfg ks key win =
     \<lparr>wStart = fold (\<lambda>e a. min a (wStart (key_window e))) (removed_windows cfg ks key win) (wStart win),
      wEnd = fold (\<lambda>e a. max a (wEnd (key_window e))) (removed_windows cfg ks key win) (wEnd win)\<rparr>"

lemma merged_window_props:
  shows "wStart (merged_window cfg ks key win) \<le> wStart win" and "wEnd win \<le> wEnd (merged_window cfg ks key win)"
    and "e \<in> set (removed_windows cfg ks key win) \<Longrightarrow>
      wStart (merged_window cfg ks key win) \<le> wStart (key_window e) \<and> wEnd (key_window e) \<le> wEnd (merged_window cfg ks key win)"
    and "wStart (merged_window cfg ks key win) = wStart win \<or>
      (\<exists>e \<in> set (removed_windows cfg ks key win). wStart (merged_window cfg ks key win) = wStart (key_window e))"
    and "wEnd (merged_window cfg ks key win) = wEnd win \<or>
      (\<exists>e \<in> set (removed_windows cfg ks key win). wEnd (merged_window cfg ks key win) = wEnd (key_window e))"
  unfolding merged_window_def window.select_convs
  by (rule fold_min_props fold_max_props | (rule conjI, rule fold_min_props, assumption, rule fold_max_props, assumption))+

lemma removed_overlap:
  assumes "e \<in> set (removed_windows cfg ks key win)"
  shows "wkKey (parse_window_key e) = key" "wStart win < wEnd (key_window e)" "wStart (key_window e) < wEnd win" "e \<in> set ks"
  using assms by (auto simp: removed_windows_def overlapping_def split: if_splits)

context window_backend
begin

lemma assign_to_window_effect:
  fixes cfg :: window_cfg and key :: string and win :: window
  assumes "inv s" and "distinct ks"
  defines "target \<equiv> window_key_string (to_window_key key (merged_window cfg ks key win))"
    and "gone \<equiv> removed_windows cfg ks key win"
  shows "inv (assign_to_window L cfg ks key j win s) \<and>
    lGetAll L k (assign_to_window L cfg ks key j win s) =
      (if k = target then (if k \<in> set gone then [] else lGetAll L k s) @ concat (map (\<lambda>e. lGetAll L e s) gone) @ [j]
       else if k \<in> set gone then [] else lGetAll L k s)"
proof (cases "gone = []")
  case True
  then have eq: "assign_to_window L cfg ks key j win s = lAppend L (window_key_string (to_window_key key win)) j s"
    by (simp add: assign_to_window_def gone_def removed_windows_def)
  moreover have "target = window_key_string (to_window_key key win)"
    using True by (simp add: target_def merged_window_def gone_def to_window_key_def)
  ultimately show ?thesis using True assms(1) by (simp add: inv_append all_append)
next
  case False
  have clr: "inv (fold (lClear L) gone s)"
    "lGetAll L k' (fold (lClear L) gone s) = (if k' \<in> set gone then [] else lGetAll L k' s)" for k'
    using all_clear_all [OF assms(1), of gone] by auto
  let ?m = "concat (map (\<lambda>e. lGetAll L e s) gone)"
  have app: "inv (fold (lAppend L target) ?m (fold (lClear L) gone s))"
    "lGetAll L k' (fold (lAppend L target) ?m (fold (lClear L) gone s)) =
      (if k' = target then lGetAll L target (fold (lClear L) gone s) @ ?m else lGetAll L k' (fold (lClear L) gone s))" for k'
    using append_all [OF clr(1), where k = target and k' = k' and vs = ?m] by auto
  have "assign_to_window L cfg ks key j win s =
      lAppend L target j (fold (lAppend L target) ?m (fold (lClear L) gone s))"
    using False
    by (simp add: assign_to_window_def target_def merged_window_def gone_def removed_windows_def Let_def)
  then show ?thesis using app clr by (simp add: inv_append all_append)
qed

end

section \<open>The invariant\<close>

lemma key_window_int64 [simp]: "in_int64 (wStart (key_window k))" "in_int64 (wEnd (key_window k))"
  by (simp_all add: key_window_def parse_window_key_def in_int64_def [of 0] split: option.split)

definition window_fits :: "window \<Rightarrow> bool" where
  "window_fits w \<longleftrightarrow> in_int64 (wStart w) \<and> in_int64 (wEnd w)"

lemma nano_window_id: "window_fits w \<Longrightarrow> nano_window w = w"
  by (simp add: nano_window_def window_fits_def)

lemma merged_window_fits: "window_fits win \<Longrightarrow> window_fits (merged_window cfg ks key win)"
  using merged_window_props(4,5) [of cfg ks key win] by (auto simp: window_fits_def)

text \<open>A record the configuration can place: its windows contain it and lie in the nanosecond range.\<close>

definition placeable :: "window_cfg \<Rightarrow> rec \<Rightarrow> bool" where
  "placeable cfg r \<longleftrightarrow> assignable (woAssigner cfg) (rTimestamp r) \<and> in_int64 (rTimestamp r) \<and>
     (case assign_windows (woAssigner cfg) (rTimestamp r) of
        None \<Rightarrow> False | Some ws \<Rightarrow> \<forall>w \<in> set ws. window_fits w)"

definition overlap :: "window \<Rightarrow> window \<Rightarrow> bool" where
  "overlap v w \<longleftrightarrow> wStart v < wEnd w \<and> wStart w < wEnd v"

definition filed_ok :: "string \<Rightarrow> record_json \<Rightarrow> bool" where
  "filed_ok k j \<longleftrightarrow> window_key_string (parse_window_key k) = k \<and> wkKey (parse_window_key k) = jKey j \<and>
     contains_ts (key_window k) (jTimestamp j)"

definition buffer_inv :: "(record_json, 's) list_ops \<Rightarrow> window_cfg \<Rightarrow> gotime \<Rightarrow> 's \<Rightarrow> bool" where
  "buffer_inv L cfg wm s \<longleftrightarrow>
     (\<forall>k. \<forall>j \<in> set (lGetAll L k s). filed_ok k j) \<and>
     (\<forall>k. lGetAll L k s \<noteq> [] \<longrightarrow> wm < fire_at cfg k) \<and>
     (is_session (woAssigner cfg) \<longrightarrow>
       (\<forall>k k'. lGetAll L k s \<noteq> [] \<and> lGetAll L k' s \<noteq> [] \<and> k \<noteq> k' \<and>
          wkKey (parse_window_key k) = wkKey (parse_window_key k') \<longrightarrow> \<not> overlap (key_window k) (key_window k')))"

context window_backend
begin

lemma buffer_inv_empty: "\<forall>k. lGetAll L k s = [] \<Longrightarrow> buffer_inv L cfg wm s"
  by (simp add: buffer_inv_def)

lemma target_parse:
  "parse_window_key (window_key_string (to_window_key key w)) = to_window_key key w"
  "window_fits w \<Longrightarrow> key_window (window_key_string (to_window_key key w)) = w"
  by (rule window_key_reparse) (simp add: key_window_string nano_window_id)

lemma hull_disjoint:
  assumes "\<And>e. e \<in> set (removed_windows cfg ks key win) \<Longrightarrow> \<not> overlap (key_window e) v"
    and "\<not> overlap win v" and "wStart v < wEnd v" and "wStart win < wEnd win"
  shows "\<not> overlap (merged_window cfg ks key win) v"
proof
  let ?m = "merged_window cfg ks key win"
  assume o: "overlap ?m v"
  consider "wEnd v \<le> wStart win" | "wEnd win \<le> wStart v"
    using assms(2) by (force simp: overlap_def)
  then show False
  proof cases
    case 1
    with o have "wStart ?m \<noteq> wStart win" by (auto simp: overlap_def)
    then obtain e where e: "e \<in> set (removed_windows cfg ks key win)" "wStart ?m = wStart (key_window e)"
      using merged_window_props(4) by blast
    with o 1 removed_overlap(2) [OF e(1)] assms(1) [OF e(1)] assms(3) show False by (auto simp: overlap_def)
  next
    case 2
    with o have "wEnd ?m \<noteq> wEnd win" by (auto simp: overlap_def)
    then obtain e where e: "e \<in> set (removed_windows cfg ks key win)" "wEnd ?m = wEnd (key_window e)"
      using merged_window_props(5) by blast
    with o 2 removed_overlap(3) [OF e(1)] assms(1) [OF e(1)] assms(3) show False by (auto simp: overlap_def)
  qed
qed

lemma filed_nonempty: "filed_ok k j \<Longrightarrow> wStart (key_window k) < wEnd (key_window k)"
  by (auto simp: filed_ok_def contains_ts_def)

lemma assign_filed:
  assumes inv: "inv s" and b: "buffer_inv L cfg wm s" and ks: "distinct ks"
    and j: "jKey j = key" "contains_ts win (jTimestamp j)" and fits: "window_fits win"
    and in': "j' \<in> set (lGetAll L k (assign_to_window L cfg ks key j win s))"
  shows "filed_ok k j'"
proof -
  let ?m = "merged_window cfg ks key win" and ?gone = "removed_windows cfg ks key win"
  let ?t = "window_key_string (to_window_key key ?m)"
  note tgt = target_parse(1) [of key ?m] target_parse(2) [OF merged_window_fits [OF fits], of key cfg ks key]
  note eff = conjunct2 [OF assign_to_window_effect [OF inv ks, of cfg key j win k]]
  have filed: "filed_ok k' j''" if "j'' \<in> set (lGetAll L k' s)" for k' j''
    using b that by (auto simp: buffer_inv_def)
  show ?thesis
  proof (cases "k = ?t")
    case False
    with in' eff filed show ?thesis by (auto split: if_splits)
  next
    case True
    from in' eff True consider "j' \<in> set (lGetAll L k s)"
      | e where "e \<in> set ?gone" "j' \<in> set (lGetAll L e s)" | "j' = j"
      by (auto split: if_splits)
    then show ?thesis
    proof cases
      case 1
      with filed show ?thesis by blast
    next
      case (2 e)
      with filed have f: "filed_ok e j'" by blast
      with removed_overlap(1) [OF 2(1)] merged_window_props(3) [OF 2(1)] tgt True show ?thesis
        by (auto simp: filed_ok_def contains_ts_def to_window_key_def)
    next
      case 3
      with j merged_window_props(1) [of cfg ks key win] merged_window_props(2) [of win cfg ks key] tgt True show ?thesis
        by (auto simp: filed_ok_def contains_ts_def to_window_key_def)
    qed
  qed
qed

lemma assign_open:
  assumes inv: "inv s" and b: "buffer_inv L cfg wm s" and ks: "distinct ks"
    and open_: "wm < wEnd win + woAllowed cfg" and fits: "window_fits win"
    and ne: "lGetAll L k (assign_to_window L cfg ks key j win s) \<noteq> []"
  shows "wm < fire_at cfg k"
proof -
  let ?m = "merged_window cfg ks key win"
  note eff = conjunct2 [OF assign_to_window_effect [OF inv ks, of cfg key j win k]]
  show ?thesis
  proof (cases "k = window_key_string (to_window_key key ?m)")
    case True
    with target_parse(2) [OF merged_window_fits [OF fits], of key cfg ks key] have "wEnd (key_window k) = wEnd ?m"
      by simp
    with open_ merged_window_props(2) [of win cfg ks key] show ?thesis by (simp add: fire_at_def)
  next
    case False
    with ne eff have "lGetAll L k s \<noteq> []" by (auto split: if_splits)
    with b show ?thesis by (simp add: buffer_inv_def)
  qed
qed

lemma assign_disjoint:
  assumes inv: "inv s" and b: "buffer_inv L cfg wm s" and ks: "lists_keys L s ks"
    and fits: "window_fits win" and ne: "wStart win < wEnd win" and sess: "is_session (woAssigner cfg)"
    and k: "lGetAll L k (assign_to_window L cfg ks key j win s) \<noteq> []"
    and k': "lGetAll L k' (assign_to_window L cfg ks key j win s) \<noteq> []" and "k \<noteq> k'"
    and same: "wkKey (parse_window_key k) = wkKey (parse_window_key k')"
  shows "\<not> overlap (key_window k) (key_window k')"
proof -
  let ?m = "merged_window cfg ks key win" and ?gone = "removed_windows cfg ks key win"
  let ?t = "window_key_string (to_window_key key ?m)"
  have d: "distinct ks" using ks by (simp add: lists_keys_def)
  note eff = conjunct2 [OF assign_to_window_effect [OF inv d, of cfg key j win]]
  have old: "\<not> overlap (key_window a) (key_window c)"
    if "lGetAll L a s \<noteq> []" "lGetAll L c s \<noteq> []" "a \<noteq> c" "wkKey (parse_window_key a) = wkKey (parse_window_key c)" for a c
    using b sess that by (auto simp: buffer_inv_def)
  have sym: "overlap v w \<longleftrightarrow> overlap w v" for v w by (auto simp: overlap_def)
  have target: "\<not> overlap (key_window ?t) (key_window c)"
    if c: "lGetAll L c s \<noteq> []" "c \<notin> set ?gone" "wkKey (parse_window_key c) = key" for c
  proof -
    have "c \<in> set ks" using c(1) ks keys_eq [OF inv] by (auto simp: lists_keys_def)
    then have "\<not> overlap win (key_window c)"
      using c(2,3) sess by (auto simp: removed_windows_def overlapping_def overlap_def)
    moreover have "\<not> overlap (key_window e) (key_window c)" if e: "e \<in> set ?gone" for e
    proof -
      have "e \<in> set (lKeys L s)" using removed_overlap(4) [OF e] ks by (simp add: lists_keys_def)
      then have "lGetAll L e s \<noteq> []" using keys_eq [OF inv] by blast
      moreover have "e \<noteq> c" using e c(2) by blast
      ultimately show ?thesis using old c(1,3) removed_overlap(1) [OF e] by metis
    qed
    moreover have "wStart (key_window c) < wEnd (key_window c)"
    proof -
      obtain j0 where "j0 \<in> set (lGetAll L c s)" using c(1) by (meson last_in_set)
      with b have "filed_ok c j0" unfolding buffer_inv_def by blast
      then show ?thesis by (rule filed_nonempty)
    qed
    ultimately have "\<not> overlap ?m (key_window c)" using hull_disjoint ne by blast
    then show ?thesis using target_parse(2) [OF merged_window_fits [OF fits], of key cfg ks key] by simp
  qed
  have tk: "wkKey (parse_window_key ?t) = key" unfolding target_parse(1) by (simp add: to_window_key_def)
  consider "k = ?t" | "k' = ?t" | "k \<noteq> ?t" "k' \<noteq> ?t" by blast
  then show ?thesis
  proof cases
    case 1
    with k' eff [of k'] \<open>k \<noteq> k'\<close> have "lGetAll L k' s \<noteq> []" "k' \<notin> set ?gone" by (auto split: if_splits)
    with target [of k'] same tk 1 show ?thesis by simp
  next
    case 2
    with k eff [of k] \<open>k \<noteq> k'\<close> have "lGetAll L k s \<noteq> []" "k \<notin> set ?gone" by (auto split: if_splits)
    with target [of k] same tk 2 show ?thesis by (simp add: sym)
  next
    case 3
    with k k' eff old \<open>k \<noteq> k'\<close> same show ?thesis by (auto split: if_splits)
  qed
qed

lemma assign_buffer_inv:
  assumes inv: "inv s" and b: "buffer_inv L cfg wm s" and ks: "distinct ks"
    and sess: "is_session (woAssigner cfg) \<Longrightarrow> lists_keys L s ks"
    and j: "jKey j = key" "contains_ts win (jTimestamp j)" and fits: "window_fits win"
    and open_: "wm < wEnd win + woAllowed cfg"
  shows "buffer_inv L cfg wm (assign_to_window L cfg ks key j win s)"
proof -
  have ne: "wStart win < wEnd win" using j(2) by (simp add: contains_ts_def)
  show ?thesis
    unfolding buffer_inv_def
    using assign_filed [OF inv b ks j fits] assign_open [OF inv b ks open_ fits]
      assign_disjoint [OF inv b sess fits ne]
    by blast
qed

lemma assign_all_buffer_inv:
  assumes "inv s" and "buffer_inv L cfg wm s" and ks: "lists_keys L s ks" and j: "jKey j = key"
    and one: "is_session (woAssigner cfg) \<Longrightarrow> \<exists>w. wins = [w]"
    and wins: "\<forall>w \<in> set wins. contains_ts w (jTimestamp j) \<and> window_fits w \<and> wm < wEnd w + woAllowed cfg"
  shows "inv (fold (assign_to_window L cfg ks key j) wins s) \<and>
    buffer_inv L cfg wm (fold (assign_to_window L cfg ks key j) wins s)"
proof (cases "is_session (woAssigner cfg)")
  case True
  then obtain w where "wins = [w]" using one by blast
  with assign_buffer_inv [OF assms(1,2) _ ks j, of w] assign_to_window_effect [OF assms(1)] wins ks show ?thesis
    by (simp add: lists_keys_def)
next
  case False
  have d: "distinct ks" using ks by (simp add: lists_keys_def)
  from assms(1,2) wins show ?thesis
  proof (induction wins arbitrary: s)
    case (Cons w wins)
    have "buffer_inv L cfg wm (assign_to_window L cfg ks key j w s)"
      using Cons.prems False by (intro assign_buffer_inv [OF Cons.prems(1,2) d _ j]) auto
    moreover have "inv (assign_to_window L cfg ks key j w s)"
      using assign_to_window_effect [OF Cons.prems(1) d] by blast
    ultimately show ?case using Cons by simp
  qed simp
qed

lemma accepted_window_open:
  assumes "placeable cfg r" and "\<not> is_too_late cfg wm (rTimestamp r)" and "0 \<le> woAllowed cfg"
    and "assign_windows (woAssigner cfg) (rTimestamp r) = Some ws" and "w \<in> set ws"
  shows "contains_ts w (rTimestamp r) \<and> window_fits w \<and> wm < wEnd w + woAllowed cfg"
proof -
  have w: "contains_ts w (rTimestamp r)" "window_fits w"
    using assms asg.assigned [of "woAssigner cfg" "rTimestamp r"] by (auto simp: placeable_def)
  have "wm < wEnd w + woAllowed cfg"
  proof (cases "is_zero_time wm")
    case True
    have "zero_time < wEnd w" using w(2) by (simp add: window_fits_def in_int64_def zero_time_def)
    with True assms(3) show ?thesis by (simp add: is_zero_time_def)
  next
    case False
    with assms(2) w(1) show ?thesis by (auto simp: is_too_late_def contains_ts_def)
  qed
  with w show ?thesis by blast
qed

lemma session_single:
  assumes "is_session a" and "assign_windows a ts = Some ws"
  shows "\<exists>w. ws = [w]"
  using assms by (auto simp: is_session_def assign_windows_def session_assign_def split: assigner.splits)

lemma buffer_inv_sub:
  assumes "buffer_inv L cfg wm s" and "\<And>k. lGetAll L k s' = [] \<or> lGetAll L k s' = lGetAll L k s"
    and "\<And>k. lGetAll L k s' \<noteq> [] \<Longrightarrow> wm' < fire_at cfg k"
  shows "buffer_inv L cfg wm' s'"
proof -
  have "filed_ok k j" if "j \<in> set (lGetAll L k s')" for k j
    using that assms(1) assms(2) [of k] by (auto simp: buffer_inv_def)
  moreover have ne: "lGetAll L k s \<noteq> []" if "lGetAll L k s' \<noteq> []" for k
    using that assms(2) [of k] by auto
  moreover have "\<not> overlap (key_window k) (key_window k')"
    if "is_session (woAssigner cfg)" "lGetAll L k s' \<noteq> []" "lGetAll L k' s' \<noteq> []" "k \<noteq> k'"
      "wkKey (parse_window_key k) = wkKey (parse_window_key k')" for k k'
    using that ne [of k] ne [of k'] assms(1) by (simp add: buffer_inv_def)
  ultimately show ?thesis using assms(3) by (simp add: buffer_inv_def)
qed

lemma win_step_buffer_inv:
  assumes inv: "inv (woBackend op)" and b: "buffer_inv L cfg (woWatermark op) (woBackend op)"
    and ks: "lists_keys L (woBackend op) (event_keys ev)" and allowed: "0 \<le> woAllowed cfg"
    and ok: "\<forall>r \<in> set (accepts cfg op ev). placeable cfg r"
    and step: "win_step L V cfg ev op = Some (op', out)"
  shows "inv (woBackend op') \<and> buffer_inv L cfg (woWatermark op') (woBackend op') \<and>
    (woStopped op' \<longrightarrow> woStopped op \<or> (\<forall>k. lGetAll L k (woBackend op') = []))"
proof -
  have d: "distinct (event_keys ev)" and all: "set (event_keys ev) = {k. lGetAll L k (woBackend op) \<noteq> []}"
    using ks keys_eq [OF inv] by (auto simp: lists_keys_def)
  have flush: "inv (woBackend op') \<and> buffer_inv L cfg (woWatermark op') (woBackend op') \<and>
      (\<forall>k. lGetAll L k (woBackend op') = [])"
    if "flush_remaining L cfg (event_keys ev) op = (op', out)"
  proof -
    have "woBackend op' = fst (fire_windows L cfg (event_keys ev) (woBackend op))"
      using that by (auto simp: flush_remaining_def case_prod_unfold Let_def)
    with fire_windows_effect [OF inv d, of cfg] all
    have "inv (woBackend op')" "\<forall>k. lGetAll L k (woBackend op') = []" by auto
    then show ?thesis using buffer_inv_empty by blast
  qed
  show ?thesis
  proof (cases ev)
    case (Arrive r ks')
    consider "isWatermark r" | "\<not> isWatermark r" "isBarrier r"
      | "is_data r" "is_too_late cfg (woWatermark op) (rTimestamp r)"
      | "is_data r" "\<not> is_too_late cfg (woWatermark op) (rTimestamp r)"
      by (auto simp: is_marker_def)
    then show ?thesis
    proof cases
      case 1
      define s where "s = (if woWatermark op < rTimestamp r then store_watermark V (rTimestamp r) (woBackend op) else woBackend op)"
      define wm where "wm = max (woWatermark op) (rTimestamp r)"
      have s: "inv s" "lGetAll L k s = lGetAll L k (woBackend op)" for k
        using inv by (simp_all add: s_def store_watermark_keeps)
      let ?closed = "filter (\<lambda>k. \<not> wm < fire_at cfg k) ks'"
      have op': "woWatermark op' = wm" "woBackend op' = fst (fire_windows L cfg ?closed s)" "woStopped op' = woStopped op"
        using step 1 Arrive
        by (auto simp: handle_watermark_def s_def wm_def Let_def case_prod_unfold max_def split: if_splits)
      have "distinct ?closed" using d Arrive by simp
      note eff = fire_windows_effect [OF s(1) this, of cfg]
      have after: "lGetAll L k (woBackend op') = (if k \<in> set ?closed then [] else lGetAll L k (woBackend op))" for k
        using eff unfolding op'(2) by (simp add: s(2))
      have "buffer_inv L cfg wm (woBackend op')"
      proof (rule buffer_inv_sub [OF b])
        show "lGetAll L k (woBackend op') = [] \<or> lGetAll L k (woBackend op') = lGetAll L k (woBackend op)" for k
          by (simp add: after)
        show "wm < fire_at cfg k" if "lGetAll L k (woBackend op') \<noteq> []" for k
        proof -
          from that have "k \<notin> set ?closed" "lGetAll L k (woBackend op) \<noteq> []" by (auto simp: after split: if_splits)
          moreover from this have "k \<in> set ks'" using all Arrive by auto
          ultimately show ?thesis by simp
        qed
      qed
      with eff op' show ?thesis by simp
    next
      case 2
      with step Arrive inv b show ?thesis by (auto simp: is_marker_def)
    next
      case 3
      with step Arrive inv b show ?thesis by (auto simp: is_marker_def emit_late_def split: if_splits)
    next
      case 4
      then obtain ws where ws: "assign_windows (woAssigner cfg) (rTimestamp r) = Some ws"
        using step Arrive by (auto simp: handle_data_record_def is_marker_def split: option.splits)
      have op': "op' = op\<lparr>woBackend := fold (assign_to_window L cfg ks' (rKey r) (record_to_json r)) ws (woBackend op)\<rparr>"
        using step Arrive 4 ws by (auto simp: handle_data_record_def is_marker_def)
      have r: "placeable cfg r" using ok 4 Arrive by (simp add: accepts_def)
      then have "jTimestamp (record_to_json r) = rTimestamp r" "jKey (record_to_json r) = rKey r"
        by (simp_all add: record_to_json_def placeable_def)
      with assign_all_buffer_inv [OF inv b _ _ _, of ks' "record_to_json r" "rKey r" ws]
        session_single [OF _ ws] accepted_window_open [OF r 4(2) allowed ws] ks Arrive op' show ?thesis by simp
    qed
  qed (use step flush in auto)
qed

end

end
