(* ===== verification/Window_Props.thy ===== *)
theory Window_Props
  imports Window_Invariant
begin

text \<open>
  What the window operator guarantees over whole runs, with the in-memory backend: the buffer invariant
  of every reachable state, exactly-once emission for fixed windows and for sessions, firing at a
  watermark, and the JSON checkpoint with the two cases in which it does not bring the state back.
\<close>

section \<open>Runs\<close>

definition plain :: "rec \<Rightarrow> rec" where
  "plain r = blank\<lparr>rKey := rKey r, rValue := rValue r, rTimestamp := rTimestamp r, rOffset := rOffset r,
     rHeaders := (rHeaders r)(''window_start'' := None, ''window_end'' := None, ''window_allowed_lateness_nanos'' := None)\<rparr>"

lemma plain_tag [simp]: "plain (tag_with_window r w l) = plain r"
  by (auto simp: plain_def tag_with_window_def blank_def Let_def fun_eq_iff)

definition plain_pending :: "(record_json, 's) list_ops \<Rightarrow> 's \<Rightarrow> rec multiset" where
  "plain_pending L s = image_mset (plain \<circ> record_from_json) (image_mset snd (pending L s))"

context window_backend
begin

lemma win_run_inv:
  assumes "inv (woBackend op)" and "buffer_inv L cfg (woWatermark op) (woBackend op)" and "0 \<le> woAllowed cfg"
    and "proper_run L V cfg evs op" and "\<forall>r \<in> set (win_accepted L V cfg evs op). placeable cfg r"
    and "win_run L V cfg evs op = Some (op', out)"
  shows "inv (woBackend op') \<and> buffer_inv L cfg (woWatermark op') (woBackend op') \<and>
    (woStopped op' \<longrightarrow> woStopped op \<or> (\<forall>k. lGetAll L k (woBackend op') = []))"
  using assms(1,2,4-)
proof (induction evs arbitrary: op out)
  case (Cons ev evs)
  show ?case
  proof (cases "woStopped op")
    case False
    with Cons.prems obtain op1 out1 out2 where step: "win_step L V cfg ev op = Some (op1, out1)"
      and run: "win_run L V cfg evs op1 = Some (op', out2)"
      by (auto split: option.splits)
    note one = win_step_buffer_inv [OF Cons.prems(1,2) _ assms(3) _ step]
    have "inv (woBackend op1) \<and> buffer_inv L cfg (woWatermark op1) (woBackend op1) \<and>
        (woStopped op1 \<longrightarrow> (\<forall>k. lGetAll L k (woBackend op1) = []))"
      using one Cons.prems(3,4) False by simp
    moreover have "woStopped op1 \<Longrightarrow> op' = op1"
      using run by (cases evs) auto
    moreover have "proper_run L V cfg evs op1" "\<forall>r \<in> set (win_accepted L V cfg evs op1). placeable cfg r"
      using Cons.prems(3,4) False step by auto
    ultimately show ?thesis using Cons.IH [of op1 out2] run by blast
  qed (use Cons.prems in simp)
qed simp

lemma pending_clear_all:
  assumes "inv s" and "distinct ks"
  shows "image_mset snd (pending L s) =
    image_mset snd (pending L (fold (lClear L) ks s)) + mset (concat (map (\<lambda>e. lGetAll L e s) ks))"
  using assms
proof (induction ks arbitrary: s)
  case (Cons k ks)
  have eq: "map (\<lambda>e. lGetAll L e (lClear L k s)) ks = map (\<lambda>e. lGetAll L e s) ks"
    using Cons.prems by (auto simp: all_clear)
  have "image_mset snd (pending L s) = image_mset snd (pending L (lClear L k s)) + mset (lGetAll L k s)"
    using arg_cong [OF pending_clear [OF Cons.prems(1), of k], of "image_mset snd"]
    by (simp add: multiset.map_comp comp_def)
  with Cons.IH [OF inv_lclear [OF Cons.prems(1), of k]] Cons.prems(2) show ?case
    unfolding eq by (simp add: ac_simps)
qed simp

lemma pending_append_all:
  assumes "inv s"
  shows "inv (fold (lAppend L k) js s) \<and>
    image_mset snd (pending L (fold (lAppend L k) js s)) = image_mset snd (pending L s) + mset js"
  using assms
proof (induction js arbitrary: s)
  case (Cons j js)
  then show ?case using inv_append [of s k j] by (simp add: pending_append)
qed simp

lemma assign_session_records:
  assumes "inv s" and "distinct ks"
  shows "image_mset snd (pending L (assign_to_window L cfg ks key j win s)) =
    add_mset j (image_mset snd (pending L s))"
proof (cases "removed_windows cfg ks key win = []")
  case True
  then have "assign_to_window L cfg ks key j win s = lAppend L (window_key_string (to_window_key key win)) j s"
    by (simp add: assign_to_window_def removed_windows_def)
  then show ?thesis using assms(1) by (simp add: pending_append)
next
  case False
  let ?gone = "removed_windows cfg ks key win"
  let ?t = "window_key_string (to_window_key key (merged_window cfg ks key win))"
  let ?m = "concat (map (\<lambda>e. lGetAll L e s) ?gone)"
  have eq: "assign_to_window L cfg ks key j win s = lAppend L ?t j (fold (lAppend L ?t) ?m (fold (lClear L) ?gone s))"
    using False by (simp add: assign_to_window_def merged_window_def removed_windows_def Let_def)
  have d: "distinct ?gone" using assms(2) by (simp add: removed_windows_def overlapping_def)
  have "inv (fold (lClear L) ?gone s)" using all_clear_all [OF assms(1)] by auto
  from pending_append_all [OF this, of ?t ?m] pending_clear_all [OF assms(1) d] show ?thesis
    by (simp add: eq pending_append)
qed

lemma plain_rendered: "image_mset plain (rendered cfg (pending L s)) = plain_pending L s"
  by (simp add: plain_pending_def rendered_def multiset.map_comp comp_def case_prod_unfold)

lemma win_step_session:
  assumes inv: "inv (woBackend op)" and red: "woReducer cfg = None" and sess: "is_session (woAssigner cfg)"
    and ks: "distinct (event_keys ev)" and step: "win_step L V cfg ev op = Some (op', out)"
  shows "inv (woBackend op') \<and>
    plain_pending L (woBackend op) + mset (map (plain \<circ> record_from_json \<circ> record_to_json) (accepts cfg op ev)) =
      plain_pending L (woBackend op') + image_mset plain (data_out out)"
proof (cases "\<exists>r. r \<in> set (accepts cfg op ev)")
  case False
  have "inv (woBackend op') \<and> rendered cfg (pending L (woBackend op)) = rendered cfg (pending L (woBackend op')) + data_out out"
  proof (cases ev)
    case (Arrive r ks')
    with False have "isWatermark r \<or> isBarrier r \<or> is_too_late cfg (woWatermark op) (rTimestamp r)"
      by (auto simp: accepts_def is_marker_def split: if_splits)
    then show ?thesis
      using step Arrive inv handle_watermark_conserve [OF inv red, of ks' r op' out]
      by (auto simp: emit_late_def data_out_def is_marker_def split: if_splits)
  qed (use step fire_windows_conserve [OF inv red] in
    \<open>auto simp: flush_remaining_def case_prod_unfold Let_def data_out_fire\<close>)
  then have "inv (woBackend op')"
    "image_mset plain (rendered cfg (pending L (woBackend op))) =
      image_mset plain (rendered cfg (pending L (woBackend op'))) + image_mset plain (data_out out)"
    by simp_all
  then show ?thesis using False by (simp add: plain_rendered)
next
  case True
  then obtain r ks' where ev: "ev = Arrive r ks'" and r: "is_data r" "\<not> is_too_late cfg (woWatermark op) (rTimestamp r)"
    by (auto simp: accepts_def split: window_event.splits if_splits)
  then obtain ws where ws: "assign_windows (woAssigner cfg) (rTimestamp r) = Some ws"
    using step by (auto simp: handle_data_record_def is_marker_def split: option.splits)
  then obtain w where w: "ws = [w]" using session_single [OF sess] by blast
  have "woBackend op' = assign_to_window L cfg ks' (rKey r) (record_to_json r) w (woBackend op)" "out = []"
    using step ev r ws w by (auto simp: handle_data_record_def is_marker_def)
  moreover have "distinct ks'" using ks ev by simp
  ultimately show ?thesis
    using assign_session_records [OF inv] assign_to_window_effect [OF inv] ev r
    by (simp add: accepts_def plain_pending_def)
qed

lemma win_run_session:
  assumes "inv (woBackend op)" and "woReducer cfg = None" and "is_session (woAssigner cfg)"
    and "proper_run L V cfg evs op" and "win_run L V cfg evs op = Some (op', out)"
  shows "plain_pending L (woBackend op) +
      mset (map (plain \<circ> record_from_json \<circ> record_to_json) (win_accepted L V cfg evs op)) =
    plain_pending L (woBackend op') + image_mset plain (data_out out)"
  using assms(1,4,5)
proof (induction evs arbitrary: op out)
  case (Cons ev evs)
  show ?case
  proof (cases "woStopped op")
    case False
    with Cons.prems obtain op1 out1 out2 where step: "win_step L V cfg ev op = Some (op1, out1)"
      and run: "win_run L V cfg evs op1 = Some (op', out2)" and out: "out = out1 @ out2"
      by (auto split: option.splits)
    have "distinct (event_keys ev)" "proper_run L V cfg evs op1"
      using Cons.prems(2) False step by (auto simp: lists_keys_def)
    note c = win_step_session [OF Cons.prems(1) assms(2,3) this(1) step]
    from chain_sums [OF conjunct2 [OF c] Cons.IH [OF conjunct1 [OF c] \<open>proper_run L V cfg evs op1\<close> run]]
    show ?thesis using False step out by (simp add: comp_def)
  qed (use Cons.prems in simp)
qed simp

section \<open>Checkpoints\<close>

lemma restore_windows:
  assumes "inv s" and "distinct (map fst es)" and "\<forall>(k, w) \<in> set es. lGetAll L k s = []"
  shows "inv (fold (restore_window L) es s) \<and>
    lGetAll L k (fold (restore_window L) es s) =
      (case map_of es k of Some w \<Rightarrow> wsRecords w | None \<Rightarrow> lGetAll L k s) \<and>
    vGet V k' (fold (restore_window L) es s) = vGet V k' s"
  using assms
proof (induction es arbitrary: s)
  case (Cons e es)
  obtain a w where e: "e = (a, w)" by fastforce
  define s1 where "s1 = restore_window L e s"
  have s: "inv s1" "lGetAll L k s1 = (if k = a then lGetAll L a s @ wsRecords w else lGetAll L k s)" for k
    using append_all [OF Cons.prems(1), where k = a and k' = k and vs = "wsRecords w"] by (auto simp: e s1_def restore_window_def)
  have v: "vGet V k' s1 = vGet V k' s"
    using get_append_all [OF Cons.prems(1)] by (simp add: e s1_def restore_window_def)
  have "\<forall>(k, w) \<in> set es. lGetAll L k s1 = []"
  proof clarify
    fix k w'
    assume k: "(k, w') \<in> set es"
    with Cons.prems(2) e have "k \<noteq> a" by force
    with k Cons.prems(3) show "lGetAll L k s1 = []" by (auto simp: s(2))
  qed
  moreover have "map_of es a = None" using Cons.prems(2) e by (simp add: map_of_eq_None_iff)
  moreover have "fold (restore_window L) (e # es) s = fold (restore_window L) es s1" by (simp add: s1_def)
  ultimately show ?case
    using Cons.IH [OF s(1)] Cons.prems(2,3) v by (auto simp: e s(2) simp del: fold_simps split: option.splits)
qed simp

lemma load_store: "inv s \<Longrightarrow> load_watermark V (store_watermark V wm s) = unix_nano wm"
  by (simp add: load_watermark_def store_watermark_def get_set put_get_int64)

lemma restore_snapshot_buffer:
  assumes inv: "inv (woBackend op)" "inv (woBackend op0)"
    and ks: "lists_keys L (woBackend op) ks" "lists_keys L (woBackend op0) ks0"
    and utf8: "\<forall>k \<in> set ks. valid_utf8 k"
  defines "op1 \<equiv> win_restore L V ks0 (win_snapshot L ks op) op0"
  shows "woWatermark op1 = unix_nano (woWatermark op)" and "lGetAll L k (woBackend op1) = lGetAll L k (woBackend op)"
    and "load_watermark V (woBackend op1) = unix_nano (woWatermark op)" and "inv (woBackend op1)"
proof -
  define m where "m = map (\<lambda>k. (k, \<lparr>wsWin = key_window k, wsRecords = lGetAll L k (woBackend op)\<rparr>)) ks"
  define es where "es = unmarshal_map (marshal_map m)"
  define s1 where "s1 = store_watermark V (unix_nano (woWatermark op)) (woBackend op0)"
  define s2 where "s2 = fold (lClear L) ks0 s1"
  have m: "distinct (map fst m)" "fst ` set m = set ks"
    using ks(1) by (auto simp: m_def lists_keys_def comp_def image_image)
  have es: "distinct (map fst es)" "map_of es = map_of m"
    using map_roundtrip [OF m(1)] utf8 m(2) by (simp_all add: es_def)
  have s1: "inv s1" "\<And>k. lGetAll L k s1 = lGetAll L k (woBackend op0)"
    "load_watermark V s1 = unix_nano (woWatermark op)"
    using inv(2) by (simp_all add: s1_def store_watermark_keeps load_store)
  have keys0: "k \<in> set ks0" if "lGetAll L k (woBackend op0) \<noteq> []" for k
    using that ks(2) keys_eq [OF inv(2)] by (auto simp: lists_keys_def)
  have s2: "inv s2" "lGetAll L k s2 = []" "vGet V k s2 = vGet V k s1" for k
    using all_clear_all [OF s1(1), of ks0] get_lclear_all [OF s1(1), of ks0] s1(2) keys0
    by (auto simp: s2_def)
  note r = restore_windows [OF s2(1) es(1)]
  have op1: "op1 = op0\<lparr>woWatermark := unix_nano (woWatermark op), woBackend := fold (restore_window L) es s2\<rparr>"
    by (simp add: op1_def win_restore_def win_snapshot_def es_def m_def s1_def s2_def Let_def)
  show "woWatermark op1 = unix_nano (woWatermark op)" "inv (woBackend op1)"
    using op1 r s2(2) by auto
  have "map_of m k = (if k \<in> set ks then Some \<lparr>wsWin = key_window k, wsRecords = lGetAll L k (woBackend op)\<rparr> else None)"
    by (simp add: m_def map_of_map_restrict restrict_map_def)
  moreover have "lGetAll L k (woBackend op) = []" if "k \<notin> set ks"
    using that ks(1) keys_eq [OF inv(1)] by (auto simp: lists_keys_def)
  ultimately show "lGetAll L k (woBackend op1) = lGetAll L k (woBackend op)"
    using r [of k] s2(2) op1 es(2) by auto
  show "load_watermark V (woBackend op1) = unix_nano (woWatermark op)"
    using r [of _ "''wm''"] s2 s1(3) op1 by (simp add: load_watermark_def)
qed

end

interpretation wb: window_backend "mem_lists ln" "mem_values vn" mem_inv for ln vn
  by unfold_locales

section \<open>Properties of the operator\<close>

abbreviation win_lists :: "(record_json, (bytes, record_json) mem) list_ops" where
  "win_lists \<equiv> mem_lists ''window_records''"

abbreviation win_values :: "(bytes, (bytes, record_json) mem) value_ops" where
  "win_values \<equiv> mem_values ''window_wm''"

definition win_new :: "(bytes, record_json) mem window_op" where
  "win_new = win_start win_values new_mem"

lemma win_new_simps [simp]:
  "woBackend win_new = new_mem" "woWatermark win_new = zero_time" "\<not> woStopped win_new"
  by (simp_all add: win_new_def win_start_def load_watermark_def)

lemma win_new_lists [simp]: "lists_keys win_lists new_mem []"
  by (simp add: lists_keys_def)

lemma win_new_inv: "buffer_inv win_lists cfg wm new_mem" "pending win_lists new_mem = {#}"
  by (simp_all add: buffer_inv_def wb.pending_no_keys)

text \<open>
  C4. Exactly once, without a reducer and for records whose windows fit the range of times: when the
  operator has stopped (its input ended or the idle timer fired) after any sequence of records,
  watermarks and barriers, its data output, as a multiset, consists of each accepted record once for every window the tumbling or sliding assigner gave it, tagged with that
  window's bounds. No accepted record is lost, duplicated or filed under another window, in whatever
  order the backend lists the open windows.
\<close>

theorem window_exactly_once:
  assumes "woReducer cfg = None" and "\<not> is_session (woAssigner cfg)" and "0 \<le> woAllowed cfg"
    and "proper_run win_lists win_values cfg evs win_new"
    and "\<forall>r \<in> set (win_accepted win_lists win_values cfg evs win_new). placeable cfg r"
    and "win_run win_lists win_values cfg evs win_new = Some (op', out)" and "woStopped op'"
  shows "data_out out = \<Sum>\<^sub># (mset (map (contribution cfg) (win_accepted win_lists win_values cfg evs win_new)))"
proof -
  have "mem_inv (woBackend op') \<and> (\<forall>k. lGetAll win_lists k (woBackend op') = [])"
    using wb.win_run_inv [OF _ _ assms(3-6)] win_new_inv(1) assms(7) by simp
  then have "pending win_lists (woBackend op') = {#}" using wb.pending_no_keys by blast
  with wb.win_run_conserve [OF _ assms(1,2,6)] show ?thesis by (simp add: win_new_inv(2))
qed

text \<open>
  C7. Sessions lose nothing either, without a reducer and for records whose sessions fit the range of
  times: when the operator has stopped, the data output, stripped of the
  window tags, is exactly the multiset of accepted records, however often their sessions were merged
  on the way.
\<close>

theorem session_exactly_once:
  assumes "woReducer cfg = None" and "is_session (woAssigner cfg)" and "0 \<le> woAllowed cfg"
    and "proper_run win_lists win_values cfg evs win_new"
    and "\<forall>r \<in> set (win_accepted win_lists win_values cfg evs win_new). placeable cfg r"
    and "win_run win_lists win_values cfg evs win_new = Some (op', out)" and "woStopped op'"
  shows "image_mset plain (data_out out) =
    mset (map (plain \<circ> record_from_json \<circ> record_to_json) (win_accepted win_lists win_values cfg evs win_new))"
proof -
  have "mem_inv (woBackend op') \<and> (\<forall>k. lGetAll win_lists k (woBackend op') = [])"
    using wb.win_run_inv [OF _ _ assms(3-6)] win_new_inv(1) assms(7) by simp
  then have "pending win_lists (woBackend op') = {#}" using wb.pending_no_keys by blast
  with wb.win_run_session [OF _ assms(1,2,4,6)] show ?thesis by (simp add: plain_pending_def win_new_inv(2))
qed


text \<open>A small stream for the witnesses: one record in a ten-nanosecond window, then the end of input.\<close>

definition demo_record :: rec where
  "demo_record = new_record 5 ''a'' ''x''"

definition demo_cfg :: "assigner \<Rightarrow> window_cfg" where
  "demo_cfg a = \<lparr>woAssigner = a, woAllowed = 0, woReducer = None, woLateSink = False\<rparr>"

definition demo_key :: "gotime \<Rightarrow> gotime \<Rightarrow> string" where
  "demo_key st en = window_key_string (to_window_key ''a'' \<lparr>wStart = st, wEnd = en\<rparr>)"

lemma demo_record_simps [simp]:
  "rTimestamp demo_record = 5" "rKey demo_record = ''a''" "is_data demo_record"
  "\<not> isWatermark demo_record" "\<not> isBarrier demo_record"
  by (simp_all add: demo_record_def new_record_def blank_def is_marker_def)

lemma demo_cfg_simps [simp]:
  "woAssigner (demo_cfg a) = a" "woAllowed (demo_cfg a) = 0" "woReducer (demo_cfg a) = None"
  by (simp_all add: demo_cfg_def)

lemma demo_assign [simp]:
  "assign_windows (Tumbling 10 0) 5 = Some [\<lparr>wStart = 0, wEnd = 10\<rparr>]"
  "assign_windows (Session 10) 5 = Some [\<lparr>wStart = 5, wEnd = 15\<rparr>]"
  by code_simp+

lemma demo_place: "placeable (demo_cfg (Tumbling 10 0)) demo_record" "placeable (demo_cfg (Session 10)) demo_record"
  by (simp_all add: placeable_def assignable_def alignable_def in_int64_def window_fits_def)

lemma demo_step:
  assumes "assign_windows a 5 = Some [\<lparr>wStart = st, wEnd = en\<rparr>]"
  shows "win_step win_lists win_values (demo_cfg a) (Arrive demo_record []) win_new =
    Some (win_new\<lparr>woBackend := mem_append ''window_records'' (demo_key st en) (record_to_json demo_record) new_mem\<rparr>, [])"
  using assms
  by (simp add: is_too_late_def is_zero_time_def handle_data_record_def assign_to_window_def overlapping_def
      mem_lists_def demo_key_def)

lemma demo_run:
  assumes "assign_windows a 5 = Some [\<lparr>wStart = st, wEnd = en\<rparr>]"
  shows "proper_run win_lists win_values (demo_cfg a) [Arrive demo_record [], InputClosed [demo_key st en]] win_new"
    and "win_accepted win_lists win_values (demo_cfg a) [Arrive demo_record [], InputClosed [demo_key st en]] win_new = [demo_record]"
    and "\<exists>op' out. win_run win_lists win_values (demo_cfg a)
      [Arrive demo_record [], InputClosed [demo_key st en]] win_new = Some (op', out) \<and> woStopped op'"
proof -
  define s where "s = mem_append ''window_records'' (demo_key st en) (record_to_json demo_record) (new_mem :: (bytes, record_json) mem)"
  have step: "win_step win_lists win_values (demo_cfg a) (Arrive demo_record []) win_new = Some (win_new\<lparr>woBackend := s\<rparr>, [])"
    unfolding s_def by (rule demo_step [OF assms])
  have "lists_keys win_lists s [demo_key st en]"
    by (simp add: lists_keys_def s_def mem_list_defs new_mem_def)
  moreover have "lists_keys win_lists new_mem []" by (simp add: lists_keys_def)
  ultimately show "proper_run win_lists win_values (demo_cfg a) [Arrive demo_record [], InputClosed [demo_key st en]] win_new"
    using step by (simp split: prod.split)
  show "win_accepted win_lists win_values (demo_cfg a) [Arrive demo_record [], InputClosed [demo_key st en]] win_new = [demo_record]"
    using step by (simp add: accepts_def is_too_late_def is_zero_time_def flush_remaining_def case_prod_unfold Let_def)
  show "\<exists>op' out. win_run win_lists win_values (demo_cfg a)
      [Arrive demo_record [], InputClosed [demo_key st en]] win_new = Some (op', out) \<and> woStopped op'"
    using step by (simp add: flush_remaining_def case_prod_unfold Let_def)
qed

theorem window_exactly_once_witness:
  "\<exists>op' out. win_run win_lists win_values (demo_cfg (Tumbling 10 0))
      [Arrive demo_record [], InputClosed [demo_key 0 10]] win_new = Some (op', out) \<and>
    data_out out = \<Sum>\<^sub># (mset (map (contribution (demo_cfg (Tumbling 10 0))) [demo_record]))"
proof -
  note run = demo_run [OF demo_assign(1)]
  obtain op' out where r: "win_run win_lists win_values (demo_cfg (Tumbling 10 0))
      [Arrive demo_record [], InputClosed [demo_key 0 10]] win_new = Some (op', out)" "woStopped op'"
    using run(3) by blast
  from window_exactly_once [OF _ _ _ run(1) _ r] r(1) show ?thesis
    by (simp add: run(2) demo_place is_session_def del: win_run.simps win_accepted.simps)
qed

theorem session_exactly_once_witness:
  "\<exists>op' out. win_run win_lists win_values (demo_cfg (Session 10))
      [Arrive demo_record [], InputClosed [demo_key 5 15]] win_new = Some (op', out) \<and>
    image_mset plain (data_out out) = mset (map (plain \<circ> record_from_json \<circ> record_to_json) [demo_record])"
proof -
  note run = demo_run [OF demo_assign(2)]
  obtain op' out where r: "win_run win_lists win_values (demo_cfg (Session 10))
      [Arrive demo_record [], InputClosed [demo_key 5 15]] win_new = Some (op', out)" "woStopped op'"
    using run(3) by blast
  from session_exactly_once [OF _ _ _ run(1) _ r] r(1) show ?thesis
    by (simp add: run(2) demo_place is_session_def del: win_run.simps win_accepted.simps)
qed


text \<open>
  C9. The JSON checkpoint is faithful for keys that are valid UTF-8 and a watermark that fits
  nanoseconds: restoring a snapshot into any operator brings back the watermark, in memory and in the
  backend, and every window with its records in order, and leaves nothing of the previous state.
\<close>

theorem window_checkpoint_roundtrip:
  assumes "mem_inv (woBackend op)" and "mem_inv (woBackend op0)" and "in_int64 (woWatermark op)"
    and "lists_keys win_lists (woBackend op) ks" and "lists_keys win_lists (woBackend op0) ks0"
    and "\<forall>k \<in> set ks. valid_utf8 k"
  shows "let op1 = win_restore win_lists win_values ks0 (win_snapshot win_lists ks op) op0 in
    woWatermark op1 = woWatermark op \<and> load_watermark win_values (woBackend op1) = woWatermark op \<and>
    (\<forall>k. lGetAll win_lists k (woBackend op1) = lGetAll win_lists k (woBackend op))"
  using wb.restore_snapshot_buffer [OF assms(1,2,4-6)] assms(3) by (simp add: Let_def)

definition demo_op :: "(bytes, record_json) mem window_op" where
  "demo_op = win_new\<lparr>woWatermark := 3,
     woBackend := mem_append ''window_records'' ''a/b'' (record_to_json demo_record) new_mem\<rparr>"

lemma demo_op_simps:
  "mem_inv (woBackend demo_op)" "lists_keys win_lists (woBackend demo_op) [''a/b'']" "woWatermark demo_op = 3"
  by (simp_all add: demo_op_def lists_keys_def mem_list_defs new_mem_def mem_inv_def)

theorem window_checkpoint_roundtrip_witness:
  "let op1 = win_restore win_lists win_values [] (win_snapshot win_lists [''a/b''] demo_op) win_new in
    woWatermark op1 = woWatermark demo_op \<and> load_watermark win_values (woBackend op1) = woWatermark demo_op \<and>
    (\<forall>k. lGetAll win_lists k (woBackend op1) = lGetAll win_lists k (woBackend demo_op))"
  by (rule window_checkpoint_roundtrip)
    (simp_all add: demo_op_simps in_int64_def ascii_valid byte_in_def)

text \<open>
  C24. A checkpoint taken before the first watermark does not restore as such: the zero time does not
  fit nanoseconds, its wrapped value is an instant in 1754, and after the restore the operator treats
  that as its watermark. Records without an event time, accepted before, are then dropped as late.
\<close>

theorem window_checkpoint_zero_watermark:
  assumes "woAllowed cfg < 2 ^ 63"
  shows "let op1 = win_restore win_lists win_values ks0 (win_snapshot win_lists ks win_new) op0 in
    woWatermark op1 = - 6795364578871345152 \<and>
    \<not> is_too_late cfg (woWatermark win_new) zero_time \<and> is_too_late cfg (woWatermark op1) zero_time"
  using assms
  by (simp add: win_restore_def win_snapshot_def unix_nano_zero_time is_too_late_def is_zero_time_def Let_def)
    (simp add: zero_time_def)

theorem window_checkpoint_zero_watermark_witness:
  "let op1 = win_restore win_lists win_values [] (win_snapshot win_lists [] win_new) win_new in
    woWatermark op1 = - 6795364578871345152 \<and>
    \<not> is_too_late (demo_cfg (Session 10)) (woWatermark win_new) zero_time \<and>
    is_too_late (demo_cfg (Session 10)) (woWatermark op1) zero_time"
  by (rule window_checkpoint_zero_watermark) simp

text \<open>
  C23. The checkpoint is a JSON object keyed by window, and JSON coerces keys to UTF-8: two windows whose
  record keys become the same text collapse into one, and all records of the first are lost.
\<close>

theorem window_checkpoint_utf8_loses:
  assumes "mem_inv (woBackend op0)" and "lists_keys win_lists (woBackend op0) ks0"
    and "k1 < k2" and "coerce_utf8 k1 = c" and "coerce_utf8 k2 = c"
  shows "lGetAll win_lists k (woBackend (win_restore win_lists win_values ks0 (win_snapshot win_lists [k1, k2] op) op0)) =
    (if k = c then lGetAll win_lists k2 (woBackend op) else [])"
proof -
  define w where "w = (\<lambda>k. \<lparr>wsWin = key_window k, wsRecords = lGetAll win_lists k (woBackend op)\<rparr>)"
  have doc: "unmarshal_map (marshal_map [(k1, w k1), (k2, w k2)]) = [(c, w k2)]"
    using assms(3-5) by (simp add: unmarshal_map_def marshal_map_def)
  define s2 where "s2 = fold (lClear win_lists) ks0 (store_watermark win_values (unix_nano (woWatermark op)) (woBackend op0))"
  have s1: "mem_inv (store_watermark win_values (unix_nano (woWatermark op)) (woBackend op0))"
    "lGetAll win_lists k (store_watermark win_values (unix_nano (woWatermark op)) (woBackend op0)) = lGetAll win_lists k (woBackend op0)" for k
    using wb.store_watermark_keeps [OF assms(1)] by auto
  have "lGetAll win_lists k (woBackend op0) = []" if "k \<notin> set ks0" for k
    using that assms(1,2) wb.keys_eq by (auto simp: lists_keys_def)
  then have s2: "mem_inv s2" "lGetAll win_lists k s2 = []" for k
    using ml.all_clear_all [OF s1(1), of ks0 "''window_records''"] s1(2) by (auto simp: s2_def)
  have "woBackend (win_restore win_lists win_values ks0 (win_snapshot win_lists [k1, k2] op) op0) =
      restore_window win_lists (c, w k2) s2"
    using doc by (simp add: win_restore_def win_snapshot_def s2_def w_def Let_def)
  then show ?thesis
    using wb.restore_windows [OF s2(1), of "[(c, w k2)]" "''window_records''" k] s2(2) by (simp add: w_def)
qed

lemma coerce_bad_byte:
  assumes "of_char b \<in> {0xF5..0xFF :: nat}"
  shows "coerce_utf8 (b # s) = replacement @ coerce_utf8 s"
proof -
  have "rune_width (b # s) = 0"
    using assms by (auto simp: rune_width.simps byte_in_def split: list.split)
  then show ?thesis by (simp add: coerce_utf8.simps [of "b # s"])
qed

text \<open>A record buffered under each of two keys that are not valid UTF-8; the checkpoint brings back one of them.\<close>

definition bad_key :: "nat \<Rightarrow> string" where
  "bad_key b = char_of b # ''/s/e''"

definition bad_op :: "(bytes, record_json) mem window_op" where
  "bad_op = win_new\<lparr>woBackend := mem_append ''window_records'' (bad_key 255) (record_to_json (new_record 6 ''k'' ''two''))
     (mem_append ''window_records'' (bad_key 254) (record_to_json (new_record 5 ''k'' ''one'')) new_mem)\<rparr>"

theorem window_checkpoint_utf8_loses_witness:
  "map jValue (lGetAll win_lists (bad_key 254) (woBackend bad_op)) = [''one''] \<and>
   map jValue (lGetAll win_lists (bad_key 255) (woBackend bad_op)) = [''two''] \<and>
   (\<forall>k. map jValue (lGetAll win_lists k (woBackend (win_restore win_lists win_values []
       (win_snapshot win_lists [bad_key 254, bad_key 255] bad_op) win_new))) =
     (if k = replacement @ coerce_utf8 ''/s/e'' then [''two''] else []))"
proof (intro conjI allI)
  have keys: "bad_key 254 < bad_key 255" "bad_key 254 \<noteq> bad_key 255" by (simp_all add: bad_key_def char_of_less)
  have coerce: "coerce_utf8 (bad_key 254) = replacement @ coerce_utf8 ''/s/e''"
    "coerce_utf8 (bad_key 255) = replacement @ coerce_utf8 ''/s/e''"
    by (simp_all add: bad_key_def coerce_bad_byte)
  show one: "map jValue (lGetAll win_lists (bad_key 254) (woBackend bad_op)) = [''one'']"
    and two: "map jValue (lGetAll win_lists (bad_key 255) (woBackend bad_op)) = [''two'']"
    using keys(2) by (simp_all add: bad_op_def mem_list_defs new_mem_def record_to_json_def new_record_def)
  fix k
  have "lGetAll win_lists k (woBackend (win_restore win_lists win_values [] (win_snapshot win_lists [bad_key 254, bad_key 255] bad_op) win_new)) =
      (if k = replacement @ coerce_utf8 ''/s/e'' then lGetAll win_lists (bad_key 255) (woBackend bad_op) else [])"
    by (rule window_checkpoint_utf8_loses) (simp_all add: keys coerce)
  then show "map jValue (lGetAll win_lists k (woBackend (win_restore win_lists win_values []
       (win_snapshot win_lists [bad_key 254, bad_key 255] bad_op) win_new))) =
     (if k = replacement @ coerce_utf8 ''/s/e'' then [''two''] else [])" using two by simp
qed

end
