(* ===== verification/Lifecycle.thy ===== *)
theory Lifecycle
  imports Go_Time
begin

text \<open>
  The controller's phases of a run, the legal edges between them and the restart policy
  (\<^verbatim>\<open>control/lifecycle/lifecycle.go\<close>). Durations are nanoseconds in an \<^verbatim>\<open>int64\<close>, so the doubling of the
  backoff wraps.
\<close>

datatype phase = Submitted | Starting | Running | Restarting | Blocked | Cancelling | Cancelled | Finished | Failed

definition phase_string :: "phase \<Rightarrow> string" where
  "phase_string p =
     (case p of Submitted \<Rightarrow> ''submitted'' | Starting \<Rightarrow> ''starting'' | Running \<Rightarrow> ''running''
      | Restarting \<Rightarrow> ''restarting'' | Blocked \<Rightarrow> ''blocked'' | Cancelling \<Rightarrow> ''cancelling''
      | Cancelled \<Rightarrow> ''cancelled'' | Finished \<Rightarrow> ''finished'' | Failed \<Rightarrow> ''failed'')"

definition terminal :: "phase \<Rightarrow> bool" where
  "terminal p \<longleftrightarrow> p \<in> {Cancelled, Finished, Failed}"

definition valid :: "phase \<Rightarrow> phase list" where
  "valid p =
     (case p of
        Submitted \<Rightarrow> [Starting, Failed, Cancelled]
      | Starting \<Rightarrow> [Running, Failed, Restarting, Blocked, Cancelling]
      | Running \<Rightarrow> [Cancelling, Cancelled, Finished, Failed, Restarting]
      | Restarting \<Rightarrow> [Cancelled, Failed]
      | Blocked \<Rightarrow> [Failed, Cancelled, Restarting]
      | Cancelling \<Rightarrow> [Cancelled, Finished, Failed]
      | _ \<Rightarrow> [])"

definition can_transition :: "phase \<Rightarrow> phase \<Rightarrow> bool" where
  "can_transition from to \<longleftrightarrow> to \<in> set (valid from)"

definition from_agent :: "string \<Rightarrow> phase" where
  "from_agent s =
     (if s = phase_string Starting then Starting
      else if s = phase_string Running then Running
      else if s = phase_string Cancelling then Cancelling
      else if s = phase_string Finished then Finished
      else if s = phase_string Failed then Failed
      else Failed)"

lemma terminal_no_edge: "terminal p \<longleftrightarrow> valid p = []"
  by (cases p) (simp_all add: terminal_def valid_def)

lemma from_agent_phases:
  "from_agent (phase_string p) = (if p \<in> {Starting, Running, Cancelling, Finished} then p else Failed)"
  by (cases p) (simp_all add: from_agent_def phase_string_def)

section \<open>The restart policy\<close>

record restart_policy =
  rpMaxAttempts :: int
  rpBaseBackoff :: duration
  rpMaxBackoff :: duration

definition default_restart_policy :: restart_policy where
  "default_restart_policy = \<lparr>rpMaxAttempts = 5, rpBaseBackoff = 2 * 10 ^ 9, rpMaxBackoff = 60 * 10 ^ 9\<rparr>"

definition should_restart :: "restart_policy \<Rightarrow> phase \<Rightarrow> int \<Rightarrow> bool" where
  "should_restart p ph n = (if rpMaxAttempts p \<le> 0 then False else ph = Failed \<and> n < rpMaxAttempts p)"

fun backoff_loop :: "restart_policy \<Rightarrow> nat \<Rightarrow> duration \<Rightarrow> duration" where
  "backoff_loop p 0 d = d"
| "backoff_loop p (Suc i) d =
     (let d = int64 (d * 2)
      in if 0 < rpMaxBackoff p \<and> rpMaxBackoff p \<le> d then rpMaxBackoff p else backoff_loop p i d)"

definition backoff :: "restart_policy \<Rightarrow> int \<Rightarrow> duration" where
  "backoff p n = backoff_loop p (nat ((if n < 1 then 1 else n) - 1)) (rpBaseBackoff p)"

lemma backoff_loop_closed:
  assumes "0 \<le> d" and "d < rpMaxBackoff p \<or> i = 0 \<and> d \<le> rpMaxBackoff p" and "rpMaxBackoff p \<le> 2 ^ 62"
  shows "backoff_loop p i d = min (d * 2 ^ i) (rpMaxBackoff p)"
  using assms
proof (induction i arbitrary: d)
  case (Suc i)
  then have d: "0 \<le> d" "d < rpMaxBackoff p" "int64 (d * 2) = d * 2"
    by (auto simp: in_int64_def)
  show ?case
  proof (cases "rpMaxBackoff p \<le> d * 2")
    case True
    moreover have "d * 2 * 1 \<le> d * 2 * 2 ^ i" using d by (intro mult_left_mono) auto
    ultimately have "rpMaxBackoff p \<le> d * 2 ^ Suc i" by (simp add: mult.assoc)
    with True d show ?thesis by simp
  next
    case False
    with Suc.IH [of "d * 2"] Suc.prems d show ?thesis by (simp add: ac_simps)
  qed
qed auto

text \<open>
  C32. The restart policy waits longer and longer, up to the cap: with a base below \<open>2 ^ 62\<close>
  nanoseconds and a cap of at most that, no doubling overflows, and the wait after attempt \<open>n\<close> is the
  base for the first attempt and the smaller of \<open>base * 2 ^ (n - 1)\<close> and the cap for every later one. If
  the base does not exceed the cap, every wait lies between the two and never shrinks. The first
  wait is not capped: with a base above the cap it exceeds the cap, and the waits go down.
\<close>

theorem backoff_capped:
  assumes "0 \<le> rpBaseBackoff p" and "rpBaseBackoff p < 2 ^ 62" and "0 < rpMaxBackoff p" and "rpMaxBackoff p \<le> 2 ^ 62"
  shows "backoff p n = (if n \<le> 1 then rpBaseBackoff p else min (rpBaseBackoff p * 2 ^ nat (n - 1)) (rpMaxBackoff p)) \<and>
    (rpBaseBackoff p \<le> rpMaxBackoff p \<longrightarrow>
       rpBaseBackoff p \<le> backoff p n \<and> backoff p n \<le> rpMaxBackoff p \<and> backoff p n \<le> backoff p (n + 1)) \<and>
    (rpMaxBackoff p < rpBaseBackoff p \<longrightarrow> backoff p 2 < backoff p 1)"
proof -
  let ?b = "rpBaseBackoff p" and ?m = "rpMaxBackoff p"
  have mono: "?b * 2 ^ k \<le> ?b * 2 ^ l" if "k \<le> l" for k l
    using assms(1) that by (intro mult_left_mono power_increasing) auto
  have eq: "backoff p n = (if n \<le> 1 then ?b else min (?b * 2 ^ nat (n - 1)) ?m)" for n
  proof (cases "n \<le> 1 \<or> ?b < ?m")
    case True
    then show ?thesis using backoff_loop_closed [of ?b p "nat (n - 1)"] assms by (auto simp: backoff_def)
  next
    case False
    then obtain i where i: "nat (n - 1) = Suc i" using not0_implies_Suc [of "nat (n - 1)"] by auto
    have "int64 (?b * 2) = ?b * 2" using assms by (simp add: in_int64_def)
    with False i assms(1,3) have "backoff p n = ?m" by (simp add: backoff_def)
    moreover have "?m \<le> ?b * 2 ^ nat (n - 1)" using mono [of 0 "nat (n - 1)"] False by simp
    ultimately show ?thesis using False by simp
  qed
  have "?b \<le> ?b * 2 ^ nat (n - 1)" "?b * 2 ^ nat (n - 1) \<le> ?b * 2 ^ nat (n + 1 - 1)"
    using mono [of 0 "nat (n - 1)"] mono [of "nat (n - 1)" "nat (n + 1 - 1)"] by simp_all
  moreover have "?b \<le> ?b * 2 ^ nat (n + 1 - 1)" using mono [of 0 "nat (n + 1 - 1)"] by simp
  ultimately have "?b \<le> ?m \<Longrightarrow> ?b \<le> backoff p n \<and> backoff p n \<le> ?m \<and> backoff p n \<le> backoff p (n + 1)"
    unfolding eq by (auto simp: min_def)
  moreover have "?m < ?b \<Longrightarrow> backoff p 2 < backoff p 1" unfolding eq by auto
  ultimately show ?thesis using eq [of n] by blast
qed

definition steep_policy :: restart_policy where
  "steep_policy = default_restart_policy\<lparr>rpBaseBackoff := 90 * 10 ^ 9\<rparr>"

theorem backoff_capped_witness:
  "backoff default_restart_policy 3 = 8 * 10 ^ 9 \<and> backoff default_restart_policy 9 = 60 * 10 ^ 9 \<and>
   backoff default_restart_policy 3 \<le> backoff default_restart_policy (3 + 1) \<and>
   backoff steep_policy 1 = 90 * 10 ^ 9 \<and> backoff steep_policy 4 = 60 * 10 ^ 9 \<and> backoff steep_policy 2 < backoff steep_policy 1"
  using backoff_capped [of default_restart_policy 3] backoff_capped [of default_restart_policy 9]
    backoff_capped [of steep_policy 1] backoff_capped [of steep_policy 4]
  by (simp add: default_restart_policy_def steep_policy_def)

end
