(* ===== verification/Time_Order.thy ===== *)
theory Time_Order
  imports Go_Time_Format Byte_Order
begin

text \<open>
  RFC 3339 texts compared as text, the way a SQL \<^verbatim>\<open>ORDER BY\<close> on a \<^verbatim>\<open>TEXT\<close> column compares them: the
  part down to the second has fixed width and orders like the time it stands for; the fraction does
  not, because trailing zeros are dropped.
\<close>

section \<open>Fixed-width numbers\<close>

lemma dec_val_Cons: "dec_val (c # s) = (case digit_val c of Some d \<Rightarrow> d | None \<Rightarrow> 0) * 10 ^ length s + dec_val s"
  using dec_val_append [of "[c]" s] by (simp add: dec_val_def dec_step_def)

lemma digit_val_bound: "digit_val c = Some d \<Longrightarrow> d < 10"
  by (auto simp: digit_val_def Let_def split: if_splits)

lemma dec_val_bound: "\<forall>c \<in> set s. is_digit c \<Longrightarrow> dec_val s < 10 ^ length s"
proof (induction s)
  case (Cons c s)
  then obtain d where d: "digit_val c = Some d" by (auto simp: is_digit_def)
  have "dec_val (c # s) < (d + 1) * 10 ^ length s" using Cons d by (simp add: dec_val_Cons)
  also have "\<dots> \<le> 10 * 10 ^ length s" using digit_val_bound [OF d] by (intro mult_right_mono) auto
  finally show ?case by simp
qed simp

lemma digit_val_less:
  assumes "digit_val c = Some m" and "digit_val d = Some n"
  shows "c < d \<longleftrightarrow> m < n" and "c = d \<longleftrightarrow> m = n"
proof -
  have of: "(of_char c :: nat) = m + 48" "(of_char d :: nat) = n + 48"
    using assms by (auto simp: digit_val_def Let_def split: if_splits)
  then show "c < d \<longleftrightarrow> m < n" by (simp add: less_char_def)
  show "c = d \<longleftrightarrow> m = n" using of by (metis add_right_cancel of_char_eq_iff)
qed

lemma digit_carry:
  fixes a b m n p :: nat
  assumes "m * p + a < n * p + b" and "a < p" and "b < p"
  shows "m < n \<or> m = n \<and> a < b"
proof (rule ccontr)
  assume "\<not> ?thesis"
  then consider "Suc n \<le> m" | "m = n" "b \<le> a" by linarith
  then show False
  proof cases
    case 1
    then have "Suc n * p \<le> m * p" by (rule mult_right_mono) simp
    with assms show False by simp
  qed (use assms in simp)
qed

lemma digits_less:
  assumes "\<forall>c \<in> set xs. is_digit c" and "\<forall>c \<in> set ys. is_digit c" and "length xs = length ys"
  shows "dec_val xs < dec_val ys \<Longrightarrow> xs < ys"
  using assms(3,1,2)
proof (induction xs ys rule: list_induct2)
  case (Cons x xs y ys)
  from Cons.prems obtain m n where mn: "digit_val x = Some m" "digit_val y = Some n" by (auto simp: is_digit_def)
  have "dec_val xs < 10 ^ length ys" "dec_val ys < 10 ^ length ys"
    using Cons dec_val_bound [of xs] dec_val_bound [of ys] by auto
  moreover have "m * 10 ^ length ys + dec_val xs < n * 10 ^ length ys + dec_val ys"
    using Cons.prems Cons.hyps mn by (simp add: dec_val_Cons)
  ultimately have "m < n \<or> m = n \<and> dec_val xs < dec_val ys"
    by (meson digit_carry)
  with Cons digit_val_less [OF mn] show ?case by auto
qed simp

lemma pad_field:
  assumes "m < 10 ^ w" and "n < 10 ^ w" and "0 < w"
  shows "m < n \<or> m = n \<and> r < r' \<Longrightarrow> pad w m @ r < pad w n @ r'"
proof -
  have less: "xs @ r < ys @ r'" if "length xs = length ys" "xs < ys" for xs ys :: string
    using that by (induction xs ys rule: list_induct2) auto
  have same: "r < r' \<Longrightarrow> xs @ r < xs @ r'" for xs :: string
    by (induction xs) auto
  have "m < n \<Longrightarrow> pad w m < pad w n"
    using pad_digits assms by (intro digits_less) (auto simp: length_pad)
  then show "m < n \<or> m = n \<and> r < r' \<Longrightarrow> pad w m @ r < pad w n @ r'"
    using less [of "pad w m" "pad w n"] same assms by (auto simp: length_pad)
qed

section \<open>The calendar is monotone\<close>

definition civil_le :: "int \<times> nat \<times> nat \<Rightarrow> int \<times> nat \<times> nat \<Rightarrow> bool" where
  "civil_le a b = (case (a, b) of ((y, m, d), (y', m', d')) \<Rightarrow> y < y' \<or> y = y' \<and> (m < m' \<or> m = m' \<and> d \<le> d'))"

lemma sum_take_Suc: "k < length xs \<Longrightarrow> sum_list (take (Suc k) xs) = sum_list (take k xs) + (xs ! k :: nat)"
  by (simp add: take_Suc_conv_app_nth)

lemma sum_take_mono: "j \<le> k \<Longrightarrow> sum_list (take j xs) \<le> sum_list (take k (xs :: nat list))"
proof -
  assume "j \<le> k"
  then have "take k xs = take j xs @ take (k - j) (drop j xs)"
    by (metis add_diff_inverse_nat not_less take_add)
  then show ?thesis by simp
qed

lemma days_of_civil_mono:
  assumes "1 \<le> m" "m \<le> 12" "1 \<le> d" "d \<le> month_days y ! (m - 1)" and "1 \<le> d'"
    and "civil_le (y, m, d) (y', m', d')"
  shows "days_of_civil y m d \<le> days_of_civil y' m' d'"
proof -
  let ?u = "sum_list (take (m - 1) (month_days y))"
  have u: "?u + d \<le> sum_list (take m (month_days y))"
    using assms(1-4) sum_take_Suc [of "m - 1" "month_days y"] by simp
  consider "y < y'" | "y = y'" "m < m'" | "y = y'" "m = m'" "d \<le> d'"
    using assms(6) by (auto simp: civil_le_def)
  then show ?thesis
  proof cases
    case 1
    have "int (?u + d) \<le> year_days y"
      using u sum_take_mono [of m 12 "month_days y"] assms(2) sum_month_days [of y] by simp
    moreover have "days_before_year y + year_days y \<le> days_before_year y'"
      using days_before_year_mono [of "y + 1" y'] 1 by (simp add: days_before_year_Suc)
    ultimately show ?thesis
      using assms(5) by (simp add: days_of_civil_def)
  next
    case 2
    have "?u + d \<le> sum_list (take (m' - 1) (month_days y))"
      using u sum_take_mono [of m "m' - 1" "month_days y"] 2 by linarith
    with 2 assms(5) show ?thesis by (simp add: days_of_civil_def)
  qed (simp add: days_of_civil_def)
qed

lemma civil_less:
  assumes "z < z'" and "civil_of_days z = (y, m, d)" and "civil_of_days z' = (y', m', d')"
  shows "y < y' \<or> y = y' \<and> (m < m' \<or> m = m' \<and> d < d')"
proof (rule ccontr)
  note c = civil_of_days_correct [OF assms(2)] civil_of_days_correct [OF assms(3)]
  assume "\<not> ?thesis"
  then have "civil_le (y', m', d') (y, m, d)" by (auto simp: civil_le_def)
  with days_of_civil_mono [of m' d' y' d y m] c assms(1) show False by simp
qed

lemma clock_less:
  fixes a b :: nat
  assumes "a < b"
  shows "a div 3600 < b div 3600 \<or> a div 3600 = b div 3600 \<and>
    (a div 60 mod 60 < b div 60 mod 60 \<or> a div 60 mod 60 = b div 60 mod 60 \<and> a mod 60 < b mod 60)"
proof -
  have mod: "n mod 3600 = n div 60 mod 60 * 60 + n mod 60" for n :: nat
    using mod_mult2_eq [of n 60 60] by simp
  have "a div 3600 < b div 3600 \<or> a div 3600 = b div 3600 \<and> a mod 3600 < b mod 3600"
    using assms by (intro digit_carry [of _ 3600]) auto
  moreover have "a mod 3600 < b mod 3600 \<Longrightarrow>
      a div 60 mod 60 < b div 60 mod 60 \<or> a div 60 mod 60 = b div 60 mod 60 \<and> a mod 60 < b mod 60"
    unfolding mod by (erule digit_carry) auto
  ultimately show ?thesis by blast
qed

section \<open>Texts of different seconds\<close>

lemma pad_sep:
  assumes "m < 10 ^ w" and "n < 10 ^ w" and "0 < w" and "m < n \<or> m = n \<and> r < r'"
  shows "pad w m @ c # r < pad w n @ c # r'"
  using assms by (intro pad_field) auto

lemma stamp_less:
  assumes "y < 10 ^ 4" "y' < 10 ^ 4" "m < 10 ^ 2" "m' < 10 ^ 2" "d < 10 ^ 2" "d' < 10 ^ 2"
    and "h < 10 ^ 2" "h' < 10 ^ 2" "i < 10 ^ 2" "i' < 10 ^ 2" "s < 10 ^ 2" "s' < 10 ^ 2"
    and "y < y' \<or> y = y' \<and> (m < m' \<or> m = m' \<and> (d < d' \<or> d = d' \<and>
      (h < h' \<or> h = h' \<and> (i < i' \<or> i = i' \<and> s < s'))))"
  shows "pad 4 y @ CHR ''-'' # pad 2 m @ CHR ''-'' # pad 2 d @ CHR ''T'' # pad 2 h @ CHR '':'' # pad 2 i @ CHR '':'' # pad 2 s @ r <
    pad 4 y' @ CHR ''-'' # pad 2 m' @ CHR ''-'' # pad 2 d' @ CHR ''T'' # pad 2 h' @ CHR '':'' # pad 2 i' @ CHR '':'' # pad 2 s' @ r'"
proof -
  have "s < s' \<Longrightarrow> pad 2 s @ r < pad 2 s' @ r'" using assms by (intro pad_field) auto
  with assms show ?thesis by (meson pad_sep zero_less_numeral)
qed

lemma second_text_less:
  assumes "civil_range t" and "civil_range t'" and "t div 10 ^ 9 < t' div 10 ^ 9"
  shows "format_rfc3339nano t < format_rfc3339nano t'"
proof -
  define sec sec' where "sec = t div 10 ^ 9" and "sec' = t' div 10 ^ 9"
  define sod sod' where "sod = nat (sec mod 86400)" and "sod' = nat (sec' mod 86400)"
  obtain y m d y' m' d' where civ: "civil_of_days (sec div 86400) = (y, m, d)"
    "civil_of_days (sec' div 86400) = (y', m', d')" by (metis prod_cases3)
  have day: "- 719528 \<le> sec div 86400" "sec div 86400 < 2932897" "- 719528 \<le> sec' div 86400" "sec' div 86400 < 2932897"
    using assms(1,2) div_bounds [of "86400 * 10 ^ 9" "- 719528" t 2932897] div_bounds [of "86400 * 10 ^ 9" "- 719528" t' 2932897]
    by (simp_all add: civil_range_def sec_def sec'_def flip: zdiv_zmult2_eq)
  note y = civil_year_range [OF civ(1) day(1,2)] civil_year_range [OF civ(2) day(3,4)]
  note c = civil_of_days_correct [OF civ(1)] civil_of_days_correct [OF civ(2)]
  have d: "d \<le> 31" "d' \<le> 31" using c month_days_le [of m y] month_days_le [of m' y'] by auto
  have h: "sod div 3600 < 100" "sod' div 3600 < 100"
    by (simp_all add: sod_def sod'_def less_mult_imp_div_less nat_less_iff)
  have lt: "sec < sec'" using assms(3) by (simp add: sec_def sec'_def)
  have "sec div 86400 < sec' div 86400 \<or> sec div 86400 = sec' div 86400 \<and> sec mod 86400 < sec' mod 86400"
    using lt div_mult_mod_eq [of sec 86400] div_mult_mod_eq [of sec' 86400] zdiv_mono1 [of sec sec' 86400]
    by linarith
  then have "sec div 86400 < sec' div 86400 \<or> sec div 86400 = sec' div 86400 \<and> sod < sod'"
    by (auto simp: sod_def sod'_def nat_less_eq_zless)
  then have "y < y' \<or> y = y' \<and> (m < m' \<or> m = m' \<and> (d < d' \<or> d = d' \<and> sod < sod'))"
    using civil_less [OF _ civ] civ by auto
  then have "nat y < nat y' \<or> nat y = nat y' \<and> (m < m' \<or> m = m' \<and> (d < d' \<or> d = d' \<and>
      (sod div 3600 < sod' div 3600 \<or> sod div 3600 = sod' div 3600 \<and> (sod div 60 mod 60 < sod' div 60 mod 60 \<or>
       sod div 60 mod 60 = sod' div 60 mod 60 \<and> sod mod 60 < sod' mod 60))))"
    using clock_less [of sod sod'] y by (auto simp: nat_less_eq_zless)
  moreover have "nat y < 10 ^ 4" "nat y' < 10 ^ 4" "sod div 60 mod 60 < 10 ^ 2" "sod' div 60 mod 60 < 10 ^ 2"
    "sod mod 60 < 10 ^ 2" "sod' mod 60 < 10 ^ 2"
    using y by (auto intro: less_le_trans [OF mod_less_divisor])
  moreover have "m < 10 ^ 2" "m' < 10 ^ 2" "d < 10 ^ 2" "d' < 10 ^ 2" "sod div 3600 < 10 ^ 2" "sod' div 3600 < 10 ^ 2"
    using c d h by auto
  ultimately have stamp: "pad 4 (nat y) @ CHR ''-'' # pad 2 m @ CHR ''-'' # pad 2 d @ CHR ''T'' #
      pad 2 (sod div 3600) @ CHR '':'' # pad 2 (sod div 60 mod 60) @ CHR '':'' # pad 2 (sod mod 60) @ r <
    pad 4 (nat y') @ CHR ''-'' # pad 2 m' @ CHR ''-'' # pad 2 d' @ CHR ''T'' #
      pad 2 (sod' div 3600) @ CHR '':'' # pad 2 (sod' div 60 mod 60) @ CHR '':'' # pad 2 (sod' mod 60) @ r'" for r r'
    by (intro stamp_less)
  have "fmt_year y = pad 4 (nat y)" "fmt_year y' = pad 4 (nat y')"
    using y by (simp_all add: fmt_year_def)
  with stamp show ?thesis
    unfolding format_rfc3339nano_def Let_def sec_def [symmetric] sec'_def [symmetric] sod_def [symmetric] sod'_def [symmetric] civ
      prod.case by (simp only:)
qed

text \<open>Within one second the dropped zeros can turn the order round.\<close>

lemma whole_second_text:
  assumes "0 < ns" and "ns < 10 ^ 9"
  shows "format_rfc3339nano (sec * 10 ^ 9 + ns) < format_rfc3339nano (sec * 10 ^ 9)"
proof -
  have split: "(sec * 10 ^ 9 + ns) div 10 ^ 9 = sec" "(sec * 10 ^ 9) div 10 ^ 9 = sec"
    "(sec * 10 ^ 9 + ns) mod 10 ^ 9 = ns" "(sec * 10 ^ 9) mod 10 ^ 9 = 0"
    using assms by auto
  obtain y m d where civ: "civil_of_days (sec div 86400) = (y, m, d)" by (metis prod_cases3)
  have app: "p @ r < p @ r'" if "r < r'" for p r r' :: string
    using that by (induction p) auto
  have frac: "fmt_fraction (nat ns) @ ''Z'' < fmt_fraction (nat 0) @ ''Z''"
    using assms(1) by (simp add: fmt_fraction_def less_char_def)
  show ?thesis
    unfolding format_rfc3339nano_def Let_def split civ prod.case
    by (intro app frac iffD2 [OF Cons_less_Cons, OF disjI2, OF conjI, OF refl])
qed

end
