(* ===== verification/Control_Store.thy ===== *)
theory Control_Store
  imports Fallible Lifecycle Time_Order Go_JSON Records
begin

text \<open>
  The control plane's durable store (\<^verbatim>\<open>control/store/store.go\<close>, \<^verbatim>\<open>control/store/sqlite.go\<close>): three
  tables and the SQL statements the code runs on them. Times are \<^verbatim>\<open>TEXT\<close> columns in RFC 3339 form and
  are compared as text, as \<^verbatim>\<open>ORDER BY started_at\<close> does. Every statement may fail: \<open>sFaults\<close> says which
  of the coming statements do, an exhausted list means none. A transaction that fails leaves the
  tables as they were. Rows that tie in an \<^verbatim>\<open>ORDER BY\<close> come in table order.
\<close>

section \<open>Data\<close>

datatype desired_state = DesiredRunning | DesiredStopped

record secret_ref =
  srProvider :: string
  srName :: string
  srKey :: string

definition KindYAML :: string where "KindYAML = ''yaml''"
definition KindSDK :: string where "KindSDK = ''sdk''"

record job =
  jId :: string
  jName :: string
  jKind :: string
  jSpec :: bytes
  jImage :: string
  jSecrets :: "(string \<times> secret_ref) list"
  jDelivery :: string
  jGraph :: json
  jDesired :: desired_state
  jCreated :: gotime
  jUpdated :: gotime

record run =
  rnId :: string
  rnJobID :: string
  rnContainerID :: string
  rnHostPort :: int
  rnPhase :: phase
  rnAttempt :: int
  rnError :: string
  rnFailureKind :: string
  rnStarted :: gotime
  rnStopped :: "gotime option"
  rnRestartAt :: "gotime option"

record transition =
  tId :: int
  tJobID :: string
  tRunID :: string
  tFrom :: "phase option" \<comment> \<open>\<^const>\<open>None\<close>: the empty phase a job is submitted from\<close>
  tTo :: phase
  tReason :: string
  tAt :: gotime

text \<open>The rows as the schema has them.\<close>

record job_row =
  jwJob :: job \<comment> \<open>the columns that are stored as they are\<close>
  jwSecretRefs :: "(string \<times> secret_ref) list" \<comment> \<open>the JSON object of \<^verbatim>\<open>secret_refs\<close>\<close>
  jwCreated :: string
  jwUpdated :: string

record run_row =
  rwId :: string
  rwJobID :: string
  rwContainerID :: string
  rwHostPort :: int
  rwPhase :: phase
  rwAttempt :: int
  rwError :: string
  rwFailureKind :: string
  rwStarted :: string
  rwStopped :: "string option"
  rwRestartAt :: "string option"

record trans_row =
  twTrans :: transition
  twAt :: string

record store =
  sJobs :: "job_row list"
  sRuns :: "run_row list"
  sTrans :: "trans_row list"
  sNext :: int \<comment> \<open>the next \<^verbatim>\<open>AUTOINCREMENT\<close> value of \<^verbatim>\<open>transitions\<close>\<close>
  sFaults :: "bool list"

definition open_sqlite :: store where
  "open_sqlite = \<lparr>sJobs = [], sRuns = [], sTrans = [], sNext = 1, sFaults = []\<rparr>"

section \<open>Statements\<close>

definition exec :: "(store, unit) op" where
  "exec s = (case sFaults s of [] \<Rightarrow> (Inr (), s)
     | f # fs \<Rightarrow> (if f then Inl ''database error'' else Inr (), s\<lparr>sFaults := fs\<rparr>))"

definition tx :: "(store, 'a) op \<Rightarrow> (store, 'a) op" where
  "tx body s = (case andThen exec (\<lambda>_. andThen body (\<lambda>x. andThen exec (\<lambda>_. ret x))) s of
     (Inl e, t) \<Rightarrow> (Inl e, s\<lparr>sFaults := sFaults t\<rparr>)
   | (Inr x, t) \<Rightarrow> (Inr x, t))"

definition query :: "(store \<Rightarrow> 'a) \<Rightarrow> (store, 'a) op" where
  "query f = andThen exec (\<lambda>_. gets f)"

definition newest_first :: "('r \<Rightarrow> string) \<Rightarrow> 'r list \<Rightarrow> 'r list" where \<comment> \<open>\<^verbatim>\<open>ORDER BY c DESC\<close>\<close>
  "newest_first c rs = rev (sort_key c (rev rs))"

definition parse_time :: "string \<Rightarrow> gotime" where \<comment> \<open>\<^verbatim>\<open>t, _ = time.Parse(rfc, s)\<close>\<close>
  "parse_time s = (case parse_rfc3339nano s of Some t \<Rightarrow> t | None \<Rightarrow> zero_time)"

definition null_time :: "gotime option \<Rightarrow> string option" where
  "null_time t = map_option format_rfc3339nano t"

definition scan_job :: "job_row \<Rightarrow> job" where
  "scan_job w = (jwJob w)\<lparr>jSecrets := unmarshal_map (jwSecretRefs w), jCreated := parse_time (jwCreated w),
     jUpdated := parse_time (jwUpdated w)\<rparr>"

definition scan_run :: "run_row \<Rightarrow> run" where
  "scan_run w = \<lparr>rnId = rwId w, rnJobID = rwJobID w, rnContainerID = rwContainerID w, rnHostPort = rwHostPort w,
     rnPhase = rwPhase w, rnAttempt = rwAttempt w, rnError = rwError w, rnFailureKind = rwFailureKind w,
     rnStarted = parse_time (rwStarted w), rnStopped = map_option parse_time (rwStopped w),
     rnRestartAt = map_option parse_time (rwRestartAt w)\<rparr>"

definition scan_transition :: "trans_row \<Rightarrow> transition" where
  "scan_transition w = (twTrans w)\<lparr>tAt := parse_time (twAt w)\<rparr>"

section \<open>Jobs\<close>

definition create_job :: "job \<Rightarrow> (store, unit) op" where
  "create_job j = andThen exec (\<lambda>_ s.
     if jId j \<in> (\<lambda>w. jId (jwJob w)) ` set (sJobs s) then (Inl ''UNIQUE constraint failed: jobs.id'', s)
     else (Inr (), s\<lparr>sJobs := sJobs s @ [\<lparr>jwJob = j\<lparr>jKind := if jKind j = [] then KindYAML else jKind j\<rparr>,
        jwSecretRefs = marshal_map (jSecrets j), jwCreated = format_rfc3339nano (jCreated j),
        jwUpdated = format_rfc3339nano (jUpdated j)\<rparr>]\<rparr>))"

definition get_job :: "string \<Rightarrow> (store, job) op" where
  "get_job i = andThen (query (\<lambda>s. find (\<lambda>w. jId (jwJob w) = i) (sJobs s)))
     (\<lambda>r. case r of None \<Rightarrow> fail ''sql: no rows in result set'' | Some w \<Rightarrow> ret (scan_job w))"

definition list_jobs :: "(store, job list) op" where
  "list_jobs = query (\<lambda>s. map scan_job (newest_first jwCreated (sJobs s)))"

definition set_desired :: "string \<Rightarrow> desired_state \<Rightarrow> gotime \<Rightarrow> (store, unit) op" where
  "set_desired i d now = andThen exec (\<lambda>_ s.
     if i \<notin> (\<lambda>w. jId (jwJob w)) ` set (sJobs s) then (Inl ''store: job not found'', s)
     else (Inr (), s\<lparr>sJobs := map (\<lambda>w. if jId (jwJob w) = i
        then w\<lparr>jwJob := (jwJob w)\<lparr>jDesired := d\<rparr>, jwUpdated := format_rfc3339nano now\<rparr> else w) (sJobs s)\<rparr>))"

definition delete_job :: "string \<Rightarrow> (store, unit) op" where
  "delete_job i = andThen exec (\<lambda>_. andThen (modify (\<lambda>s. s\<lparr>sTrans := filter (\<lambda>w. tJobID (twTrans w) \<noteq> i) (sTrans s)\<rparr>))
     (\<lambda>_. andThen exec (\<lambda>_. andThen (modify (\<lambda>s. s\<lparr>sRuns := filter (\<lambda>w. rwJobID w \<noteq> i) (sRuns s)\<rparr>))
     (\<lambda>_. andThen exec (\<lambda>_ s.
        if i \<notin> (\<lambda>w. jId (jwJob w)) ` set (sJobs s) then (Inl ''store: job not found'', s)
        else (Inr (), s\<lparr>sJobs := filter (\<lambda>w. jId (jwJob w) \<noteq> i) (sJobs s)\<rparr>))))))"

section \<open>Runs\<close>

abbreviation active :: "run_row \<Rightarrow> bool" where
  "active w \<equiv> rwStopped w = None"

text \<open>The partial unique index \<^verbatim>\<open>idx_runs_one_active_per_job\<close>.\<close>

definition one_active :: "run_row list \<Rightarrow> bool" where
  "one_active rows = distinct (map rwJobID (filter active rows))"

definition insert_run :: "run \<Rightarrow> (store, unit) op" where
  "insert_run r = andThen exec (\<lambda>_ s.
     let row = \<lparr>rwId = rnId r, rwJobID = rnJobID r, rwContainerID = rnContainerID r, rwHostPort = rnHostPort r,
           rwPhase = rnPhase r, rwAttempt = rnAttempt r, rwError = rnError r, rwFailureKind = rnFailureKind r,
           rwStarted = format_rfc3339nano (rnStarted r), rwStopped = null_time (rnStopped r),
           rwRestartAt = null_time (rnRestartAt r)\<rparr>
     in if rnId r \<in> rwId ` set (sRuns s) then (Inl ''UNIQUE constraint failed: runs.id'', s)
        else if \<not> one_active (sRuns s @ [row]) then (Inl ''UNIQUE constraint failed: runs.job_id'', s)
        else (Inr (), s\<lparr>sRuns := sRuns s @ [row]\<rparr>))"

definition set_run :: "run \<Rightarrow> run_row \<Rightarrow> run_row" where
  "set_run r w = (if rwId w = rnId r then w\<lparr>rwContainerID := rnContainerID r, rwHostPort := rnHostPort r,
     rwPhase := rnPhase r, rwAttempt := rnAttempt r, rwError := rnError r, rwFailureKind := rnFailureKind r,
     rwStopped := null_time (rnStopped r), rwRestartAt := null_time (rnRestartAt r)\<rparr> else w)"

definition update_run_row :: "run \<Rightarrow> (store, unit) op" where
  "update_run_row r = andThen exec (\<lambda>_ s.
     let rows = map (set_run r) (sRuns s)
     in if rnId r \<notin> rwId ` set (sRuns s) then (Inl ''store: run not found'', s)
        else if \<not> one_active rows then (Inl ''UNIQUE constraint failed: runs.job_id'', s)
        else (Inr (), s\<lparr>sRuns := rows\<rparr>))"

definition append_trans_row :: "transition \<Rightarrow> (store, unit) op" where
  "append_trans_row t = andThen exec (\<lambda>_. modify (\<lambda>s. s\<lparr>
     sTrans := sTrans s @ [\<lparr>twTrans = t\<lparr>tId := sNext s\<rparr>, twAt = format_rfc3339nano (tAt t)\<rparr>],
     sNext := sNext s + 1\<rparr>))"

definition create_run :: "run \<Rightarrow> (store, unit) op" where
  "create_run r = insert_run r"

definition create_run_with_transition :: "run \<Rightarrow> transition option \<Rightarrow> (store, unit) op" where
  "create_run_with_transition r t = tx (andThen (insert_run r)
     (\<lambda>_. case t of None \<Rightarrow> ret () | Some t \<Rightarrow> append_trans_row t))"

definition update_run :: "run \<Rightarrow> (store, unit) op" where
  "update_run r = update_run_row r"

definition update_run_with_transition :: "run \<Rightarrow> transition option \<Rightarrow> (store, unit) op" where
  "update_run_with_transition r t = tx (andThen (update_run_row r)
     (\<lambda>_. case t of None \<Rightarrow> ret () | Some t \<Rightarrow> append_trans_row t))"

definition get_run :: "string \<Rightarrow> (store, run) op" where
  "get_run i = andThen (query (\<lambda>s. find (\<lambda>w. rwId w = i) (sRuns s)))
     (\<lambda>r. case r of None \<Rightarrow> fail ''sql: no rows in result set'' | Some w \<Rightarrow> ret (scan_run w))"

definition runs_desc :: "string \<Rightarrow> store \<Rightarrow> run_row list" where
  "runs_desc i s = newest_first rwStarted (filter (\<lambda>w. rwJobID w = i) (sRuns s))"

definition latest_run :: "string \<Rightarrow> (store, run option) op" where
  "latest_run i = query (\<lambda>s. case runs_desc i s of [] \<Rightarrow> None | w # _ \<Rightarrow> Some (scan_run w))"

definition list_runs :: "string \<Rightarrow> (store, run list) op" where
  "list_runs i = query (\<lambda>s. map scan_run (runs_desc i s))"

definition active_runs :: "(store, run list) op" where
  "active_runs = query (\<lambda>s. map scan_run (filter active (sRuns s)))"

definition delete_run_row :: "string \<Rightarrow> (store, int) op" where
  "delete_run_row i = andThen exec (\<lambda>_. andThen (modify (\<lambda>s. s\<lparr>sTrans := filter (\<lambda>w. tRunID (twTrans w) \<noteq> i) (sTrans s)\<rparr>))
     (\<lambda>_. andThen exec (\<lambda>_ s. (Inr (int (length (filter (\<lambda>w. rwId w = i) (sRuns s)))),
        s\<lparr>sRuns := filter (\<lambda>w. rwId w \<noteq> i) (sRuns s)\<rparr>))))"

fun delete_run_rows :: "string list \<Rightarrow> (store, int) op" where
  "delete_run_rows [] = ret 0"
| "delete_run_rows (i # is) = andThen (delete_run_row i) (\<lambda>n. andThen (delete_run_rows is) (\<lambda>m. ret (n + m)))"

definition prunable :: "string \<Rightarrow> int \<Rightarrow> store \<Rightarrow> string list" where
  "prunable i keep s =
     (if keep \<le> 0 then map rwId (filter (\<lambda>w. rwJobID w = i \<and> \<not> active w) (sRuns s))
      else map rwId (drop (nat keep) (newest_first rwStarted (filter (\<lambda>w. rwJobID w = i \<and> \<not> active w) (sRuns s)))))"

definition store_prune :: "string \<Rightarrow> int \<Rightarrow> (store, int) op" where
  "store_prune i keep = tx (andThen (query (prunable i (if keep < 0 then 0 else keep))) delete_run_rows)"

section \<open>Transitions\<close>

definition append_transition :: "transition \<Rightarrow> (store, unit) op" where
  "append_transition t = append_trans_row t"

definition trans_of :: "string \<Rightarrow> store \<Rightarrow> transition list" where
  "trans_of i s = map scan_transition (filter (\<lambda>w. tJobID (twTrans w) = i) (sTrans s))"

definition list_transitions :: "string \<Rightarrow> (store, transition list) op" where
  "list_transitions i = query (\<lambda>s. sort_key tId (trans_of i s))"

definition DefaultTransitionLimit :: int where "DefaultTransitionLimit = 50"
definition MaxTransitionLimit :: int where "MaxTransitionLimit = 200"

definition page_limit :: "int \<Rightarrow> int" where
  "page_limit l = (let l = (if l \<le> 0 then DefaultTransitionLimit else l)
     in if MaxTransitionLimit < l then MaxTransitionLimit else l)"

definition list_transitions_paged :: "string \<Rightarrow> int \<Rightarrow> int \<Rightarrow> (store, transition list) op" where
  "list_transitions_paged i before l = query (\<lambda>s. take (nat (page_limit l))
     (rev (sort_key tId (if 0 < before then filter (\<lambda>t. tId t < before) (trans_of i s) else trans_of i s))))"

end
