(* ===== verification/Container_Backend.thy ===== *)
theory Container_Backend
  imports Fallible Go_Time
begin

text \<open>
  The interface behind which containers run (\<^verbatim>\<open>control/backend/backend.go\<close>), what the controller may
  rely on as a locale, and the in-memory backend of \<^verbatim>\<open>control/backend/fake.go\<close>, which satisfies it.
  The Docker and Kubernetes backends are calls into their client libraries and are not modelled.
\<close>

datatype bphase = PhasePending | PhaseRunning | PhaseExited | PhaseGone | PhaseUnhealthy

record resource_limits =
  rlCPU :: string
  rlMemory :: string
  rlEphemeralStorage :: string

record launch_spec =
  lsJobID :: string
  lsName :: string
  lsImage :: string
  lsWorkflowDoc :: bytes
  lsEnv :: "(string \<times> string) list"
  lsControlPort :: int
  lsRestoreSavepoint :: string
  lsPullPolicy :: string
  lsResources :: "resource_limits option"

record status =
  stPhase :: bphase
  stExitCode :: int
  stOOMKilled :: bool
  stReason :: string
  stHostPort :: int
  stAddress :: string

definition PullIfNotPresent :: string where "PullIfNotPresent = ''ifnotpresent''"

text \<open>The parts of a capacity snapshot the controller looks at, and the slot counts.\<close>

record container_stats =
  csID :: string
  csName :: string
  csJobID :: string
  csManaged :: bool
  csImage :: string
  csState :: bphase
  csStartedAt :: int

record capacity_snapshot =
  snHealth :: string
  snReason :: string
  snTotalSlots :: int
  snUsedSlots :: int
  snAvailableSlots :: int
  snMaxJobs :: int
  snRunning :: int
  snStarting :: int
  snExited :: int
  snContainers :: "container_stats list"

record 'b backend_ops =
  bLaunch :: "launch_spec \<Rightarrow> ('b, string) op"
  bStop :: "string \<Rightarrow> duration \<Rightarrow> ('b, unit) op"
  bStatus :: "string \<Rightarrow> ('b, status) op"
  bLogs :: "string \<Rightarrow> int \<Rightarrow> ('b, string) op"
  bRemove :: "string \<Rightarrow> ('b, unit) op"
  bDeleteJobData :: "string \<Rightarrow> ('b, unit) op"
  bCapacity :: "int \<Rightarrow> ('b, capacity_snapshot) op"

section \<open>The contract\<close>

text \<open>
  \<open>live b j\<close> are the containers of job \<open>j\<close> whose process may be running. Only a successful launch adds
  one, under a new non-empty id; a successful stop or removal ends the container; a container that
  is reported as exited or gone is not live. Every operation may fail, and then has at most ended
  containers.
\<close>

locale container_backend =
  fixes B :: "'b backend_ops" and live :: "'b \<Rightarrow> string \<Rightarrow> string set" and ok :: "'b \<Rightarrow> bool"
  assumes launch_ok: "ok b \<Longrightarrow> bLaunch B spec b = (Inr c, b') \<Longrightarrow>
      ok b' \<and> c \<noteq> [] \<and> (\<forall>j. live b' j \<subseteq> (if j = lsJobID spec then insert c (live b j) else live b j))"
    and launch_err: "ok b \<Longrightarrow> bLaunch B spec b = (Inl e, b') \<Longrightarrow> ok b' \<and> (\<forall>j. live b' j \<subseteq> live b j)"
    and stop_ok: "ok b \<Longrightarrow> bStop B c d b = (Inr u, b') \<Longrightarrow> ok b' \<and> (\<forall>j. live b' j \<subseteq> live b j - {c})"
    and stop_err: "ok b \<Longrightarrow> bStop B c d b = (Inl e, b') \<Longrightarrow> ok b' \<and> (\<forall>j. live b' j \<subseteq> live b j)"
    and status_ok: "ok b \<Longrightarrow> bStatus B c b = (Inr st, b') \<Longrightarrow> ok b' \<and> (\<forall>j. live b' j \<subseteq> live b j) \<and>
      (stPhase st \<in> {PhaseExited, PhaseGone} \<longrightarrow> (\<forall>j. c \<notin> live b' j))"
    and status_err: "ok b \<Longrightarrow> bStatus B c b = (Inl e, b') \<Longrightarrow> ok b' \<and> (\<forall>j. live b' j \<subseteq> live b j)"
    and remove_ok: "ok b \<Longrightarrow> bRemove B c b = (Inr u, b') \<Longrightarrow> ok b' \<and> (\<forall>j. live b' j \<subseteq> live b j - {c})"
    and remove_err: "ok b \<Longrightarrow> bRemove B c b = (Inl e, b') \<Longrightarrow> ok b' \<and> (\<forall>j. live b' j \<subseteq> live b j)"
    and delete_data: "ok b \<Longrightarrow> bDeleteJobData B j' b = (r, b') \<Longrightarrow> ok b' \<and> (\<forall>j. live b' j \<subseteq> live b j)"
    and capacity: "ok b \<Longrightarrow> bCapacity B n b = (r', b') \<Longrightarrow> ok b' \<and> (\<forall>j. live b' j \<subseteq> live b j)"
    and nameless: "ok b \<Longrightarrow> [] \<notin> live b j"

text \<open>A backend on which removing a container does not fail.\<close>

locale removing_backend = container_backend +
  assumes removes: "ok b \<Longrightarrow> \<exists>b'. bRemove B c b = (Inr (), b')"

section \<open>The in-memory backend\<close>

record fake_container =
  fcSpec :: launch_spec
  fcStatus :: status
  fcLogs :: string
  fcRemoved :: bool
  fcLaunched :: gotime

record fake =
  fSeq :: int
  fContainers :: "(string \<times> fake_container) list"
  fDataDeleted :: "string list"
  fLaunchErr :: "string option"
  fNow :: gotime

definition new_fake :: fake where
  "new_fake = \<lparr>fSeq = 0, fContainers = [], fDataDeleted = [], fLaunchErr = None, fNow = 0\<rparr>"

definition fake_id :: "string \<Rightarrow> int \<Rightarrow> string" where
  "fake_id j n = ''fake-'' @ j @ ''-'' @ itoa n"

definition fake_launch :: "launch_spec \<Rightarrow> (fake, string) op" where
  "fake_launch spec f =
     (case fLaunchErr f of
        Some e \<Rightarrow> (Inl e, f\<lparr>fLaunchErr := None\<rparr>)
      | None \<Rightarrow>
          let n = fSeq f + 1; i = fake_id (lsJobID spec) n
          in (Inr i, f\<lparr>fSeq := n, fContainers := AList.update i
               \<lparr>fcSpec = spec, fcStatus = \<lparr>stPhase = PhaseRunning, stExitCode = 0, stOOMKilled = False, stReason = [],
                  stHostPort = 30000 + n, stAddress = ''127.0.0.1:'' @ itoa (30000 + n)\<rparr>,
                fcLogs = [], fcRemoved = False, fcLaunched = fNow f\<rparr> (fContainers f)\<rparr>))"

definition fake_update :: "string \<Rightarrow> (fake_container \<Rightarrow> fake_container) \<Rightarrow> fake \<Rightarrow> fake" where
  "fake_update i g f = (case map_of (fContainers f) i of
     None \<Rightarrow> f | Some c \<Rightarrow> f\<lparr>fContainers := AList.update i (g c) (fContainers f)\<rparr>)"

definition set_phase :: "string \<Rightarrow> bphase \<Rightarrow> int \<Rightarrow> fake \<Rightarrow> fake" where
  "set_phase i p code = fake_update i (\<lambda>c. c\<lparr>fcStatus := (fcStatus c)\<lparr>stPhase := p, stExitCode := code\<rparr>\<rparr>)"

definition fake_stop :: "string \<Rightarrow> duration \<Rightarrow> (fake, unit) op" where
  "fake_stop i d f = (Inr (), fake_update i (\<lambda>c. c\<lparr>fcStatus := (fcStatus c)\<lparr>stPhase := PhaseExited, stExitCode := 0\<rparr>\<rparr>) f)"

definition gone :: status where
  "gone = \<lparr>stPhase = PhaseGone, stExitCode = 0, stOOMKilled = False, stReason = [], stHostPort = 0, stAddress = []\<rparr>"

definition fake_status :: "string \<Rightarrow> (fake, status) op" where
  "fake_status i f = (Inr (case map_of (fContainers f) i of
     None \<Rightarrow> gone | Some c \<Rightarrow> if fcRemoved c then gone else fcStatus c), f)"

definition fake_logs :: "string \<Rightarrow> int \<Rightarrow> (fake, string) op" where
  "fake_logs i tail f = (Inr (case map_of (fContainers f) i of None \<Rightarrow> [] | Some c \<Rightarrow> fcLogs c), f)"

definition fake_remove :: "string \<Rightarrow> (fake, unit) op" where
  "fake_remove i f = (Inr (), fake_update i (\<lambda>c. c\<lparr>fcRemoved := True\<rparr>) f)"

definition fake_delete_job_data :: "string \<Rightarrow> (fake, unit) op" where
  "fake_delete_job_data j f = (Inr (), f\<lparr>fDataDeleted := List.insert j (fDataDeleted f)\<rparr>)"

definition fake_capacity :: "int \<Rightarrow> (fake, capacity_snapshot) op" where
  "fake_capacity maxJobs f =
     (let cs = filter (\<lambda>(i, c). \<not> fcRemoved c) (fContainers f);
          count = (\<lambda>p. int (length (filter (\<lambda>(i, c). stPhase (fcStatus c) = p) cs)));
          starting = count PhasePending;
          used = count PhaseRunning + starting;
          available = (if 0 < maxJobs then (if maxJobs - used < 0 then 0 else maxJobs - used) else 0);
          total = (if 0 < maxJobs then used + available else used)
      in (Inr \<lparr>snHealth = ''healthy'', snReason = [], snTotalSlots = total, snUsedSlots = used,
            snAvailableSlots = available, snMaxJobs = maxJobs, snRunning = used - starting, snStarting = starting,
            snExited = count PhaseExited + count PhaseGone,
            snContainers = map (\<lambda>(i, c). \<lparr>csID = i, csName = ''weibo-'' @ lsJobID (fcSpec c), csJobID = lsJobID (fcSpec c),
              csManaged = True, csImage = lsImage (fcSpec c), csState = stPhase (fcStatus c),
              csStartedAt = fcLaunched c div 10 ^ 9\<rparr>) cs\<rparr>, f))"

definition fake_backend :: "fake backend_ops" where
  "fake_backend = \<lparr>bLaunch = fake_launch, bStop = fake_stop, bStatus = fake_status, bLogs = fake_logs,
     bRemove = fake_remove, bDeleteJobData = fake_delete_job_data, bCapacity = fake_capacity\<rparr>"

section \<open>The in-memory backend keeps the contract\<close>

definition fake_live :: "fake \<Rightarrow> string \<Rightarrow> string set" where
  "fake_live f j = {i. \<exists>c. map_of (fContainers f) i = Some c \<and> \<not> fcRemoved c \<and> lsJobID (fcSpec c) = j \<and>
     stPhase (fcStatus c) \<in> {PhasePending, PhaseRunning, PhaseUnhealthy}}"

definition fake_ok :: "fake \<Rightarrow> bool" where
  "fake_ok f \<longleftrightarrow> [] \<notin> dom (map_of (fContainers f))"

lemma fake_id_not_Nil [simp]: "fake_id j n \<noteq> []" "[] \<noteq> fake_id j n"
  by (simp_all add: fake_id_def)

lemma map_of_fake_update:
  "map_of (fContainers (fake_update i g f)) = (\<lambda>k. if k = i then map_option g (map_of (fContainers f) i) else map_of (fContainers f) k)"
  by (auto simp: fake_update_def update_conv' split: option.splits)

lemma fake_update_live:
  assumes "\<And>c. fcSpec (g c) = fcSpec c"
    and "\<And>c. \<not> fcRemoved (g c) \<Longrightarrow> \<not> fcRemoved c"
    and "\<And>c. \<not> fcRemoved (g c) \<Longrightarrow> stPhase (fcStatus (g c)) \<in> {PhaseExited, PhaseGone}"
  shows "fake_live (fake_update i g f) j \<subseteq> fake_live f j - {i}"
  using assms(3) by (fastforce simp: fake_live_def map_of_fake_update split: if_splits)

lemma fake_update_ok: "fake_ok f \<Longrightarrow> fake_ok (fake_update i g f)"
  by (auto simp: fake_ok_def map_of_fake_update split: if_splits)

interpretation fb: removing_backend fake_backend fake_live fake_ok
proof
  show "fake_ok b' \<and> c \<noteq> [] \<and> (\<forall>j. fake_live b' j \<subseteq> (if j = lsJobID spec then insert c (fake_live b j) else fake_live b j))"
    if "fake_ok b" "bLaunch fake_backend spec b = (Inr c, b')" for b spec c b'
    using that by (auto simp: fake_backend_def fake_launch_def fake_ok_def fake_live_def update_conv' Let_def
        split: option.splits if_splits)
  show "fake_ok b' \<and> (\<forall>j. fake_live b' j \<subseteq> fake_live b j)"
    if "fake_ok b" "bLaunch fake_backend spec b = (Inl e, b')" for b spec e b'
    using that by (auto simp: fake_backend_def fake_launch_def fake_ok_def fake_live_def Let_def split: option.splits)
  show "fake_ok b' \<and> (\<forall>j. fake_live b' j \<subseteq> fake_live b j - {c})"
    if "fake_ok b" "bStop fake_backend c d b = (Inr u, b')" for b c d u b'
    using that by (auto simp: fake_backend_def fake_stop_def intro!: fake_update_ok dest!: subsetD [OF fake_update_live, rotated -1])
  show "fake_ok b' \<and> (\<forall>j. fake_live b' j \<subseteq> fake_live b j - {c})"
    if "fake_ok b" "bRemove fake_backend c b = (Inr u, b')" for b c u b'
    using that by (auto simp: fake_backend_def fake_remove_def intro!: fake_update_ok dest!: subsetD [OF fake_update_live, rotated -1])
qed (auto simp: fake_backend_def fake_stop_def fake_remove_def fake_status_def fake_delete_job_data_def fake_capacity_def
    fake_live_def fake_ok_def gone_def Let_def split: option.splits if_splits)

end
