(* ===== verification/History.thy ===== *)
theory History
  imports Go_Time Records
begin

text \<open>
  The bounded in-memory history of a job's samples (\<^verbatim>\<open>control/history.go\<close>). The downsampling of
  \<^verbatim>\<open>Series\<close> computes its stride in floating point and is modelled only for the two cases that do not;
  fetching samples over HTTP is not modelled.
\<close>

definition DefaultHistorySamples :: int where "DefaultHistorySamples = 240"

record sample =
  smAt :: gotime
  smPhase :: string
  smRecordsIn :: int
  smRecordsOut :: int
  smCheckpointID :: string
  smLastCheckpointAt :: "gotime option"
  smCheckpointDurationMs :: int
  smCheckpointSizeBytes :: int
  smKafkaLag :: int
  smEdgeQueued :: int
  smErrors :: int
  smLastError :: string

record history =
  hMax :: int
  hSeries :: "(string \<times> sample list) list"

definition new_history :: "int \<Rightarrow> history" where
  "new_history m = \<lparr>hMax = (if m \<le> 0 then DefaultHistorySamples else m), hSeries = []\<rparr>"

definition hist_series :: "string \<Rightarrow> history \<Rightarrow> sample list" where \<comment> \<open>\<^verbatim>\<open>h.series[jobID]\<close>, nil when absent\<close>
  "hist_series j h = (case map_of (hSeries h) j of None \<Rightarrow> [] | Some xs \<Rightarrow> xs)"

definition hist_add :: "string \<Rightarrow> sample \<Rightarrow> history \<Rightarrow> history" where
  "hist_add j s h =
     (let series = hist_series j h @ [s];
          series = (if hMax h < int (length series) then drop (length series - nat (hMax h)) series else series)
      in h\<lparr>hSeries := AList.update j series (hSeries h)\<rparr>)"

definition hist_drop :: "string \<Rightarrow> history \<Rightarrow> history" where
  "hist_drop j h = h\<lparr>hSeries := AList.delete j (hSeries h)\<rparr>"

definition hist_latest :: "string \<Rightarrow> history \<Rightarrow> sample option" where
  "hist_latest j h = (case hist_series j h of [] \<Rightarrow> None | xs \<Rightarrow> Some (last xs))"

definition jobs_with_history :: "history \<Rightarrow> string list" where
  "jobs_with_history h = map fst (filter (\<lambda>(j, xs). xs \<noteq> []) (hSeries h))"

lemma hist_series_add:
  "hist_series k (hist_add j s h) =
     (if k = j then let xs = hist_series j h @ [s] in drop (length xs - nat (hMax h)) xs else hist_series k h)"
  if "0 < hMax h"
  using that by (auto simp: hist_series_def hist_add_def Let_def update_conv')

lemma hist_drop_series: "hist_series k (hist_drop j h) = (if k = j then [] else hist_series k h)"
  by (simp add: hist_series_def hist_drop_def delete_conv')

text \<open>The operations of a history, and what a history without a bound would hold of one job.\<close>

datatype history_op = AddSample string sample | DropJob string

fun history_apply :: "history_op \<Rightarrow> history \<Rightarrow> history" where
  "history_apply (AddSample j s) h = hist_add j s h"
| "history_apply (DropJob j) h = hist_drop j h"

fun samples_since_drop :: "string \<Rightarrow> history_op list \<Rightarrow> sample list \<Rightarrow> sample list" where
  "samples_since_drop j [] xs = xs"
| "samples_since_drop j (AddSample k s # es) xs = samples_since_drop j es (if k = j then xs @ [s] else xs)"
| "samples_since_drop j (DropJob k # es) xs = samples_since_drop j es (if k = j then [] else xs)"

lemma hist_max [simp]: "hMax (hist_add j s h) = hMax h" "hMax (hist_drop j h) = hMax h"
  by (simp_all add: hist_add_def hist_drop_def Let_def)

lemma history_fold:
  assumes "0 < hMax h" and "hist_series j h = drop (length xs - nat (hMax h)) xs"
  shows "hist_series j (fold history_apply es h) =
    drop (length (samples_since_drop j es xs) - nat (hMax h)) (samples_since_drop j es xs)"
  using assms
proof (induction es arbitrary: h xs)
  case (Cons e es)
  show ?case
  proof (cases e)
    case (AddSample k s)
    have "hist_series j (hist_add k s h) = (let ys = (if k = j then xs @ [s] else xs) in drop (length ys - nat (hMax h)) ys)"
      using Cons.prems by (cases "length xs < nat (hMax h)") (auto simp: hist_series_add Let_def Suc_diff_le not_less)
    then show ?thesis
      using Cons.IH [of "history_apply e h" "if k = j then xs @ [s] else xs"] Cons.prems AddSample by (simp add: Let_def)
  next
    case (DropJob k)
    then show ?thesis
      using Cons.IH [of "history_apply e h" "if k = j then [] else xs"] Cons.prems by (simp add: hist_drop_series)
  qed
qed simp

text \<open>
  C31. The history of every job is a bounded suffix of what was recorded for it: after any sequence of
  samples and drops, for whatever jobs, the series of job \<open>j\<close> holds exactly the newest of the samples
  added for \<open>j\<close> since \<open>j\<close> was last dropped, in order and up to the capacity (the default of 240 when
  none is given), and its latest sample is the last of these. Nothing done for another job matters.
\<close>

theorem history_keeps_newest:
  "let cap = nat (if m \<le> 0 then DefaultHistorySamples else m);
       h = fold history_apply es (new_history m); xs = samples_since_drop j es []
   in hist_series j h = drop (length xs - cap) xs \<and> hist_latest j h = (if xs = [] then None else Some (last xs))"
proof -
  define xs where "xs = samples_since_drop j es []"
  define cap where "cap = nat (if m \<le> 0 then DefaultHistorySamples else m)"
  have "hist_series j (fold history_apply es (new_history m)) = drop (length xs - cap) xs"
    using history_fold [of "new_history m" j "[]" es]
    by (simp add: new_history_def hist_series_def xs_def cap_def DefaultHistorySamples_def)
  moreover have "drop (length xs - cap) xs \<noteq> [] \<and> last (drop (length xs - cap) xs) = last xs" if "xs \<noteq> []"
  proof -
    have "length xs - cap < length xs" using that by (simp add: cap_def DefaultHistorySamples_def)
    then show ?thesis by (simp add: last_drop)
  qed
  ultimately show ?thesis
    by (auto simp: hist_latest_def Let_def simp flip: xs_def cap_def split: list.splits)
qed

end
