(* ===== verification/Controller.thy ===== *)
theory Controller
  imports Control_Store Container_Backend History
begin

text \<open>
  The controller (\<^verbatim>\<open>control/controller.go\<close>, \<^verbatim>\<open>control/secrets.go\<close>, \<^verbatim>\<open>control/launch_failure.go\<close>): every
  operation that changes the store, the backend or the process memory. The configuration carries
  what lies outside the repository or outside the process: the backend, the secret provider, the
  compiler's verdict on a workflow document, the YAML reader for manifests, the quantity parser, the
  job agent, the clock and the id source, the last two as functions of the number of readings so
  far. The per-job lock makes each operation on a job atomic, so operations are functions on the
  state. Metrics, logs and traces are left out.
\<close>

type_synonym env = "(string \<times> string) list"

record resource_spec =
  rsCPU :: string
  rsMemory :: string
  rsEphemeralStorage :: string

record sdk_manifest =
  mKind :: string
  mName :: string
  mImage :: string
  mEnv :: env
  mResources :: "resource_spec option"

record 'b config =
  gBackend :: "'b backend_ops"
  gImage :: string
  gPort :: int
  gRestart :: restart_policy
  gSecretStore :: "secret_ref \<Rightarrow> string + string"
  gStopTimeout :: duration
  gMaxJobs :: int
  gRetention :: int
  gNewID :: "nat \<Rightarrow> string"
  gClock :: "nat \<Rightarrow> gotime"
  gValidate :: "bytes \<Rightarrow> env \<Rightarrow> string + (string \<times> string \<times> json)"
  gYaml :: "bytes \<Rightarrow> sdk_manifest option"
  gQuote :: "string \<Rightarrow> string" \<comment> \<open>\<^verbatim>\<open>strconv.Quote\<close>, whose escapes follow the Unicode tables\<close>
  gQuantity :: "string \<Rightarrow> string option" \<comment> \<open>the error of \<^verbatim>\<open>resource.ParseQuantity\<close>, if any\<close>
  gClassify :: "string \<Rightarrow> bool option" \<comment> \<open>the verdict of an error that knows whether it is permanent\<close>
  gAgent :: "string \<Rightarrow> string \<Rightarrow> string + int" \<comment> \<open>status of \<^verbatim>\<open>POST /savepoint\<close> at an address\<close>

record 'b ctrl =
  cStore :: store
  cBackend :: 'b
  cSecrets :: "(string \<times> env) list"
  cHistory :: history
  cTicks :: nat
  cIds :: nat

type_synonym ('b, 'a) ctl = "('b ctrl, 'a) op"

definition on_store :: "(store, 'a) op \<Rightarrow> ('b, 'a) ctl" where
  "on_store = zoom cStore (\<lambda>t s. s\<lparr>cStore := t\<rparr>)"

definition on_backend :: "('b, 'a) op \<Rightarrow> ('b, 'a) ctl" where
  "on_backend = zoom cBackend (\<lambda>t s. s\<lparr>cBackend := t\<rparr>)"

definition time_now :: "'b config \<Rightarrow> ('b, gotime) ctl" where
  "time_now g s = (Inr (gClock g (cTicks s)), s\<lparr>cTicks := cTicks s + 1\<rparr>)"

definition new_id :: "'b config \<Rightarrow> ('b, string) ctl" where
  "new_id g s = (Inr (gNewID g (cIds s)), s\<lparr>cIds := cIds s + 1\<rparr>)"

section \<open>Defaults\<close>

definition DefaultTerminalRunRetention :: int where "DefaultTerminalRunRetention = 5"

definition new_controller :: "'b config \<Rightarrow> 'b config" where
  "new_controller o1 = o1\<lparr>
     gPort := if gPort o1 = 0 then 8080 else gPort o1,
     gRestart := if gRestart o1 = \<lparr>rpMaxAttempts = 0, rpBaseBackoff = 0, rpMaxBackoff = 0\<rparr>
       then default_restart_policy else gRestart o1,
     gStopTimeout := if gStopTimeout o1 = 0 then 30 * 10 ^ 9 else gStopTimeout o1,
     gRetention := if gRetention o1 = 0 then DefaultTerminalRunRetention else gRetention o1\<rparr>"

section \<open>Secrets and environment\<close>

definition env_copy :: "(string \<times> 'v) list \<Rightarrow> (string \<times> 'v) list \<Rightarrow> (string \<times> 'v) list" where \<comment> \<open>\<^verbatim>\<open>maps.Copy\<close>\<close>
  "env_copy dst src = fold (\<lambda>(k, v). AList.update k v) src dst"

definition merge_env :: "env \<Rightarrow> env \<Rightarrow> env" where
  "merge_env base over = (if base = [] then over else env_copy (env_copy [] base) over)"

definition secret_refs_from_env :: "env \<Rightarrow> (string \<times> secret_ref) list" where
  "secret_refs_from_env env = map (\<lambda>(k, v). (k, \<lparr>srProvider = ''env'', srName = k, srKey = []\<rparr>)) env"

definition merge_secret_refs :: "(string \<times> secret_ref) list \<Rightarrow> (string \<times> secret_ref) list \<Rightarrow> (string \<times> secret_ref) list" where
  "merge_secret_refs base over = env_copy (env_copy [] base) over"

fun resolve_refs :: "(secret_ref \<Rightarrow> string + string) \<Rightarrow> (string \<times> secret_ref) list \<Rightarrow> env \<Rightarrow> string + env" where
  "resolve_refs f [] env = Inr env"
| "resolve_refs f ((k, ref) # rs) env =
     (if k \<in> fst ` set env then resolve_refs f rs env
      else case f ref of Inl e \<Rightarrow> Inl e | Inr v \<Rightarrow> resolve_refs f rs (AList.update k v env))"

definition resolve_env_refs :: "'b config \<Rightarrow> env \<Rightarrow> (string \<times> secret_ref) list \<Rightarrow> string + env" where
  "resolve_env_refs g env refs = resolve_refs (gSecretStore g) refs (env_copy [] env)"

definition set_secrets :: "string \<Rightarrow> env \<Rightarrow> ('b, unit) ctl" where
  "set_secrets j env = modify (\<lambda>s. if env = [] then s else s\<lparr>cSecrets := AList.update j (env_copy [] env) (cSecrets s)\<rparr>)"

definition get_secrets :: "string \<Rightarrow> 'b ctrl \<Rightarrow> env" where
  "get_secrets j s = (case map_of (cSecrets s) j of None \<Rightarrow> [] | Some e \<Rightarrow> e)"

definition launch_env :: "'b config \<Rightarrow> job \<Rightarrow> 'b ctrl \<Rightarrow> string + env" where
  "launch_env g job s = resolve_refs (gSecretStore g) (jSecrets job)
     (env_copy [(''WEIBO_JOB_ID'', jId job)] (get_secrets (jId job) s))"

section \<open>Manifests\<close>

text \<open>\<^verbatim>\<open>strings.EqualFold(kind, "sdk")\<close>: the letters fold with the long s and the Kelvin sign, too.\<close>

definition is_sdk_kind :: "string \<Rightarrow> bool" where
  "is_sdk_kind k \<longleftrightarrow> k \<in> set (map concat (product_lists
     [[''s'', ''S'', [CHR 0xC5, CHR 0xBF]], [''d'', ''D''], [''k'', ''K'', [CHR 0xE2, CHR 0x84, CHR 0xAA]]]))"

definition parse_sdk_manifest :: "'b config \<Rightarrow> bytes \<Rightarrow> sdk_manifest option" where
  "parse_sdk_manifest g doc = (case gYaml g doc of None \<Rightarrow> None | Some m \<Rightarrow> if is_sdk_kind (mKind m) then Some m else None)"

definition quantity_error :: "'b config \<Rightarrow> string \<Rightarrow> string \<Rightarrow> string option" where
  "quantity_error g what q = (if q = [] then None else map_option (\<lambda>e. ''invalid resources.'' @ what @ '' '' @ gQuote g q @ '': '' @ e) (gQuantity g q))"

definition validate_resources :: "'b config \<Rightarrow> resource_spec option \<Rightarrow> string option" where
  "validate_resources g r = (case r of None \<Rightarrow> None | Some r \<Rightarrow>
     (case quantity_error g ''cpu'' (rsCPU r) of Some e \<Rightarrow> Some e | None \<Rightarrow>
      case quantity_error g ''memory'' (rsMemory r) of Some e \<Rightarrow> Some e | None \<Rightarrow>
      quantity_error g ''ephemeralStorage'' (rsEphemeralStorage r)))"

definition to_limits :: "resource_spec option \<Rightarrow> resource_limits option" where
  "to_limits r = (case r of None \<Rightarrow> None | Some r \<Rightarrow>
     if rsCPU r = [] \<and> rsMemory r = [] \<and> rsEphemeralStorage r = [] then None
     else Some \<lparr>rlCPU = rsCPU r, rlMemory = rsMemory r, rlEphemeralStorage = rsEphemeralStorage r\<rparr>)"

section \<open>Launch failures\<close>

definition FailureLaunchTransient :: string where "FailureLaunchTransient = ''launch_transient''"
definition FailureLaunchPermanent :: string where "FailureLaunchPermanent = ''launch_permanent''"
definition FailureLaunchRecord :: string where "FailureLaunchRecord = ''launch_record''"
definition FailureSecretBlocked :: string where "FailureSecretBlocked = ''secret_blocked''"
definition FailureContainerUnhealthy :: string where "FailureContainerUnhealthy = ''container_unhealthy''"
definition FailureOOMKilled :: string where "FailureOOMKilled = ''oom_killed''"

definition lower_char :: "char \<Rightarrow> char" where
  "lower_char c = (let n = (of_char c :: nat) in if 65 \<le> n \<and> n \<le> 90 then char_of (n + 32) else c)"

definition contains_text :: "string \<Rightarrow> string \<Rightarrow> bool" where
  "contains_text s sub \<longleftrightarrow> list_ex (\<lambda>n. take (length sub) (drop n s) = sub) [0..<Suc (length s)]"

definition launch_failure_kind :: "'b config \<Rightarrow> string \<Rightarrow> string" where
  "launch_failure_kind g err =
     (case gClassify g err of
        Some permanent \<Rightarrow> if permanent then ''permanent'' else ''transient''
      | None \<Rightarrow>
          if list_ex (contains_text (map lower_char err))
            [''invalid reference format'', ''pull access denied'', ''repository does not exist'',
             ''manifest unknown'', ''not found: manifest'', ''no such image'']
          then ''permanent'' else ''transient'')"

section \<open>Recording phases\<close>

definition transition_record :: "'b config \<Rightarrow> string \<Rightarrow> string \<Rightarrow> phase option \<Rightarrow> phase \<Rightarrow> string \<Rightarrow> ('b, transition) ctl" where
  "transition_record g j r from to reason = andThen (time_now g) (\<lambda>t. ret
     \<lparr>tId = 0, tJobID = j, tRunID = r, tFrom = from, tTo = to, tReason = reason, tAt = t\<rparr>)"

definition update_with :: "'b config \<Rightarrow> run \<Rightarrow> phase \<Rightarrow> phase \<Rightarrow> string \<Rightarrow> ('b, unit) ctl" where
  "update_with g run from to reason =
     andThen (transition_record g (rnJobID run) (rnId run) (Some from) to reason)
       (\<lambda>t. on_store (update_run_with_transition run (Some t)))"

definition transition :: "'b config \<Rightarrow> string \<Rightarrow> string \<Rightarrow> phase option \<Rightarrow> phase \<Rightarrow> string \<Rightarrow> ('b, unit) ctl" where
  "transition g j r from to reason =
     andThen (transition_record g j r from to reason) (\<lambda>t. on_store (append_transition t))"

definition victims :: "'b config \<Rightarrow> run list \<Rightarrow> run list" where
  "victims g runs = drop (nat (gRetention g)) (rev (sort_key rnStarted (rev (filter (\<lambda>r. rnStopped r \<noteq> None) runs))))"

definition prune_terminal_runs :: "'b config \<Rightarrow> string \<Rightarrow> ('b, unit) ctl" where
  "prune_terminal_runs g j =
     (if gRetention g < 0 then ret ()
      else andThen (attempt (on_store (list_runs j))) (\<lambda>r. case r of
          Inl _ \<Rightarrow> ret ()
        | Inr runs \<Rightarrow>
            if int (length (filter (\<lambda>r. rnStopped r \<noteq> None) runs)) \<le> gRetention g then ret ()
            else andThen (for_each (\<lambda>v. if rnContainerID v = [] then ret ()
                     else unless_err (on_backend (bRemove (gBackend g) (rnContainerID v)))) (victims g runs))
                   (\<lambda>_. unless_err (on_store (store_prune j (gRetention g))))))"

definition finish_run :: "'b config \<Rightarrow> run \<Rightarrow> phase \<Rightarrow> phase \<Rightarrow> string \<Rightarrow> ('b, unit) ctl" where
  "finish_run g run from to reason =
     andThen (time_now g) (\<lambda>t.
     andThen (update_with g (run\<lparr>rnPhase := to, rnStopped := Some t, rnRestartAt := None\<rparr>) from to reason) (\<lambda>_.
     prune_terminal_runs g (rnJobID run)))"

definition block_run :: "'b config \<Rightarrow> run \<Rightarrow> phase \<Rightarrow> string \<Rightarrow> ('b, unit) ctl" where
  "block_run g run from reason =
     update_with g (run\<lparr>rnPhase := Blocked, rnError := reason, rnFailureKind := FailureSecretBlocked, rnRestartAt := None\<rparr>)
       from Blocked reason"

definition schedule_restart_from :: "'b config \<Rightarrow> run \<Rightarrow> phase \<Rightarrow> string \<Rightarrow> ('b, run) ctl" where
  "schedule_restart_from g run from reason =
     andThen (time_now g) (\<lambda>t.
     let run = run\<lparr>rnPhase := Restarting, rnError := reason, rnRestartAt := Some (t + backoff (gRestart g) (rnAttempt run))\<rparr>
     in andThen (update_with g run from Restarting reason) (\<lambda>_. ret run))"

definition schedule_restart :: "'b config \<Rightarrow> run \<Rightarrow> string \<Rightarrow> ('b, run) ctl" where
  "schedule_restart g run reason = schedule_restart_from g run Running reason"

definition mark_launch_record_failure :: "'b config \<Rightarrow> run \<Rightarrow> string \<Rightarrow> ('b, unit) ctl" where
  "mark_launch_record_failure g run cause =
     andThen (time_now g) (\<lambda>t. on_store (update_run (run\<lparr>rnContainerID := [], rnHostPort := 0, rnPhase := Failed,
       rnError := ''failed to record launched backend resource: '' @ cause, rnFailureKind := FailureLaunchRecord,
       rnStopped := Some t, rnRestartAt := None\<rparr>)))"

section \<open>Starting a run\<close>

definition launch_spec_of :: "'b config \<Rightarrow> job \<Rightarrow> env \<Rightarrow> string \<Rightarrow> launch_spec" where
  "launch_spec_of g job env restore =
     (let sdk = (jKind job = KindSDK);
          m = (if sdk then parse_sdk_manifest g (jSpec job) else None)
      in \<lparr>lsJobID = jId job, lsName = jName job, lsImage = (if sdk then jImage job else gImage g),
          lsWorkflowDoc = (if sdk then [] else jSpec job),
          lsEnv = (case m of Some m \<Rightarrow> merge_env (mEnv m) env | None \<Rightarrow> env),
          lsControlPort = gPort g, lsRestoreSavepoint = restore, lsPullPolicy = PullIfNotPresent,
          lsResources = (case m of Some m \<Rightarrow> to_limits (mResources m) | None \<Rightarrow> None)\<rparr>)"

definition launch_failed :: "'b config \<Rightarrow> run \<Rightarrow> string \<Rightarrow> ('b, unit) ctl" where
  "launch_failed g run err =
     (let run = run\<lparr>rnError := err, rnFailureKind := (if launch_failure_kind g err = ''permanent''
            then FailureLaunchPermanent else FailureLaunchTransient)\<rparr>
      in if rnFailureKind run = FailureLaunchTransient \<and> should_restart (gRestart g) Failed (rnAttempt run) then
           andThen (attempt (schedule_restart_from g run Starting err)) (\<lambda>u. case u of
               Inl ue \<Rightarrow> fail (''launch failed ('' @ err @ ''); additionally failed to schedule retry: '' @ ue)
             | Inr _ \<Rightarrow> fail err)
         else
           andThen (time_now g) (\<lambda>t.
           andThen (attempt (update_with g (run\<lparr>rnPhase := Failed, rnStopped := Some t\<rparr>) Starting Failed err)) (\<lambda>u. case u of
               Inl ue \<Rightarrow> fail (''launch failed ('' @ err @ ''); additionally failed to record run failure: '' @ ue)
             | Inr _ \<Rightarrow> fail err)))"

definition launch_record_failed :: "'b config \<Rightarrow> run \<Rightarrow> string \<Rightarrow> ('b, unit) ctl" where
  "launch_record_failed g run err =
     andThen (attempt (on_backend (bRemove (gBackend g) (rnContainerID run)))) (\<lambda>removeErr.
     andThen (attempt (mark_launch_record_failure g run err)) (\<lambda>recordErr.
     fail (''record launched run: '' @ err @
       (case removeErr of Inl e \<Rightarrow> ''; additionally failed to remove orphaned container '' @ rnContainerID run @ '': '' @ e
        | Inr _ \<Rightarrow> (case recordErr of Inl _ \<Rightarrow> ''; removed orphaned container '' @ rnContainerID run | Inr _ \<Rightarrow> [])) @
       (case recordErr of Inl e \<Rightarrow> ''; additionally failed to mark run failed: '' @ e | Inr _ \<Rightarrow> []))))"

definition launch_record :: "'b config \<Rightarrow> run \<Rightarrow> string \<Rightarrow> ('b, unit) ctl" where
  "launch_record g run c =
     andThen (attempt (on_backend (bStatus (gBackend g) c))) (\<lambda>st.
     let run = run\<lparr>rnContainerID := c, rnPhase := Running,
           rnHostPort := (case st of Inr st \<Rightarrow> stHostPort st | Inl _ \<Rightarrow> rnHostPort run)\<rparr>
     in andThen (attempt (update_with g run Starting Running ''launched'')) (\<lambda>u. case u of
          Inl e \<Rightarrow> launch_record_failed g run e | Inr _ \<Rightarrow> ret ()))"

definition launch_recorded :: "'b config \<Rightarrow> job \<Rightarrow> run \<Rightarrow> string \<Rightarrow> ('b, unit) ctl" where
  "launch_recorded g job run restore =
     andThen (gets (launch_env g job)) (\<lambda>env. case env of
       Inl err \<Rightarrow> andThen (attempt (block_run g run Starting err)) (\<lambda>u. case u of
           Inl ue \<Rightarrow> fail (''resolve launch secrets ('' @ err @ ''); additionally failed to record blocked run: '' @ ue)
         | Inr _ \<Rightarrow> fail err)
     | Inr env \<Rightarrow> andThen (attempt (on_backend (bLaunch (gBackend g) (launch_spec_of g job env restore)))) (\<lambda>l. case l of
           Inl err \<Rightarrow> launch_failed g run err
         | Inr c \<Rightarrow> launch_record g run c))"

definition start_run :: "'b config \<Rightarrow> job \<Rightarrow> int \<Rightarrow> string \<Rightarrow> ('b, unit) ctl" where
  "start_run g job n restore =
     andThen (on_store (list_runs (jId job))) (\<lambda>runs.
     case find (\<lambda>r. rnStopped r = None) runs of
       Some prev \<Rightarrow> fail (''job '' @ jId job @ '' already has an active run '' @ rnId prev)
     | None \<Rightarrow>
         andThen (time_now g) (\<lambda>t.
         andThen (new_id g) (\<lambda>i.
         let run = \<lparr>rnId = i, rnJobID = jId job, rnContainerID = [], rnHostPort = 0, rnPhase = Starting, rnAttempt = n,
               rnError = [], rnFailureKind = [], rnStarted = t, rnStopped = None, rnRestartAt = None\<rparr>
         in andThen (transition_record g (jId job) i (Some Submitted) Starting ''launch requested'') (\<lambda>tr.
            andThen (on_store (create_run_with_transition run (Some tr))) (\<lambda>_.
            launch_recorded g job run restore)))))"

abbreviation launch :: "'b config \<Rightarrow> job \<Rightarrow> int \<Rightarrow> string \<Rightarrow> ('b, unit) ctl" where
  "launch \<equiv> start_run"

section \<open>Submitting\<close>

definition submit_recorded :: "'b config \<Rightarrow> job \<Rightarrow> env \<Rightarrow> string \<Rightarrow> ('b, job) ctl" where
  "submit_recorded g job env reason =
     andThen (on_store (create_job job)) (\<lambda>_.
     andThen (set_secrets (jId job) env) (\<lambda>_.
     andThen (wrap ''submit: transition: '' (transition g (jId job) [] None Submitted reason)) (\<lambda>_.
     andThen (wrap ''submit: launch: '' (launch g job 1 [])) (\<lambda>_. ret job))))"

definition submit_sdk :: "'b config \<Rightarrow> bytes \<Rightarrow> sdk_manifest \<Rightarrow> env \<Rightarrow> (string \<times> secret_ref) list \<Rightarrow> ('b, job) ctl" where
  "submit_sdk g doc m env refs =
     (if mName m = [] then fail (''submit: sdk manifest missing '' @ [CHR 0x27] @ ''name'' @ [CHR 0x27])
      else if mImage m = [] then fail (''submit: sdk manifest missing '' @ [CHR 0x27] @ ''image'' @ [CHR 0x27])
      else case validate_resources g (mResources m) of Some e \<Rightarrow> fail (''submit: '' @ e)
      | None \<Rightarrow>
          andThen (time_now g) (\<lambda>t.
          andThen (new_id g) (\<lambda>i.
          submit_recorded g \<lparr>jId = i, jName = mName m, jKind = KindSDK, jSpec = doc, jImage = mImage m, jSecrets = refs,
            jDelivery = [], jGraph = JNull, jDesired = DesiredRunning, jCreated = t, jUpdated = t\<rparr> env ''submitted (sdk)'')))"

definition submit_with_secret_refs :: "'b config \<Rightarrow> bytes \<Rightarrow> env \<Rightarrow> (string \<times> secret_ref) list \<Rightarrow> ('b, job) ctl" where
  "submit_with_secret_refs g doc env refs0 =
     (let refs = merge_secret_refs (secret_refs_from_env env) refs0
      in case parse_sdk_manifest g doc of
           Some m \<Rightarrow> submit_sdk g doc m env refs
         | None \<Rightarrow>
             (case resolve_env_refs g env refs of
                Inl e \<Rightarrow> fail (''submit: resolve secret refs: '' @ e)
              | Inr venv \<Rightarrow>
                  (case gValidate g doc venv of
                     Inl e \<Rightarrow> fail (''submit: invalid workflow: '' @ e)
                   | Inr (name, delivery, graph) \<Rightarrow>
                       andThen (time_now g) (\<lambda>t.
                       andThen (new_id g) (\<lambda>i.
                       submit_recorded g \<lparr>jId = i, jName = name, jKind = KindYAML, jSpec = doc, jImage = [], jSecrets = refs,
                         jDelivery = delivery, jGraph = graph, jDesired = DesiredRunning, jCreated = t, jUpdated = t\<rparr>
                         env ''submitted'')))))"

definition submit :: "'b config \<Rightarrow> bytes \<Rightarrow> env \<Rightarrow> ('b, job) ctl" where
  "submit g doc env = submit_with_secret_refs g doc env []"

section \<open>Cancelling, deleting, restarting\<close>

definition desire :: "'b config \<Rightarrow> string \<Rightarrow> desired_state \<Rightarrow> ('b, unit) ctl" where
  "desire g j d = andThen (time_now g) (\<lambda>t. on_store (set_desired j d t))"

definition stop_container :: "'b config \<Rightarrow> run \<Rightarrow> ('b, unit) ctl" where
  "stop_container g run = on_backend (bStop (gBackend g) (rnContainerID run) (gStopTimeout g))"

definition cancel :: "'b config \<Rightarrow> string \<Rightarrow> ('b, unit) ctl" where
  "cancel g j =
     andThen (on_store (get_job j)) (\<lambda>_.
     andThen (desire g j DesiredStopped) (\<lambda>_.
     andThen (on_store (latest_run j)) (\<lambda>r. case r of
       None \<Rightarrow> ret ()
     | Some run \<Rightarrow>
         if rnStopped run \<noteq> None then ret ()
         else andThen (attempt (stop_container g run)) (\<lambda>x. case x of
             Inl e \<Rightarrow> andThen (attempt (on_store (update_run (run\<lparr>rnError := e\<rparr>)))) (\<lambda>u. case u of
                 Inl ue \<Rightarrow> fail (''cancel: record stop error for run '' @ rnId run @ '': '' @ ue)
               | Inr _ \<Rightarrow> fail (''cancel: stop run '' @ rnId run @ '': '' @ e))
           | Inr _ \<Rightarrow> finish_run g run (rnPhase run) Cancelled ''user cancel''))))"

fun delete_containers :: "'b config \<Rightarrow> run list \<Rightarrow> string list \<Rightarrow> ('b, string list) ctl" where
  "delete_containers g [] errs = ret errs"
| "delete_containers g (run # runs) errs =
     (if rnContainerID run = [] then delete_containers g runs errs
      else andThen (if rnStopped run = None then attempt (stop_container g run) else ret (Inr ())) (\<lambda>x.
           andThen (attempt (on_backend (bRemove (gBackend g) (rnContainerID run)))) (\<lambda>y.
           delete_containers g runs (errs
             @ (case x of Inl e \<Rightarrow> [''stop run '' @ rnId run @ '': '' @ e] | Inr _ \<Rightarrow> [])
             @ (case y of Inl e \<Rightarrow> [''remove run '' @ rnId run @ '': '' @ e] | Inr _ \<Rightarrow> [])))))"

definition delete_with_options :: "'b config \<Rightarrow> string \<Rightarrow> bool \<Rightarrow> ('b, unit) ctl" where
  "delete_with_options g j deleteData =
     andThen (on_store (get_job j)) (\<lambda>_.
     andThen (on_store (list_runs j)) (\<lambda>runs.
     andThen (delete_containers g runs []) (\<lambda>errs.
     if errs \<noteq> [] then fail (concat (map (\<lambda>e. e @ [CHR 0x0A]) (butlast errs)) @ last errs)
     else andThen (if deleteData then wrap ''delete job data: '' (on_backend (bDeleteJobData (gBackend g) j)) else ret ()) (\<lambda>_.
          andThen (modify (\<lambda>s. s\<lparr>cSecrets := AList.delete j (cSecrets s)\<rparr>)) (\<lambda>_.
          andThen (on_store (delete_job j)) (\<lambda>_.
          modify (\<lambda>s. s\<lparr>cHistory := hist_drop j (cHistory s)\<rparr>)))))))"

definition do_restart :: "'b config \<Rightarrow> string \<Rightarrow> string \<Rightarrow> ('b, job) ctl" where
  "do_restart g j restore =
     andThen (on_store (get_job j)) (\<lambda>job.
     andThen (on_store (latest_run j)) (\<lambda>r.
     andThen (case r of
         None \<Rightarrow> ret ()
       | Some run \<Rightarrow>
           if rnStopped run \<noteq> None then ret ()
           else andThen (wrap (''restart: stop run '' @ rnId run @ '': '') (stop_container g run)) (\<lambda>_.
                andThen (if rnContainerID run \<noteq> [] then unless_err (on_backend (bRemove (gBackend g) (rnContainerID run))) else ret ()) (\<lambda>_.
                wrap (''restart: finish run '' @ rnId run @ '': '') (finish_run g run (rnPhase run) Cancelled ''restart''))))
       (\<lambda>_.
     andThen (desire g j DesiredRunning) (\<lambda>_.
     andThen (wrap ''restart: launch: '' (start_run g job 1 restore)) (\<lambda>_. ret job)))))"

definition restart_from_savepoint :: "'b config \<Rightarrow> string \<Rightarrow> string \<Rightarrow> ('b, job) ctl" where
  "restart_from_savepoint g j label = (if label = [] then fail ''restart: empty savepoint label'' else do_restart g j label)"

definition control_address :: "'b config \<Rightarrow> string \<Rightarrow> ('b, string) ctl" where
  "control_address g j = andThen (on_store (latest_run j)) (\<lambda>r. case r of
     None \<Rightarrow> ret []
   | Some run \<Rightarrow> if rnContainerID run = [] \<or> rnStopped run \<noteq> None then ret []
       else andThen (on_backend (bStatus (gBackend g) (rnContainerID run))) (\<lambda>st. ret (stAddress st)))"

definition savepoint :: "'b config \<Rightarrow> string \<Rightarrow> string \<Rightarrow> ('b, unit) ctl" where
  "savepoint g j label =
     (if label = [] then fail ''savepoint: empty label''
      else andThen (control_address g j) (\<lambda>addr.
        if addr = [] then fail (''savepoint: job '' @ j @ '' has no running control surface'')
        else case gAgent g addr label of
          Inl e \<Rightarrow> fail (''savepoint: contact agent: '' @ e)
        | Inr code \<Rightarrow> if code \<noteq> 202 then fail (''savepoint: agent returned '' @ itoa code)
            else andThen (desire g j DesiredStopped)
                   (\<lambda>_. transition g j [] (Some Running) Cancelling (''savepoint: '' @ label))))"

definition job_logs :: "'b config \<Rightarrow> string \<Rightarrow> int \<Rightarrow> ('b, string) ctl" where
  "job_logs g j tail = andThen (on_store (latest_run j)) (\<lambda>r. case r of
     None \<Rightarrow> ret []
   | Some run \<Rightarrow> if rnContainerID run = [] then ret [] else on_backend (bLogs (gBackend g) (rnContainerID run) tail))"

definition ready :: "'b config \<Rightarrow> ('b, unit) ctl" where
  "ready g =
     andThen (wrap ''store: '' (on_store list_jobs)) (\<lambda>_.
     andThen (wrap ''backend: '' (on_backend (bCapacity (gBackend g) (gMaxJobs g)))) (\<lambda>snap.
     if snHealth snap = ''unreachable'' then
       fail (if snReason snap \<noteq> [] then ''backend unreachable: '' @ snReason snap else ''backend unreachable'')
     else ret ()))"

end
