(* ===== verification/Reconcile.thy ===== *)
theory Reconcile
  imports Controller "HOL-Library.Sublist"
begin

text \<open>
  The reconciler (\<^verbatim>\<open>control/reconcile.go\<close>), which drives every active run towards the desired state of
  its job, the sweeper that removes containers the store does not know (\<^verbatim>\<open>control/sweep.go\<close>), and the
  steps the whole control plane can take.
\<close>

section \<open>Restarting and unblocking\<close>

definition maybe_restart :: "'b config \<Rightarrow> job \<Rightarrow> run \<Rightarrow> ('b, unit) ctl" where
  "maybe_restart g job run =
     (if jDesired job \<noteq> DesiredRunning then ret ()
      else if \<not> should_restart (gRestart g) Failed (rnAttempt run) then ret ()
      else andThen (case rnRestartAt run of None \<Rightarrow> ret False | Some at \<Rightarrow> andThen (time_now g) (\<lambda>t. ret (t < at))) (\<lambda>early.
        if early then ret ()
        else andThen (finish_run g run Restarting Failed ''restart backoff elapsed'')
               (\<lambda>_. start_run g job (rnAttempt run + 1) [])))"

definition maybe_unblock :: "'b config \<Rightarrow> job \<Rightarrow> run \<Rightarrow> ('b, unit) ctl" where
  "maybe_unblock g job run =
     (if jDesired job \<noteq> DesiredRunning then ret ()
      else andThen (gets (launch_env g job)) (\<lambda>env. case env of
          Inl err \<Rightarrow> if rnError run \<noteq> err then on_store (update_run (run\<lparr>rnError := err\<rparr>)) else ret ()
        | Inr _ \<Rightarrow> andThen (finish_run g run Blocked Failed ''secret references resolved; retrying launch'')
                    (\<lambda>_. start_run g job (rnAttempt run + 1) [])))"

section \<open>One run against the status of its container\<close>

definition handle_exit :: "'b config \<Rightarrow> job \<Rightarrow> run \<Rightarrow> int \<Rightarrow> bool \<Rightarrow> ('b, unit) ctl" where
  "handle_exit g job run exitCode oomKilled =
     (let (to, reason, kind) =
        (if jDesired job = DesiredStopped then (Cancelled, ''stopped by request'', [])
         else if exitCode = 0 then (Finished, ''container exited'', [])
         else if oomKilled then (Failed, ''out of memory'', FailureOOMKilled)
         else (Failed, ''nonzero exit'', []));
        run = (if to = Failed then run\<lparr>rnFailureKind := kind, rnError := reason\<rparr> else run)
      in if to = Failed \<and> should_restart (gRestart g) Failed (rnAttempt run) then
           andThen (schedule_restart g run reason) (\<lambda>run. maybe_restart g job run)
         else finish_run g run Running to reason)"

definition stop_and_finish :: "'b config \<Rightarrow> run \<Rightarrow> phase \<Rightarrow> ('b, unit) ctl" where
  "stop_and_finish g run from =
     andThen (attempt (stop_container g run)) (\<lambda>x. case x of
         Inl e \<Rightarrow> on_store (update_run (run\<lparr>rnError := e\<rparr>))
       | Inr _ \<Rightarrow> finish_run g run from Cancelled ''desired stopped'')"

definition reconcile_run :: "'b config \<Rightarrow> job \<Rightarrow> run \<Rightarrow> status \<Rightarrow> ('b, unit) ctl" where
  "reconcile_run g job run st =
     (case stPhase st of
        PhasePending \<Rightarrow>
          if jDesired job = DesiredStopped then stop_and_finish g run Starting
          else if rnPhase run \<noteq> Starting \<or> rnError run \<noteq> stReason st
          then on_store (update_run (run\<lparr>rnPhase := Starting, rnError := stReason st\<rparr>))
          else ret ()
      | PhaseRunning \<Rightarrow>
          if jDesired job = DesiredStopped then stop_and_finish g run Running
          else let recovered = (rnFailureKind run = FailureContainerUnhealthy)
            in if rnPhase run \<noteq> Running \<or> (stHostPort st \<noteq> 0 \<and> rnHostPort run \<noteq> stHostPort st) \<or> recovered
               then on_store (update_run (run\<lparr>rnPhase := Running,
                 rnHostPort := if stHostPort st \<noteq> 0 then stHostPort st else rnHostPort run,
                 rnError := if recovered then [] else rnError run,
                 rnFailureKind := if recovered then [] else rnFailureKind run\<rparr>))
               else ret ()
      | PhaseUnhealthy \<Rightarrow>
          if jDesired job = DesiredStopped then stop_and_finish g run Running
          else if rnError run \<noteq> stReason st \<or> rnFailureKind run \<noteq> FailureContainerUnhealthy
          then on_store (update_run (run\<lparr>rnError := stReason st, rnFailureKind := FailureContainerUnhealthy\<rparr>))
          else ret ()
      | PhaseExited \<Rightarrow> handle_exit g job run (stExitCode st) (stOOMKilled st)
      | PhaseGone \<Rightarrow>
          if jDesired job = DesiredStopped then finish_run g run Running Cancelled ''container gone; desired stopped''
          else if should_restart (gRestart g) Failed (rnAttempt run) then
            andThen (schedule_restart g run ''container gone'') (\<lambda>run. maybe_restart g job run)
          else finish_run g run Running Failed ''container gone'')"

section \<open>Reattaching\<close>

fun newest_managed :: "string \<Rightarrow> container_stats list \<Rightarrow> container_stats option \<Rightarrow> container_stats option" where
  "newest_managed j [] best = best"
| "newest_managed j (c # cs) best =
     (if \<not> csManaged c \<or> csJobID c \<noteq> j \<or> csID c = [] then newest_managed j cs best
      else newest_managed j cs (case best of
          None \<Rightarrow> Some c
        | Some b \<Rightarrow> if csStartedAt b < csStartedAt c then Some c else best))"

definition find_managed_container :: "'b config \<Rightarrow> string \<Rightarrow> ('b, container_stats option) ctl" where
  "find_managed_container g j = andThen (on_backend (bCapacity (gBackend g) (gMaxJobs g)))
     (\<lambda>snap. ret (newest_managed j (snContainers snap) None))"

definition reattach_unrecorded :: "'b config \<Rightarrow> job \<Rightarrow> run \<Rightarrow> ('b, unit) ctl" where
  "reattach_unrecorded g job run =
     andThen (find_managed_container g (jId job)) (\<lambda>c. case c of
       None \<Rightarrow> ret ()
     | Some container \<Rightarrow>
         andThen (on_backend (bStatus (gBackend g) (csID container))) (\<lambda>st.
         if stPhase st = PhaseGone then ret ()
         else let run1 = run\<lparr>rnContainerID := csID container,
                rnHostPort := if stHostPort st \<noteq> 0 then stHostPort st else rnHostPort run\<rparr>
           in (case stPhase st of
                 PhaseRunning \<Rightarrow> update_with g (run1\<lparr>rnPhase := Running\<rparr>) (rnPhase run) Running ''reattached backend resource''
               | PhasePending \<Rightarrow> on_store (update_run (run1\<lparr>rnPhase := Starting, rnError := stReason st\<rparr>))
               | _ \<Rightarrow> reconcile_run g job run1 st)))"

section \<open>The reconcile pass\<close>

definition reconcile_one :: "'b config \<Rightarrow> run \<Rightarrow> ('b, unit) ctl" where
  "reconcile_one g run0 =
     andThen (attempt (on_store (get_run (rnId run0)))) (\<lambda>r. case r of
       Inl _ \<Rightarrow> ret ()
     | Inr run \<Rightarrow>
         if rnStopped run \<noteq> None then ret ()
         else andThen (attempt (on_store (get_job (rnJobID run)))) (\<lambda>j. case j of
           Inl _ \<Rightarrow> ret ()
         | Inr job \<Rightarrow>
             if rnPhase run = Blocked then unless_err (maybe_unblock g job run)
             else if rnPhase run = Restarting then unless_err (maybe_restart g job run)
             else if rnContainerID run = [] then unless_err (reattach_unrecorded g job run)
             else andThen (attempt (on_backend (bStatus (gBackend g) (rnContainerID run)))) (\<lambda>st. case st of
                 Inl _ \<Rightarrow> ret ()
               | Inr st \<Rightarrow> unless_err (reconcile_run g job run st))))"

definition reconcile :: "'b config \<Rightarrow> ('b, unit) ctl" where
  "reconcile g = andThen (on_store active_runs) (\<lambda>active. for_each (reconcile_one g) active)"

section \<open>Sweeping orphans\<close>

record sweep_report =
  swRemoved :: "string list"
  swRunningOrphans :: "string list"
  swErrors :: "string list"

definition referenced :: "string list \<Rightarrow> string \<Rightarrow> bool" where
  "referenced known i \<longleftrightarrow> i \<in> set known \<or> list_ex (prefix i) known"

fun known_containers :: "job list \<Rightarrow> ('b, (string \<times> string list) list) ctl" where
  "known_containers [] = ret []"
| "known_containers (j # js) =
     andThen (on_store (list_runs (jId j))) (\<lambda>runs.
     andThen (known_containers js) (\<lambda>rest.
     ret ((jId j, filter (\<lambda>c. c \<noteq> []) (map rnContainerID runs)) # rest)))"

definition sweep_one :: "'b config \<Rightarrow> (string \<times> string list) list \<Rightarrow> container_stats \<Rightarrow> sweep_report \<Rightarrow> ('b, sweep_report) ctl" where
  "sweep_one g known ctr rep =
     (if \<not> csManaged ctr \<or> csID ctr = [] then ret rep
      else if (case map_of known (csJobID ctr) of None \<Rightarrow> True | Some refs \<Rightarrow> \<not> referenced refs (csID ctr)) then
        andThen (attempt (on_backend (bStatus (gBackend g) (csID ctr)))) (\<lambda>st. case st of
          Inl e \<Rightarrow> ret (rep\<lparr>swErrors := swErrors rep @ [csID ctr @ '': status: '' @ e]\<rparr>)
        | Inr st \<Rightarrow>
            if stPhase st \<in> {PhaseRunning, PhasePending, PhaseUnhealthy}
            then ret (rep\<lparr>swRunningOrphans := swRunningOrphans rep @ [csID ctr]\<rparr>)
            else andThen (attempt (on_backend (bRemove (gBackend g) (csID ctr)))) (\<lambda>x. case x of
                Inl e \<Rightarrow> ret (rep\<lparr>swErrors := swErrors rep @ [csID ctr @ '': remove: '' @ e]\<rparr>)
              | Inr _ \<Rightarrow> ret (rep\<lparr>swRemoved := swRemoved rep @ [csID ctr]\<rparr>)))
      else ret rep)"

fun sweep_all :: "'b config \<Rightarrow> (string \<times> string list) list \<Rightarrow> container_stats list \<Rightarrow> sweep_report \<Rightarrow> ('b, sweep_report) ctl" where
  "sweep_all g known [] rep = ret rep"
| "sweep_all g known (c # cs) rep = andThen (sweep_one g known c rep) (sweep_all g known cs)"

definition sweep_orphans :: "'b config \<Rightarrow> ('b, sweep_report) ctl" where
  "sweep_orphans g =
     andThen (on_backend (bCapacity (gBackend g) (gMaxJobs g))) (\<lambda>snap.
     andThen (on_store list_jobs) (\<lambda>jobs.
     andThen (known_containers jobs) (\<lambda>known.
     sweep_all g known (snContainers snap) \<lparr>swRemoved = [], swRunningOrphans = [], swErrors = []\<rparr>)))"

section \<open>Steps of the control plane\<close>

text \<open>
  What can happen: any operation of the controller, a restart of the controller between two
  operations, failing statements of the database, and the backend moving on by itself, which never brings a container to life.
\<close>

inductive control_step :: "'b config \<Rightarrow> ('b \<Rightarrow> 'b \<Rightarrow> bool) \<Rightarrow> 'b ctrl \<Rightarrow> 'b ctrl \<Rightarrow> bool" for g env where
  submit: "control_step g env s (snd (submit_with_secret_refs g doc e refs s))"
| cancel: "control_step g env s (snd (cancel g j s))"
| restart: "control_step g env s (snd (do_restart g j restore s))"
| delete: "control_step g env s (snd (delete_with_options g j wipe s))"
| savepoint: "control_step g env s (snd (savepoint g j label s))"
| reconcile: "control_step g env s (snd (reconcile g s))"
| sweep: "control_step g env s (snd (sweep_orphans g s))"
| reboot: "control_step g env s (s\<lparr>cSecrets := [], cHistory := new_history n\<rparr>)"
| fault: "control_step g env s (s\<lparr>cStore := (cStore s)\<lparr>sFaults := fs\<rparr>\<rparr>)"
| backend: "env (cBackend s) b \<Longrightarrow> control_step g env s (s\<lparr>cBackend := b\<rparr>)"

definition new_ctrl :: "'b \<Rightarrow> 'b ctrl" where
  "new_ctrl b = \<lparr>cStore = open_sqlite, cBackend = b, cSecrets = [], cHistory = new_history 0, cTicks = 0, cIds = 0\<rparr>"

end
