(* ===== verification/Store_Props.thy ===== *)
theory Store_Props
  imports Control_Store
begin

text \<open>
  What the store promises: the uniqueness of the active run survives every sequence of operations and
  every pattern of failing statements, pruning keeps the newest runs, audit pages fit together, and
  the order of runs is the order of their start times as long as no two of them start within one
  second.
\<close>

section \<open>Statements, queries and transactions\<close>

lemma triple_exec:
  assumes "\<And>s fs. P s \<Longrightarrow> Q () (s\<lparr>sFaults := fs\<rparr>)" and "\<And>s fs. P s \<Longrightarrow> E (s\<lparr>sFaults := fs\<rparr>)"
  shows "triple P exec Q E"
proof (rule tripleI)
  have self: "s = s\<lparr>sFaults := sFaults s\<rparr>" for s :: store by simp
  show "E t" if "P s" "exec s = (Inl e, t)" for s e t
    using assms(2) [OF that(1)] that(2) by (auto simp: exec_def split: list.splits if_splits)
  show "Q x t" if "P s" "exec s = (Inr x, t)" for s x t
    using assms(1) [OF that(1), of "sFaults s"] assms(1) [OF that(1)] that(2) by (auto simp: exec_def split: list.splits if_splits)
qed

lemma triple_exec_then:
  assumes "\<And>s fs. P s \<Longrightarrow> P (s\<lparr>sFaults := fs\<rparr>)" and "\<And>s. P s \<Longrightarrow> E s" and "triple P m Q E"
  shows "triple P (andThen exec (\<lambda>_. m)) Q E"
  using assms by (intro triple_andThen [OF triple_exec]) auto

lemma triple_query:
  assumes "\<And>s fs. P s \<Longrightarrow> P (s\<lparr>sFaults := fs\<rparr>)" and "\<And>s. P s \<Longrightarrow> E s"
  shows "triple P (query f) (\<lambda>x s. P s \<and> x = f s) E"
  unfolding query_def using assms by (intro triple_exec_then triple_gets)

lemma triple_tx:
  assumes "triple P m Q E'" and "\<And>s fs. P s \<Longrightarrow> P (s\<lparr>sFaults := fs\<rparr>)"
    and "\<And>x s fs. Q x s \<Longrightarrow> Q x (s\<lparr>sFaults := fs\<rparr>)" and "\<And>s. P s \<Longrightarrow> E s"
  shows "triple P (tx m) Q E"
proof -
  have "triple P (andThen exec (\<lambda>_. andThen m (\<lambda>x. andThen exec (\<lambda>_. ret x)))) Q (\<lambda>_. True)"
    using assms(2,3)
    by (intro triple_exec_then triple_andThen [OF triple_weaken [OF assms(1)]] triple_ret) auto
  then show ?thesis
    using assms(2,4) unfolding triple_def tx_def by (fastforce split: prod.splits sum.splits)
qed

section \<open>The store invariant\<close>

definition store_inv :: "store \<Rightarrow> bool" where
  "store_inv s \<longleftrightarrow> one_active (sRuns s) \<and> distinct (map rwId (sRuns s)) \<and>
     distinct (map (\<lambda>w. jId (jwJob w)) (sJobs s)) \<and>
     sorted_wrt (<) (map (\<lambda>w. tId (twTrans w)) (sTrans s)) \<and> 0 < sNext s \<and>
     (\<forall>w \<in> set (sTrans s). 0 < tId (twTrans w) \<and> tId (twTrans w) < sNext s)"

lemma store_inv_faults [simp]: "store_inv (s\<lparr>sFaults := fs\<rparr>) = store_inv s"
  by (simp add: store_inv_def)

lemma store_inv_runs: "store_inv s \<Longrightarrow> one_active rs \<Longrightarrow> distinct (map rwId rs) \<Longrightarrow> store_inv (s\<lparr>sRuns := rs\<rparr>)"
  by (simp add: store_inv_def)

lemma rwId_set_run [simp]: "rwId (set_run r w) = rwId w" "rwJobID (set_run r w) = rwJobID w" "rwStarted (set_run r w) = rwStarted w"
  by (simp_all add: set_run_def)

lemma sorted_wrt_filter_map: "sorted_wrt R (map f xs) \<Longrightarrow> sorted_wrt R (map f (filter p xs))"
  by (induction xs) auto

lemma one_active_filter: "one_active rs \<Longrightarrow> one_active (filter p rs)"
proof -
  have "filter active (filter p rs) = filter p (filter active rs)" by (simp add: conj_commute)
  then show "one_active rs \<Longrightarrow> one_active (filter p rs)"
    unfolding one_active_def by (simp only: distinct_map_filter)
qed

lemma store_inv_filters:
  assumes "store_inv s"
  shows "store_inv (s\<lparr>sTrans := filter p (sTrans s)\<rparr>)" and "store_inv (s\<lparr>sRuns := filter q (sRuns s)\<rparr>)"
    and "store_inv (s\<lparr>sJobs := filter r (sJobs s)\<rparr>)"
  using assms by (simp_all add: store_inv_def sorted_wrt_filter_map one_active_filter distinct_map_filter)

lemma keeps_insert_run: "keeps store_inv (insert_run r)"
  unfolding insert_run_def
  by (rule triple_exec_then) (auto simp: triple_def Let_def store_inv_def)

lemma keeps_update_run_row: "keeps store_inv (update_run_row r)"
  unfolding update_run_row_def
  by (rule triple_exec_then) (auto simp: triple_def Let_def store_inv_def comp_def)

lemma keeps_append_trans_row: "keeps store_inv (append_trans_row t)"
  unfolding append_trans_row_def
  by (rule triple_exec_then) (auto simp: triple_def modify_def store_inv_def sorted_wrt_append intro: less_trans)

lemma keeps_optional_trans: "keeps store_inv (case t of None \<Rightarrow> ret () | Some t \<Rightarrow> append_trans_row t)"
  by (intro keeps_option keeps_ret keeps_append_trans_row)

lemma keeps_store_tx: "keeps store_inv m \<Longrightarrow> keeps store_inv (tx m)"
  by (erule triple_tx) auto

lemma keeps_store_exec: "keeps store_inv exec"
  by (rule triple_exec) auto

lemma keeps_delete_run_row: "keeps store_inv (delete_run_row i)"
  unfolding delete_run_row_def
  by (intro keeps_andThen keeps_store_exec triple_modify) (auto simp: triple_def store_inv_filters)

lemma keeps_delete_run_rows: "keeps store_inv (delete_run_rows is)"
  by (induction "is") (auto intro!: keeps_ret keeps_andThen keeps_delete_run_row)

lemma keeps_store_query: "keeps store_inv (query f)"
  by (rule triple_weaken [OF triple_query [where P = store_inv]]) auto

lemma keeps_create_job: "keeps store_inv (create_job j)"
  unfolding create_job_def
  by (rule triple_exec_then) (auto simp: triple_def store_inv_def)

lemma keeps_set_desired: "keeps store_inv (set_desired i d now)"
proof -
  have "jId (jwJob (if b then w\<lparr>jwJob := (jwJob w)\<lparr>jDesired := d\<rparr>, jwUpdated := x\<rparr> else w)) = jId (jwJob w)"
    for b x and w :: job_row
    by simp
  then show ?thesis
    unfolding set_desired_def
    by (intro keeps_andThen keeps_store_exec) (auto simp: triple_def store_inv_def comp_def simp del: if_split)
qed

lemma keeps_delete_job: "keeps store_inv (delete_job i)"
  unfolding delete_job_def
  by (intro keeps_andThen keeps_store_exec triple_modify) (auto simp: triple_def store_inv_filters)

lemmas keeps_store_ops = keeps_create_job keeps_set_desired keeps_delete_job
  keeps_insert_run [folded create_run_def] keeps_update_run_row [folded update_run_def]
  keeps_append_trans_row [folded append_transition_def]

lemma keeps_store_txs:
  "keeps store_inv (create_run_with_transition r t)" "keeps store_inv (update_run_with_transition r t)"
  "keeps store_inv (store_prune i n)"
  unfolding create_run_with_transition_def update_run_with_transition_def store_prune_def
  by (intro keeps_store_tx keeps_andThen keeps_insert_run keeps_update_run_row keeps_optional_trans
      keeps_store_query keeps_delete_run_rows)+

section \<open>At most one active run\<close>

text \<open>Every sequence of operations, each with any pattern of failing statements.\<close>

inductive store_reach :: "store \<Rightarrow> bool" where
  opened: "store_reach open_sqlite"
| faults: "store_reach s \<Longrightarrow> store_reach (s\<lparr>sFaults := fs\<rparr>)"
| create_job: "store_reach s \<Longrightarrow> store_reach (snd (create_job j s))"
| set_desired: "store_reach s \<Longrightarrow> store_reach (snd (set_desired i d now s))"
| delete_job: "store_reach s \<Longrightarrow> store_reach (snd (delete_job i s))"
| create_run: "store_reach s \<Longrightarrow> store_reach (snd (create_run r s))"
| create_run_with: "store_reach s \<Longrightarrow> store_reach (snd (create_run_with_transition r t s))"
| update_run: "store_reach s \<Longrightarrow> store_reach (snd (update_run r s))"
| update_run_with: "store_reach s \<Longrightarrow> store_reach (snd (update_run_with_transition r t s))"
| prune: "store_reach s \<Longrightarrow> store_reach (snd (store_prune i n s))"
| append: "store_reach s \<Longrightarrow> store_reach (snd (append_transition tr s))"

lemma store_reach_inv: "store_reach s \<Longrightarrow> store_inv s"
proof (induction rule: store_reach.induct)
  case opened
  show ?case by (simp add: store_inv_def open_sqlite_def one_active_def)
qed (auto intro!: keeps_run [OF keeps_store_ops(1)] keeps_run [OF keeps_store_ops(2)] keeps_run [OF keeps_store_ops(3)]
    keeps_run [OF keeps_store_ops(4)] keeps_run [OF keeps_store_ops(5)] keeps_run [OF keeps_store_ops(6)]
    keeps_run [OF keeps_store_txs(1)] keeps_run [OF keeps_store_txs(2)] keeps_run [OF keeps_store_txs(3)])

lemma one_active_count: "one_active rs \<Longrightarrow> length (filter (\<lambda>w. active w \<and> rwJobID w = j) rs) \<le> 1"
proof -
  assume "one_active rs"
  then have "distinct (filter ((=) j) (map rwJobID (filter active rs)))"
    unfolding one_active_def by (rule distinct_filter)
  moreover have "filter ((=) j) (map rwJobID (filter active rs)) = replicate (length (filter (\<lambda>w. active w \<and> rwJobID w = j) rs)) j"
    by (induction rs) auto
  moreover have "n \<le> 1" if "distinct (replicate n j)" for n
    using that by (cases n; cases "n - 1") auto
  ultimately show ?thesis by simp
qed

lemma exec_cases:
  obtains (ok) fs where "exec s = (Inr (), s\<lparr>sFaults := fs\<rparr>)" | (fault) fs where "exec s = (Inl ''database error'', s\<lparr>sFaults := fs\<rparr>)"
proof (cases "sFaults s")
  case Nil
  then show ?thesis using ok [of "[]"] by (simp add: exec_def)
next
  case (Cons f fs)
  then show ?thesis using ok [of fs] fault [of fs] by (cases f) (simp_all add: exec_def)
qed

lemma insert_active_fails:
  assumes "w \<in> set (sRuns s)" and "active w" and "rwJobID w = rnJobID r" and "rnStopped r = None"
  shows "\<exists>e fs. insert_run r s = (Inl e, s\<lparr>sFaults := fs\<rparr>)"
proof -
  have "\<not> one_active (sRuns s @ [row])" if "rwJobID row = rnJobID r" "rwStopped row = None" for row
    using assms that by (auto simp: one_active_def image_iff intro!: bexI [of _ w])
  then show ?thesis
    using assms(4) by (cases rule: exec_cases [of s]) (auto simp: insert_run_def andThen_def Let_def null_time_def)
qed

lemma tx_insert_fails:
  assumes "w \<in> set (sRuns s)" and "active w" and "rwJobID w = rnJobID r" and "rnStopped r = None"
  shows "\<exists>e fs. create_run_with_transition r t s = (Inl e, s\<lparr>sFaults := fs\<rparr>)"
proof (cases rule: exec_cases [of s])
  case (ok fs)
  obtain e fs' where "insert_run r (s\<lparr>sFaults := fs\<rparr>) = (Inl e, s\<lparr>sFaults := fs'\<rparr>)"
    using insert_active_fails [of w "s\<lparr>sFaults := fs\<rparr>" r] assms by auto
  then show ?thesis
    using ok by (auto simp: create_run_with_transition_def tx_def andThen_def)
next
  case (fault fs)
  then show ?thesis by (auto simp: create_run_with_transition_def tx_def andThen_def)
qed

text \<open>
  C27. Fencing in the store: after every sequence of operations, whatever statements fail on the way,
  each job has at most one run that is not stopped, and recording a second one fails and leaves the
  tables as they were. This is what keeps two controllers that share a store file from both
  launching a container for one job.
\<close>

theorem store_fences_runs:
  assumes "store_reach s"
  shows "length (filter (\<lambda>w. active w \<and> rwJobID w = j) (sRuns s)) \<le> 1 \<and>
    (\<forall>w \<in> set (sRuns s). active w \<longrightarrow> (\<forall>r t. rnJobID r = rwJobID w \<and> rnStopped r = None \<longrightarrow>
      (\<exists>e fs. create_run_with_transition r t s = (Inl e, s\<lparr>sFaults := fs\<rparr>))))"
  using store_reach_inv [OF assms] tx_insert_fails one_active_count
  by (fastforce simp: store_inv_def)

definition demo_run_of :: "string \<Rightarrow> string \<Rightarrow> gotime \<Rightarrow> run" where
  "demo_run_of i j t = \<lparr>rnId = i, rnJobID = j, rnContainerID = [], rnHostPort = 0, rnPhase = Starting, rnAttempt = 1,
     rnError = [], rnFailureKind = [], rnStarted = t, rnStopped = None, rnRestartAt = None\<rparr>"

theorem store_fences_runs_witness:
  "length (filter (\<lambda>w. active w \<and> rwJobID w = ''j'') (sRuns (snd (create_run (demo_run_of ''r1'' ''j'' 0) open_sqlite)))) \<le> 1 \<and>
   (\<exists>e fs. create_run_with_transition (demo_run_of ''r2'' ''j'' 5) None (snd (create_run (demo_run_of ''r1'' ''j'' 0) open_sqlite)) =
      (Inl e, (snd (create_run (demo_run_of ''r1'' ''j'' 0) open_sqlite))\<lparr>sFaults := fs\<rparr>))"
proof -
  let ?s = "snd (create_run (demo_run_of ''r1'' ''j'' 0) open_sqlite)"
  have "store_reach ?s" by (intro store_reach.intros)
  note fenced = store_fences_runs [OF this, of "''j''"]
  have "\<exists>w \<in> set (sRuns ?s). active w \<and> rwJobID w = ''j''"
    by (simp add: create_run_def insert_run_def andThen_def exec_def open_sqlite_def one_active_def demo_run_of_def null_time_def)
  with fenced show ?thesis by (auto simp: demo_run_of_def)
qed

section \<open>Pruning\<close>

lemma exec_result: "exec s = (r, t) \<Longrightarrow> sRuns t = sRuns s \<and> sTrans t = sTrans s \<and> sJobs t = sJobs s \<and> sNext t = sNext s"
  by (cases rule: exec_cases [of s]) auto

lemma delete_run_row_result:
  assumes "delete_run_row i s = (Inr n, t)"
  shows "sRuns t = filter (\<lambda>w. rwId w \<noteq> i) (sRuns s)" and "sTrans t = filter (\<lambda>w. tRunID (twTrans w) \<noteq> i) (sTrans s)"
    and "n = int (length (filter (\<lambda>w. rwId w = i) (sRuns s)))"
  using assms by (auto simp: delete_run_row_def andThen_def modify_def split: prod.splits sum.splits dest!: exec_result)

lemma delete_run_rows_result:
  assumes "delete_run_rows is s = (Inr n, t)"
  shows "sRuns t = filter (\<lambda>w. rwId w \<notin> set is) (sRuns s) \<and> sTrans t = filter (\<lambda>w. tRunID (twTrans w) \<notin> set is) (sTrans s) \<and>
    n = int (length (filter (\<lambda>w. rwId w \<in> set is) (sRuns s)))"
  using assms
proof (induction "is" arbitrary: s n t)
  case (Cons i "is")
  then obtain n1 u n2 where u: "delete_run_row i s = (Inr n1, u)" "delete_run_rows is u = (Inr n2, t)" "n = n1 + n2"
    by (auto simp: andThen_def ret_def split: prod.splits sum.splits)
  have split: "length (filter (\<lambda>w. rwId w = i \<or> rwId w \<in> set is) rs) =
      length (filter (\<lambda>w. rwId w = i) rs) + length (filter (\<lambda>w. rwId w \<noteq> i \<and> rwId w \<in> set is) rs)" for rs :: "run_row list"
    by (induction rs) auto
  show ?case
    using Cons.IH [OF u(2)] delete_run_row_result [OF u(1)] u(3) by (simp add: split conj_commute)
qed (simp add: ret_def)

lemma tx_result:
  assumes "tx m s = (Inr x, t)"
  obtains u v where "sRuns u = sRuns s" "sTrans u = sTrans s" "sJobs u = sJobs s" "sNext u = sNext s" "m u = (Inr x, v)"
    "sRuns t = sRuns v" "sTrans t = sTrans v" "sJobs t = sJobs v" "sNext t = sNext v"
proof -
  obtain u v where "exec s = (Inr (), u)" "m u = (Inr x, v)" "exec v = (Inr (), t)"
    using assms by (auto simp: tx_def andThen_def ret_def split: prod.splits sum.splits)
  with that [of u v] show ?thesis by (auto dest!: exec_result)
qed

lemma query_result: "query f s = (Inr x, t) \<Longrightarrow> x = f t \<and> sRuns t = sRuns s \<and> sTrans t = sTrans s \<and> sJobs t = sJobs s \<and> sNext t = sNext s"
  by (auto simp: query_def andThen_def gets_def split: prod.splits sum.splits dest!: exec_result)

lemma store_prune_result:
  assumes "store_prune i keep s = (Inr n, t)"
  shows "sRuns t = filter (\<lambda>w. rwId w \<notin> set (prunable i keep s)) (sRuns s)"
    and "sTrans t = filter (\<lambda>w. tRunID (twTrans w) \<notin> set (prunable i keep s)) (sTrans s)"
    and "n = int (length (filter (\<lambda>w. rwId w \<in> set (prunable i keep s)) (sRuns s)))"
proof -
  obtain u v where u: "sRuns u = sRuns s" "sTrans u = sTrans s" "sRuns t = sRuns v" "sTrans t = sTrans v"
    and m: "andThen (query (prunable i (if keep < 0 then 0 else keep))) delete_run_rows u = (Inr n, v)"
    using assms unfolding store_prune_def by (rule tx_result) blast
  obtain ids q where q: "query (prunable i (if keep < 0 then 0 else keep)) u = (Inr ids, q)" "delete_run_rows ids q = (Inr n, v)"
    using m by (auto simp: andThen_def split: prod.splits sum.splits)
  have "ids = prunable i keep s" using query_result [OF q(1)] u by (simp add: prunable_def)
  with delete_run_rows_result [OF q(2)] query_result [OF q(1)] u show
    "sRuns t = filter (\<lambda>w. rwId w \<notin> set (prunable i keep s)) (sRuns s)"
    "sTrans t = filter (\<lambda>w. tRunID (twTrans w) \<notin> set (prunable i keep s)) (sTrans s)"
    "n = int (length (filter (\<lambda>w. rwId w \<in> set (prunable i keep s)) (sRuns s)))" by simp_all
qed

lemma set_newest_first [simp]: "set (newest_first c rs) = set rs"
  by (simp add: newest_first_def)

lemma mset_newest_first [simp]: "mset (newest_first c rs) = mset rs"
  by (simp add: newest_first_def)

text \<open>The stopped runs of a job, and its runs that started later than a given one.\<close>

definition terminal_runs :: "string \<Rightarrow> store \<Rightarrow> run_row list" where
  "terminal_runs i s = filter (\<lambda>w. rwJobID w = i \<and> \<not> active w) (sRuns s)"

abbreviation started_at :: "run_row \<Rightarrow> gotime" where
  "started_at w \<equiv> rnStarted (scan_run w)"

definition outdated :: "int \<Rightarrow> string \<Rightarrow> store \<Rightarrow> run_row \<Rightarrow> bool" where
  "outdated keep i s w \<longleftrightarrow> w \<in> set (terminal_runs i s) \<and>
     nat keep \<le> length (filter (\<lambda>v. started_at w < started_at v) (terminal_runs i s))"

text \<open>Start times that the text order tells apart: written by the store, in years of four digits, in different seconds.\<close>

definition distinct_starts :: "run_row list \<Rightarrow> bool" where
  "distinct_starts rs \<longleftrightarrow> (\<forall>w \<in> set rs. civil_range (started_at w) \<and> rwStarted w = format_rfc3339nano (started_at w)) \<and>
     distinct (map (\<lambda>w. started_at w div 10 ^ 9) rs)"

lemma second_text_le:
  assumes "civil_range t" and "civil_range u" and "format_rfc3339nano u \<le> format_rfc3339nano t" and "t div 10 ^ 9 \<noteq> u div 10 ^ 9"
  shows "u < t"
proof (rule ccontr)
  assume "\<not> u < t"
  then have "t div 10 ^ 9 < u div 10 ^ 9" using assms(4) zdiv_mono1 [of t u "10 ^ 9"] by simp
  from second_text_less [OF assms(1,2) this] assms(3) show False by simp
qed

lemma newest_first_strict:
  assumes "distinct_starts rs"
  shows "sorted_wrt (\<lambda>v w. started_at w < started_at v) (newest_first rwStarted rs)"
proof -
  let ?L = "newest_first rwStarted rs"
  have text_order: "sorted_wrt (\<lambda>v w. rwStarted w \<le> rwStarted v) ?L"
    using sorted_sort_key [of rwStarted "rev rs"] by (simp add: newest_first_def sorted_wrt_rev sorted_wrt_map)
  have "mset (map (\<lambda>w. started_at w div 10 ^ 9) ?L) = mset (map (\<lambda>w. started_at w div 10 ^ 9) rs)" by simp
  from mset_eq_imp_distinct_iff [OF this] have d: "distinct (map (\<lambda>w. started_at w div 10 ^ 9) ?L)"
    using assms by (simp add: distinct_starts_def)
  have "started_at (?L ! j) < started_at (?L ! i)" if ij: "i < j" "j < length ?L" for i j
  proof -
    have mem: "?L ! i \<in> set rs" "?L ! j \<in> set rs" using nth_mem [of i ?L] nth_mem [of j ?L] ij by simp_all
    have "started_at (?L ! i) div 10 ^ 9 \<noteq> started_at (?L ! j) div 10 ^ 9"
      using d ij nth_eq_iff_index_eq [OF d, of i j] by simp
    moreover have "rwStarted (?L ! j) \<le> rwStarted (?L ! i)"
      using text_order ij by (simp add: sorted_wrt_iff_nth_less)
    ultimately show ?thesis
      using assms mem second_text_le [of "started_at (?L ! i)" "started_at (?L ! j)"] by (simp add: distinct_starts_def)
  qed
  then show ?thesis by (simp add: sorted_wrt_iff_nth_less)
qed

lemma dropped_rank:
  fixes f :: "'a \<Rightarrow> int"
  assumes "sorted_wrt (\<lambda>v w. f w < f v) xs" and "w \<in> set xs"
  shows "w \<in> set (drop k xs) \<longleftrightarrow> k \<le> length (filter (\<lambda>v. f w < f v) xs)"
proof -
  obtain m where m: "m < length xs" "xs ! m = w" using assms(2) by (auto simp: in_set_conv_nth)
  have "xs = take m xs @ w # drop (Suc m) xs" using m id_take_nth_drop by metis
  with assms(1) have sp: "sorted_wrt (\<lambda>v w. f w < f v) (take m xs @ w # drop (Suc m) xs)" by simp
  have "filter (\<lambda>v. f w < f v) (take m xs @ w # drop (Suc m) xs) = take m xs"
    using sp by (auto simp: sorted_wrt_append filter_empty_conv intro!: filter_True dest: less_asym)
  with \<open>xs = _\<close> have rank: "length (filter (\<lambda>v. f w < f v) xs) = m" using m(1) by simp
  have "distinct xs" using assms(1) by (auto simp: distinct_conv_nth sorted_wrt_iff_nth_less) (metis nat_neq_iff less_irrefl)
  then have "w \<in> set (drop k xs) \<longleftrightarrow> k \<le> m"
    using m by (auto simp: in_set_conv_nth nth_eq_iff_index_eq) (metis add_diff_inverse_nat diff_less_mono not_less)
  with rank show ?thesis by simp
qed

lemma prunable_outdated:
  assumes "distinct_starts (terminal_runs i s)"
  shows "set (prunable i keep s) = rwId ` set (filter (outdated keep i s) (sRuns s))"
proof -
  let ?T = "terminal_runs i s" and ?L = "newest_first rwStarted (terminal_runs i s)"
  have count: "length (filter P ?L) = length (filter P ?T)" for P
    by (metis mset_filter mset_newest_first size_mset)
  have "set (prunable i keep s) = rwId ` set (drop (nat keep) ?L)"
    by (simp add: prunable_def terminal_runs_def)
  also have "set (drop (nat keep) ?L) = {w \<in> set ?T. outdated keep i s w}"
    using dropped_rank [OF newest_first_strict [OF assms], of _ "nat keep"]
    in_set_dropD [of _ "nat keep" ?L] unfolding outdated_def count set_newest_first by blast
  also have "\<dots> = set (filter (outdated keep i s) (sRuns s))" by (auto simp: outdated_def terminal_runs_def)
  finally show ?thesis .
qed

lemma outdated_count:
  assumes "distinct_starts (terminal_runs i s)"
  shows "length (filter (\<lambda>w. \<not> outdated keep i s w) (terminal_runs i s)) = min (nat keep) (length (terminal_runs i s))"
proof -
  let ?T = "terminal_runs i s" and ?L = "newest_first rwStarted (terminal_runs i s)"
  note strict = newest_first_strict [OF assms]
  have count: "length (filter P ?L) = length (filter P ?T)" for P
    by (metis mset_filter mset_newest_first size_mset)
  have d: "distinct ?L" using strict by (auto simp: distinct_conv_nth sorted_wrt_iff_nth_less) (metis nat_neq_iff less_irrefl)
  have "\<not> outdated keep i s w \<longleftrightarrow> w \<notin> set (drop (nat keep) ?L)" if "w \<in> set ?L" for w
    using dropped_rank [OF strict that] that by (simp add: outdated_def count)
  then have "filter (\<lambda>w. \<not> outdated keep i s w) ?L = filter (\<lambda>w. w \<notin> set (drop (nat keep) ?L)) (take (nat keep) ?L @ drop (nat keep) ?L)"
    unfolding append_take_drop_id by (rule filter_cong [OF refl])
  also have "\<dots> = take (nat keep) ?L"
    using set_take_disj_set_drop_if_distinct [OF d le_refl, of "nat keep"]
    unfolding filter_append by (auto simp: filter_empty_conv intro!: filter_True)
  finally have "length (filter (\<lambda>w. \<not> outdated keep i s w) ?L) = min (nat keep) (length ?L)" by simp
  moreover have "length ?L = length ?T" by (metis mset_newest_first size_mset)
  ultimately show ?thesis by (simp add: count)
qed

text \<open>
  C28. Pruning removes the right runs: if the stopped runs of the job started in different seconds (and
  in years of four digits), exactly those go that at least \<open>keep\<close> stopped runs of the job outlive in start
  time, so that the \<open>keep\<close> last started remain, or all if there are fewer. The active runs and the runs of
  other jobs stay, the transitions that go are those of the removed runs, and the count returned is
  the number of removed runs. For \<open>keep\<close> zero or negative no stopped run remains, where the comment of
  the interface promises that all are kept.
\<close>

theorem prune_keeps_newest:
  assumes "store_reach s" and "store_prune i keep s = (Inr n, t)" and "distinct_starts (terminal_runs i s)"
  shows "sRuns t = filter (\<lambda>w. \<not> outdated keep i s w) (sRuns s) \<and>
    length (terminal_runs i t) = min (nat keep) (length (terminal_runs i s)) \<and>
    sTrans t = filter (\<lambda>x. tRunID (twTrans x) \<notin> rwId ` set (filter (outdated keep i s) (sRuns s))) (sTrans s) \<and>
    n = int (length (filter (outdated keep i s) (sRuns s)))"
proof -
  have d: "distinct (map rwId (sRuns s))" using store_reach_inv [OF assms(1)] by (simp add: store_inv_def)
  note p = store_prune_result [OF assms(2), unfolded prunable_outdated [OF assms(3)]]
  have mem: "rwId w \<in> rwId ` set (filter (outdated keep i s) (sRuns s)) \<longleftrightarrow> outdated keep i s w" if "w \<in> set (sRuns s)" for w
    using d that by (auto simp: distinct_map dest: inj_onD)
  have runs: "sRuns t = filter (\<lambda>w. \<not> outdated keep i s w) (sRuns s)"
    unfolding p(1) by (rule filter_cong) (simp_all only: mem)
  have "terminal_runs i t = filter (\<lambda>w. \<not> outdated keep i s w) (terminal_runs i s)"
    by (simp add: terminal_runs_def runs conj_commute)
  moreover have "filter (\<lambda>w. rwId w \<in> rwId ` set (filter (outdated keep i s) (sRuns s))) (sRuns s) = filter (outdated keep i s) (sRuns s)"
    by (rule filter_cong) (simp_all only: mem)
  ultimately show ?thesis using runs p(2,3) outdated_count [OF assms(3), of keep] by simp
qed

text \<open>Without a database fault pruning succeeds.\<close>

lemma delete_run_rows_succeeds: "sFaults s = [] \<Longrightarrow> \<exists>n t. delete_run_rows is s = (Inr n, t) \<and> sFaults t = []"
proof (induction "is" arbitrary: s)
  case (Cons i "is")
  obtain m u where u: "delete_run_row i s = (Inr m, u)" "sFaults u = []"
    using Cons.prems by (simp add: delete_run_row_def andThen_def exec_def modify_def)
  obtain n t where "delete_run_rows is u = (Inr n, t)" "sFaults t = []" using Cons.IH [OF u(2)] by blast
  with u show ?case by (simp add: andThen_def ret_def)
qed (simp add: ret_def)

lemma store_prune_succeeds: "sFaults s = [] \<Longrightarrow> \<exists>n t. store_prune i keep s = (Inr n, t)"
  using delete_run_rows_succeeds [of s "prunable i (if keep < 0 then 0 else keep) s"]
  by (auto simp: store_prune_def tx_def query_def andThen_def exec_def gets_def ret_def)

definition stopped_run_of :: "string \<Rightarrow> gotime \<Rightarrow> run" where
  "stopped_run_of i t = (demo_run_of i ''j'' t)\<lparr>rnPhase := Finished, rnStopped := Some (t + 1)\<rparr>"

definition prune_demo :: store where
  "prune_demo = snd (create_run (stopped_run_of ''a'' (10 * 10 ^ 9)) (snd (create_run (demo_run_of ''b'' ''j'' 0)
     (snd (create_run (stopped_run_of ''c'' (5 * 10 ^ 9)) (snd (create_run (stopped_run_of ''d'' (20 * 10 ^ 9)) open_sqlite)))))))"

theorem prune_keeps_newest_witness:
  "\<exists>t. store_prune ''j'' 2 prune_demo = (Inr 1, t) \<and> map rwId (sRuns prune_demo) = [''d'', ''c'', ''b'', ''a''] \<and>
     map rwId (sRuns t) = [''d'', ''b'', ''a'']"
proof -
  have reach: "store_reach prune_demo" unfolding prune_demo_def by (intro store_reach.intros)
  define row where "row = (\<lambda>r :: run. \<lparr>rwId = rnId r, rwJobID = rnJobID r, rwContainerID = rnContainerID r, rwHostPort = rnHostPort r,
     rwPhase = rnPhase r, rwAttempt = rnAttempt r, rwError = rnError r, rwFailureKind = rnFailureKind r,
     rwStarted = format_rfc3339nano (rnStarted r), rwStopped = null_time (rnStopped r), rwRestartAt = null_time (rnRestartAt r)\<rparr>)"
  let ?d = "row (stopped_run_of ''d'' (20 * 10 ^ 9))" and ?c = "row (stopped_run_of ''c'' (5 * 10 ^ 9))"
    and ?b = "row (demo_run_of ''b'' ''j'' 0)" and ?a = "row (stopped_run_of ''a'' (10 * 10 ^ 9))"
  have runs: "sRuns prune_demo = [?d, ?c, ?b, ?a]" "sFaults prune_demo = []"
    by (simp_all add: prune_demo_def create_run_def insert_run_def andThen_def exec_def open_sqlite_def one_active_def row_def
        stopped_run_of_def demo_run_of_def null_time_def)
  have ended: "terminal_runs ''j'' prune_demo = [?d, ?c, ?a]"
    by (simp add: terminal_runs_def runs row_def stopped_run_of_def demo_run_of_def null_time_def)
  have start: "started_at ?d = 20 * 10 ^ 9" "started_at ?c = 5 * 10 ^ 9" "started_at ?a = 10 * 10 ^ 9"
    by (simp_all add: row_def stopped_run_of_def demo_run_of_def scan_run_def parse_time_def parse_format_rfc3339nano civil_range_def)
  have ds: "distinct_starts (terminal_runs ''j'' prune_demo)"
    unfolding distinct_starts_def ended using start
    by (simp add: civil_range_def) (simp add: row_def stopped_run_of_def demo_run_of_def)
  have out: "outdated 2 ''j'' prune_demo ?c" "\<not> outdated 2 ''j'' prune_demo ?d" "\<not> outdated 2 ''j'' prune_demo ?a"
    "\<not> outdated 2 ''j'' prune_demo ?b"
    using start by (simp_all add: outdated_def ended) (simp add: row_def stopped_run_of_def demo_run_of_def)
  obtain n t where p: "store_prune ''j'' 2 prune_demo = (Inr n, t)"
    using store_prune_succeeds [OF runs(2)] by blast
  from prune_keeps_newest [OF reach p ds] out have "sRuns t = [?d, ?b, ?a]" "n = 1" by (simp_all add: runs)
  with p runs show ?thesis by (simp add: row_def stopped_run_of_def demo_run_of_def)
qed

section \<open>Audit pages\<close>

definition newest_below :: "string \<Rightarrow> int \<Rightarrow> store \<Rightarrow> transition list" where
  "newest_below i b s = rev (sort_key tId (if 0 < b then filter (\<lambda>t. tId t < b) (trans_of i s) else trans_of i s))"

lemma tId_scan [simp]: "tId (scan_transition w) = tId (twTrans w)"
  by (simp add: scan_transition_def)

lemma trans_of_sorted:
  assumes "store_inv s"
  shows "sorted_wrt (\<lambda>t u. tId t < tId u) (trans_of i s)" and "\<forall>t \<in> set (trans_of i s). 0 < tId t"
  using assms by (auto simp: store_inv_def trans_of_def sorted_wrt_map sorted_wrt_filter)

lemma sort_key_strict: "sorted_wrt (\<lambda>t u. f t < f u) xs \<Longrightarrow> sort_key f xs = xs" for f :: "'x \<Rightarrow> int"
  by (rule sort_key_id_if_sorted) (auto simp: sorted_wrt_map elim: sorted_wrt_mono_rel [rotated])

lemma newest_below_split:
  assumes "store_inv s" and "0 < b"
  shows "newest_below i b s = rev (filter (\<lambda>t. tId t < b) (trans_of i s))" and
    "newest_below i 0 s = rev (trans_of i s)"
  using assms trans_of_sorted(1) [OF assms(1), of i]
  by (simp_all add: newest_below_def sort_key_strict sorted_wrt_filter)

lemma filter_below_nth:
  assumes "sorted_wrt (\<lambda>t u. tId u < tId t) xs" and "n < length xs"
  shows "filter (\<lambda>t. tId t < tId (xs ! n)) xs = drop (Suc n) xs"
proof -
  have "filter (\<lambda>t. tId t < tId (xs ! n)) (take (Suc n) xs) = []"
    using assms sorted_wrt_nth_less [OF assms(1)]
    by (auto simp: filter_empty_conv in_set_conv_nth not_less less_Suc_eq_le le_less dest: spec)
  moreover have "filter (\<lambda>t. tId t < tId (xs ! n)) (drop (Suc n) xs) = drop (Suc n) xs"
    using assms sorted_wrt_nth_less [OF assms(1), of n] by (auto simp: filter_id_conv in_set_conv_nth)
  ultimately show ?thesis
    by (metis append_Nil append_take_drop_id filter_append)
qed

lemma newest_below_sorted:
  assumes "store_inv s"
  shows "sorted_wrt (\<lambda>t u. tId u < tId t) (newest_below i b s)"
  using trans_of_sorted(1) [OF assms, of i]
  by (simp add: newest_below_def sort_key_strict sorted_wrt_filter sorted_wrt_rev)

lemma newest_below_next:
  assumes "store_inv s" and "t \<in> set (newest_below i b s)"
  shows "newest_below i (tId t) s = filter (\<lambda>u. tId u < tId t) (newest_below i b s)"
proof -
  have "0 < tId t" using assms trans_of_sorted(2) [OF assms(1), of i] by (auto simp: newest_below_def split: if_splits)
  moreover have "0 < b \<Longrightarrow> tId t < b" using assms(2) by (simp add: newest_below_def)
  ultimately show ?thesis
    using trans_of_sorted(1) [OF assms(1), of i]
    by (auto simp: newest_below_def sort_key_strict sorted_wrt_filter conj_commute simp flip: rev_filter intro!: filter_cong)
qed

text \<open>
  C29. Audit paging is seamless: asking again with the id of the last transition of a page returns the
  transitions right behind it, so consecutive pages joined together are an initial part of the
  job's transitions, newest first, with nothing missing and nothing twice; a page has between one
  and two hundred entries whatever limit was asked for, unless no transition is left.
\<close>

theorem transition_pages_join:
  assumes "store_reach s" and "list_transitions_paged i b l s = (Inr p, s1)" and "p \<noteq> []"
    and "list_transitions_paged i (tId (last p)) l' s1 = (Inr q, s2)"
  shows "p @ q = take (length p + nat (page_limit l')) (newest_below i b s) \<and>
    length p \<le> 200 \<and> (q = [] \<longleftrightarrow> newest_below i b s = p)"
proof -
  let ?N = "newest_below i b s"
  have inv: "store_inv s" using assms(1) by (rule store_reach_inv)
  have p: "p = take (nat (page_limit l)) ?N"
    using query_result [OF assms(2) [unfolded list_transitions_paged_def]] by (simp add: newest_below_def trans_of_def)
  have "q = take (nat (page_limit l')) (newest_below i (tId (last p)) s)"
    using query_result [OF assms(4) [unfolded list_transitions_paged_def]] query_result [OF assms(2) [unfolded list_transitions_paged_def]]
    by (simp add: newest_below_def trans_of_def)
  also have "newest_below i (tId (last p)) s = drop (length p) ?N"
  proof -
    have last: "last p = ?N ! (length p - 1)" "length p - 1 < length ?N"
      using assms(3) p by (auto simp: last_conv_nth min_def split: if_splits)
    moreover have "last p \<in> set ?N" using last by (metis nth_mem)
    ultimately show ?thesis using newest_below_next [OF inv, of "last p" i b] filter_below_nth [OF newest_below_sorted [OF inv, of i b] last(2)] assms(3)
      by simp
  qed
  finally have q: "q = take (nat (page_limit l')) (drop (length p) ?N)" .
  have pre: "p = take (length p) ?N" using p by (simp add: min_def)
  have L: "0 < nat (page_limit l')" "nat (page_limit l) \<le> 200"
    by (auto simp: page_limit_def Let_def DefaultTransitionLimit_def MaxTransitionLimit_def)
  have "p @ q = take (length p + nat (page_limit l')) ?N"
    unfolding q by (subst (1) pre) (simp add: take_add)
  moreover have "q = [] \<longleftrightarrow> ?N = p"
    using pre L(1) unfolding q by (metis append_self_conv append_take_drop_id drop_all gr_implies_not0 le_refl take_eq_Nil)
  ultimately show ?thesis using p L(2) by simp
qed

definition demo_transition :: "phase \<Rightarrow> transition" where
  "demo_transition p = \<lparr>tId = 0, tJobID = ''j'', tRunID = [], tFrom = None, tTo = p, tReason = [], tAt = 0\<rparr>"

theorem transition_pages_join_witness:
  "\<exists>p q s1 s2. list_transitions_paged ''j'' 0 1 (snd (append_transition (demo_transition Starting)
       (snd (append_transition (demo_transition Submitted) open_sqlite)))) = (Inr p, s1) \<and>
     list_transitions_paged ''j'' (tId (last p)) 1 s1 = (Inr q, s2) \<and> map tTo (p @ q) = [Starting, Submitted] \<and>
     p @ q = take (length p + nat (page_limit 1)) (newest_below ''j'' 0 (snd (append_transition (demo_transition Starting)
       (snd (append_transition (demo_transition Submitted) open_sqlite)))))"
proof -
  let ?s = "snd (append_transition (demo_transition Starting) (snd (append_transition (demo_transition Submitted) open_sqlite)))"
  have s: "?s = \<lparr>sJobs = [], sRuns = [], sTrans =
      [\<lparr>twTrans = (demo_transition Submitted)\<lparr>tId := 1\<rparr>, twAt = format_rfc3339nano 0\<rparr>,
       \<lparr>twTrans = (demo_transition Starting)\<lparr>tId := 2\<rparr>, twAt = format_rfc3339nano 0\<rparr>], sNext = 3, sFaults = []\<rparr>"
    by (simp add: append_transition_def append_trans_row_def andThen_def exec_def modify_def open_sqlite_def demo_transition_def)
  have reach: "store_reach ?s" by (intro store_reach.intros)
  define p where "p = [(demo_transition Starting)\<lparr>tId := 2, tAt := parse_time (format_rfc3339nano 0)\<rparr>]"
  define q where "q = [(demo_transition Submitted)\<lparr>tId := 1, tAt := parse_time (format_rfc3339nano 0)\<rparr>]"
  have pages: "list_transitions_paged ''j'' 0 1 ?s = (Inr p, ?s)" "list_transitions_paged ''j'' (tId (last p)) 1 ?s = (Inr q, ?s)"
    unfolding s
    by (simp_all add: p_def q_def list_transitions_paged_def query_def exec_def andThen_def gets_def trans_of_def scan_transition_def demo_transition_def
        page_limit_def DefaultTransitionLimit_def MaxTransitionLimit_def Let_def)
  have "p @ q = take (length p + nat (page_limit 1)) (newest_below ''j'' 0 ?s)"
    using transition_pages_join [OF reach pages(1) _ pages(2)] by (simp add: p_def)
  moreover have "map tTo (p @ q) = [Starting, Submitted]" by (simp add: p_def q_def demo_transition_def)
  ultimately show ?thesis using pages by (intro exI conjI)
qed

section \<open>The latest run\<close>

text \<open>
  C30. The latest run is the latest: if the runs of a job started in different seconds (and in years
  of four digits), the run the store returns is the one that started last, although the start times
  are compared as text.
\<close>

theorem latest_run_is_latest:
  assumes "latest_run j s = (Inr (Some r), s1)"
    and "\<forall>w \<in> set (sRuns s). rwJobID w = j \<longrightarrow> (\<exists>t. civil_range t \<and> rwStarted w = format_rfc3339nano t)"
    and "\<forall>v \<in> set (sRuns s). \<forall>w \<in> set (sRuns s). rwJobID v = j \<and> rwJobID w = j \<and> v \<noteq> w \<longrightarrow>
      rnStarted (scan_run v) div 10 ^ 9 \<noteq> rnStarted (scan_run w) div 10 ^ 9"
  shows "\<exists>w \<in> set (sRuns s). r = scan_run w \<and> rwJobID w = j \<and>
    (\<forall>v \<in> set (sRuns s). rwJobID v = j \<and> v \<noteq> w \<longrightarrow> rnStarted (scan_run v) < rnStarted r)"
proof -
  have "(case runs_desc j s of [] \<Rightarrow> None | w # _ \<Rightarrow> Some (scan_run w)) = Some r"
    using query_result [OF assms(1) [unfolded latest_run_def]] by (simp add: runs_desc_def)
  then obtain w ws where w: "runs_desc j s = w # ws" "r = scan_run w" by (auto split: list.splits)
  have set: "set (w # ws) = {v \<in> set (sRuns s). rwJobID v = j}"
    using w(1) set_newest_first [of rwStarted "filter (\<lambda>v. rwJobID v = j) (sRuns s)"] by (simp add: runs_desc_def)
  have "sorted (map rwStarted (rev (w # ws)))"
    by (subst w(1) [symmetric]) (simp add: runs_desc_def newest_first_def)
  then have older: "rwStarted v \<le> rwStarted w" if "v \<in> set (w # ws)" for v
    using that by (auto simp: sorted_append)
  have started: "\<exists>t. civil_range t \<and> rwStarted v = format_rfc3339nano t \<and> rnStarted (scan_run v) = t" if "v \<in> set (w # ws)" for v
  proof -
    have "v \<in> set (sRuns s)" "rwJobID v = j" using that set by auto
    with assms(2) obtain t where "civil_range t" "rwStarted v = format_rfc3339nano t" by blast
    then show ?thesis by (simp add: scan_run_def parse_time_def parse_format_rfc3339nano)
  qed
  have "rnStarted (scan_run v) < rnStarted r" if v: "v \<in> set (sRuns s)" "rwJobID v = j" "v \<noteq> w" for v
  proof -
    have mem: "v \<in> set (w # ws)" "w \<in> set (w # ws)" using v set by auto
    have "\<not> rnStarted r div 10 ^ 9 < rnStarted (scan_run v) div 10 ^ 9"
      using second_text_less older [OF mem(1)] started [OF mem(1)] started [OF mem(2)] w(2) by (metis leD)
    moreover have "rnStarted r div 10 ^ 9 \<noteq> rnStarted (scan_run v) div 10 ^ 9"
      using assms(3) v set w(2) mem(2) by blast
    ultimately show ?thesis
      using zdiv_mono1 [of "rnStarted r" "rnStarted (scan_run v)" "10 ^ 9"] by (simp add: not_le [symmetric])
  qed
  with w(2) set show ?thesis by (intro bexI [of _ w]) auto
qed

definition demo_row :: "string \<Rightarrow> gotime \<Rightarrow> string option \<Rightarrow> run_row" where
  "demo_row i t stop = \<lparr>rwId = i, rwJobID = ''j'', rwContainerID = i, rwHostPort = 0, rwPhase = Running, rwAttempt = 1,
     rwError = [], rwFailureKind = [], rwStarted = format_rfc3339nano t, rwStopped = stop, rwRestartAt = None\<rparr>"

definition demo_store :: "run_row list \<Rightarrow> store" where
  "demo_store rs = \<lparr>sJobs = [], sRuns = rs, sTrans = [], sNext = 1, sFaults = []\<rparr>"

lemma latest_of_two:
  assumes "rwJobID v = j" and "rwJobID w = j" and "rwStarted v < rwStarted w"
  shows "latest_run j (demo_store [v, w]) = (Inr (Some (scan_run w)), demo_store [v, w])"
    and "latest_run j (demo_store [w, v]) = (Inr (Some (scan_run w)), demo_store [w, v])"
  using assms by (auto simp: latest_run_def query_def andThen_def exec_def gets_def demo_store_def runs_desc_def newest_first_def)

lemma started_demo_row: "civil_range t \<Longrightarrow> rnStarted (scan_run (demo_row i t x)) = t"
  by (simp add: scan_run_def demo_row_def parse_time_def parse_format_rfc3339nano)

theorem latest_run_is_latest_witness:
  "\<exists>w \<in> {demo_row ''a'' 0 (Some ''x''), demo_row ''b'' 5000000000 None}.
     latest_run ''j'' (demo_store [demo_row ''a'' 0 (Some ''x''), demo_row ''b'' 5000000000 None]) =
       (Inr (Some (scan_run w)), demo_store [demo_row ''a'' 0 (Some ''x''), demo_row ''b'' 5000000000 None]) \<and>
     rnStarted (scan_run w) = 5000000000"
proof -
  let ?v = "demo_row ''a'' 0 (Some ''x'')" and ?w = "demo_row ''b'' 5000000000 None"
  have range: "civil_range 0" "civil_range 5000000000" by (simp_all add: civil_range_def)
  have "rwStarted ?v < rwStarted ?w"
    using second_text_less [OF range] by (simp add: demo_row_def)
  then have latest: "latest_run ''j'' (demo_store [?v, ?w]) = (Inr (Some (scan_run ?w)), demo_store [?v, ?w])"
    by (intro latest_of_two) (simp_all add: demo_row_def)
  have st: "rnStarted (scan_run ?v) = 0" "rnStarted (scan_run ?w) = 5000000000"
    using range by (simp_all add: started_demo_row)
  have text_of: "rwStarted ?v = format_rfc3339nano 0" "rwStarted ?w = format_rfc3339nano 5000000000"
    by (simp_all add: demo_row_def)
  have "\<exists>w \<in> set (sRuns (demo_store [?v, ?w])). scan_run ?w = scan_run w \<and> rwJobID w = ''j'' \<and>
      (\<forall>v \<in> set (sRuns (demo_store [?v, ?w])). rwJobID v = ''j'' \<and> v \<noteq> w \<longrightarrow> rnStarted (scan_run v) < rnStarted (scan_run ?w))"
    using range st text_of by (intro latest_run_is_latest [OF latest]) (auto simp: demo_store_def)
  then show ?thesis using latest st by (auto simp: demo_store_def)
qed

text \<open>
  C36. Two runs that start within one second can be taken in the wrong order: the text of a time
  on the full second ends in \<open>Z\<close> right after the seconds, which sorts behind the decimal point of
  every later time of that second. The store then returns the older run as the latest.
\<close>

theorem latest_run_same_second:
  assumes "sRuns s = [older, newer]" and "sFaults s = []" and "rwJobID older = j" and "rwJobID newer = j"
    and "rwStarted older = format_rfc3339nano (sec * 10 ^ 9)"
    and "rwStarted newer = format_rfc3339nano (sec * 10 ^ 9 + ns)" and "0 < ns" and "ns < 10 ^ 9"
  shows "latest_run j s = (Inr (Some (scan_run older)), s)"
proof -
  have "rwStarted newer < rwStarted older"
    using whole_second_text assms(5-8) by simp
  then show ?thesis
    using assms(1-4) by (auto simp: latest_run_def query_def andThen_def exec_def gets_def runs_desc_def newest_first_def)
qed

theorem latest_run_same_second_witness:
  "latest_run ''j'' (demo_store [demo_row ''a'' (1 * 10 ^ 9) (Some ''x''), demo_row ''b'' (1 * 10 ^ 9 + 500000000) None]) =
     (Inr (Some (scan_run (demo_row ''a'' (1 * 10 ^ 9) (Some ''x'')))),
      demo_store [demo_row ''a'' (1 * 10 ^ 9) (Some ''x''), demo_row ''b'' (1 * 10 ^ 9 + 500000000) None])"
  by (rule latest_run_same_second [where sec = 1 and ns = 500000000
        and newer = "demo_row ''b'' (1 * 10 ^ 9 + 500000000) None"]) (simp_all add: demo_store_def demo_row_def)

end
