(* ===== verification/Control_Calculus.thy ===== *)
theory Control_Calculus
  imports Reconcile Store_Props
begin

text \<open>
  Invariants of the control plane as assertions about the run table and the backend: how each store
  operation changes the run table, and the rules that lift store and backend operations to the
  controller.
\<close>

section \<open>Store operations on the run table\<close>

abbreviation rows_ok :: "run_row list \<Rightarrow> bool" where
  "rows_ok R \<equiv> one_active R \<and> distinct (map rwId R)"

text \<open>\<open>moves m G H\<close>: started on the run table \<open>R\<close>, a success leaves a table related to \<open>R\<close> by \<open>G\<close>, a failure one related by \<open>H\<close>.\<close>

definition moves :: "(store, 'a) op \<Rightarrow> ('a \<Rightarrow> run_row list \<Rightarrow> run_row list \<Rightarrow> bool) \<Rightarrow> (run_row list \<Rightarrow> run_row list \<Rightarrow> bool) \<Rightarrow> bool" where
  "moves m G H \<longleftrightarrow> (\<forall>R. triple (\<lambda>t. store_inv t \<and> sRuns t = R) m (\<lambda>x t. store_inv t \<and> G x R (sRuns t)) (\<lambda>t. store_inv t \<and> H R (sRuns t)))"

abbreviation (input) same :: "'r \<Rightarrow> 'r \<Rightarrow> bool" where "same R R' \<equiv> R' = R"

lemma movesI:
  assumes "keeps store_inv m"
    and "\<And>s x t. m s = (Inr x, t) \<Longrightarrow> store_inv s \<Longrightarrow> G x (sRuns s) (sRuns t)"
    and "\<And>s e t. m s = (Inl e, t) \<Longrightarrow> store_inv s \<Longrightarrow> H (sRuns s) (sRuns t)"
  shows "moves m G H"
  using assms(2,3) tripleD [OF assms(1)] unfolding moves_def by (intro allI tripleI) blast+

lemma exec_runs: "exec s = (r, t) \<Longrightarrow> sRuns t = sRuns s"
  using exec_result by blast

lemma query_err: "query f s = (Inl e, t) \<Longrightarrow> sRuns t = sRuns s"
  by (auto simp: query_def andThen_def gets_def split: prod.splits sum.splits dest!: exec_runs)

lemma tx_err: "tx m s = (Inl e, t) \<Longrightarrow> sRuns t = sRuns s"
  by (auto simp: tx_def split: prod.splits sum.splits)

lemma moves_query:
  assumes "\<And>s. G (f s) (sRuns s) (sRuns s)"
  shows "moves (query f) G same"
  using assms keeps_store_query by (intro movesI) (auto dest!: query_result query_err, metis)

lemma moves_andThen_same:
  assumes "moves m (\<lambda>x R R'. R' = R \<and> F x R) same" and "\<And>x R. F x R \<Longrightarrow> case f x of Inl e \<Rightarrow> True | Inr y \<Rightarrow> G y R R"
  shows "moves (andThen m (\<lambda>x. case f x of Inl e \<Rightarrow> fail e | Inr y \<Rightarrow> ret y)) G same"
proof -
  have "triple (\<lambda>t. store_inv t \<and> sRuns t = R \<and> F x R) (case f x of Inl e \<Rightarrow> fail e | Inr y \<Rightarrow> ret y)
      (\<lambda>y t. store_inv t \<and> G y R (sRuns t)) (\<lambda>t. store_inv t \<and> sRuns t = R)" for x R
    using assms(2) [of x R] by (cases "f x") (auto intro!: triple_fail triple_ret)
  with assms(1) show ?thesis
    unfolding moves_def by (blast intro: triple_andThen)
qed

lemma moves_get_run: "moves (get_run i) (\<lambda>r R R'. R' = R \<and> (\<exists>w \<in> set R. rwId w = i \<and> r = scan_run w)) same"
proof -
  let ?f = "\<lambda>r. case r of None \<Rightarrow> Inl ''sql: no rows in result set'' | Some w \<Rightarrow> Inr (scan_run w)"
  have "get_run i = andThen (query (\<lambda>s. find (\<lambda>w. rwId w = i) (sRuns s)))
      (\<lambda>x. case ?f x of Inl e \<Rightarrow> fail e | Inr y \<Rightarrow> ret y)"
    unfolding get_run_def by (intro arg_cong2 [of _ _ _ _ andThen] refl ext) (simp split: option.splits)
  moreover have "moves (query (\<lambda>s. find (\<lambda>w. rwId w = i) (sRuns s))) (\<lambda>x R R'. R' = R \<and> x = find (\<lambda>w. rwId w = i) R) same"
    by (rule moves_query) simp
  ultimately show ?thesis
    by (simp only:) (rule moves_andThen_same, assumption, auto simp: find_Some_iff split: option.splits)
qed

lemma moves_get_job: "moves (get_job i) (\<lambda>_. same) same"
proof -
  let ?f = "\<lambda>r. case r of None \<Rightarrow> Inl ''sql: no rows in result set'' | Some w \<Rightarrow> Inr (scan_job w)"
  have "get_job i = andThen (query (\<lambda>s. find (\<lambda>w. jId (jwJob w) = i) (sJobs s)))
      (\<lambda>x. case ?f x of Inl e \<Rightarrow> fail e | Inr y \<Rightarrow> ret y)"
    unfolding get_job_def by (intro arg_cong2 [of _ _ _ _ andThen] refl ext) (simp split: option.splits)
  moreover have "moves (query (\<lambda>s. find (\<lambda>w. jId (jwJob w) = i) (sJobs s))) (\<lambda>x R R'. R' = R \<and> True) same"
    by (rule moves_query) simp
  ultimately show ?thesis
    by (simp only:) (rule moves_andThen_same, assumption, auto split: option.splits sum.splits)
qed

lemma moves_queries:
  "moves (latest_run j) (\<lambda>r R R'. R' = R \<and> (\<forall>x. r = Some x \<longrightarrow> (\<exists>w \<in> set R. rwJobID w = j \<and> x = scan_run w))) same"
  "moves (list_runs j) (\<lambda>xs R R'. R' = R \<and> set xs = scan_run ` {w \<in> set R. rwJobID w = j}) same"
  "moves active_runs (\<lambda>xs R R'. R' = R \<and> set xs = scan_run ` {w \<in> set R. active w}) same"
  "moves list_jobs (\<lambda>_. same) same"
proof -
  have "\<exists>w \<in> set (sRuns s). rwJobID w = j \<and> v = w" if "runs_desc j s = v # vs" for s v vs
  proof -
    have "set (v # vs) = {w \<in> set (sRuns s). rwJobID w = j}" unfolding that [symmetric] by (simp add: runs_desc_def)
    then show ?thesis by auto
  qed
  then show "moves (latest_run j) (\<lambda>r R R'. R' = R \<and> (\<forall>x. r = Some x \<longrightarrow> (\<exists>w \<in> set R. rwJobID w = j \<and> x = scan_run w))) same"
    unfolding latest_run_def by (intro moves_query) (fastforce split: list.splits)
qed (auto simp: list_runs_def active_runs_def list_jobs_def runs_desc_def intro!: moves_query)

lemma moves_other:
  "moves (create_job jb) (\<lambda>_. same) same" "moves (set_desired i d now) (\<lambda>_. same) same"
  "moves (append_transition tr) (\<lambda>_. same) same"
  by (intro movesI keeps_store_ops;
      auto simp: create_job_def set_desired_def append_transition_def append_trans_row_def andThen_def modify_def
        split: prod.splits sum.splits if_splits dest!: exec_runs)+

lemma update_run_row_result:
  "update_run_row r s = (x, t) \<Longrightarrow>
     (case x of Inl _ \<Rightarrow> sRuns t = sRuns s | Inr _ \<Rightarrow> sRuns t = map (set_run r) (sRuns s) \<and> rnId r \<in> rwId ` set (sRuns s))"
  by (auto simp: update_run_row_def andThen_def Let_def split: prod.splits sum.splits if_splits dest!: exec_runs)

lemma append_trans_row_runs: "append_trans_row tr s = (x, t) \<Longrightarrow> sRuns t = sRuns s"
  by (auto simp: append_trans_row_def andThen_def modify_def split: prod.splits sum.splits dest!: exec_runs)

lemma moves_update_run:
  "moves (update_run r) (\<lambda>_ R R'. R' = map (set_run r) R \<and> rnId r \<in> rwId ` set R) same"
  unfolding update_run_def
  by (intro movesI keeps_update_run_row) (auto dest!: update_run_row_result)

lemma moves_update_with:
  "moves (update_run_with_transition r tr) (\<lambda>_ R R'. R' = map (set_run r) R \<and> rnId r \<in> rwId ` set R) same"
proof (intro movesI keeps_store_txs)
  fix s x t
  assume "update_run_with_transition r tr s = (Inr x, t)"
  then obtain u v where uv: "sRuns u = sRuns s" "sRuns t = sRuns v"
    "andThen (update_run_row r) (\<lambda>_. case tr of None \<Rightarrow> ret () | Some t \<Rightarrow> append_trans_row t) u = (Inr x, v)"
    unfolding update_run_with_transition_def by (rule tx_result) blast
  then show "sRuns t = map (set_run r) (sRuns s) \<and> rnId r \<in> rwId ` set (sRuns s)"
    by (auto simp: andThen_def ret_def split: prod.splits sum.splits option.splits dest!: update_run_row_result append_trans_row_runs)
qed (auto simp: update_run_with_transition_def dest!: tx_err)

definition row_of :: "run \<Rightarrow> run_row" where
  "row_of r = \<lparr>rwId = rnId r, rwJobID = rnJobID r, rwContainerID = rnContainerID r, rwHostPort = rnHostPort r,
     rwPhase = rnPhase r, rwAttempt = rnAttempt r, rwError = rnError r, rwFailureKind = rnFailureKind r,
     rwStarted = format_rfc3339nano (rnStarted r), rwStopped = null_time (rnStopped r), rwRestartAt = null_time (rnRestartAt r)\<rparr>"

lemma moves_create_run:
  "moves (create_run_with_transition r tr) (\<lambda>_ R R'. R' = R @ [row_of r]) same"
proof (intro movesI keeps_store_txs)
  fix s x t
  assume "create_run_with_transition r tr s = (Inr x, t)"
  then obtain u v where uv: "sRuns u = sRuns s" "sRuns t = sRuns v"
    "andThen (insert_run r) (\<lambda>_. case tr of None \<Rightarrow> ret () | Some t \<Rightarrow> append_trans_row t) u = (Inr x, v)"
    unfolding create_run_with_transition_def by (rule tx_result) blast
  have "sRuns q = sRuns p @ [row_of r]" if "insert_run r p = (Inr y, q)" for p q y
    using that by (auto simp: insert_run_def andThen_def Let_def row_of_def split: prod.splits sum.splits if_splits dest!: exec_runs)
  with uv show "sRuns t = sRuns s @ [row_of r]"
    by (auto simp: andThen_def ret_def split: prod.splits sum.splits option.splits dest!: append_trans_row_runs)
qed (auto simp: create_run_with_transition_def dest!: tx_err)

lemma moves_prune:
  "moves (store_prune j n) (\<lambda>_ R R'. \<exists>V. R' = filter (\<lambda>w. rwId w \<notin> V) R \<and> (\<forall>w \<in> set R. rwId w \<in> V \<longrightarrow> \<not> active w)) same"
proof (intro movesI keeps_store_txs)
  fix s x t
  assume p: "store_prune j n s = (Inr x, t)" and inv: "store_inv s"
  have "\<not> active w" if "w \<in> set (sRuns s)" "rwId w \<in> set (prunable j n s)" for w
    using that inv by (auto simp: prunable_def store_inv_def distinct_map split: if_splits dest!: in_set_dropD inj_onD)
  with store_prune_result(1) [OF p]
  show "\<exists>V. sRuns t = filter (\<lambda>w. rwId w \<notin> V) (sRuns s) \<and> (\<forall>w \<in> set (sRuns s). rwId w \<in> V \<longrightarrow> \<not> active w)" by blast
qed (auto simp: store_prune_def dest!: tx_err)

lemma moves_delete_job:
  "moves (delete_job j) (\<lambda>_ R R'. R' = filter (\<lambda>w. rwJobID w \<noteq> j) R) (\<lambda>R R'. R' = R \<or> R' = filter (\<lambda>w. rwJobID w \<noteq> j) R)"
  by (intro movesI keeps_store_ops)
    (auto simp: delete_job_def andThen_def modify_def split: prod.splits sum.splits if_splits dest!: exec_runs)

section \<open>Lifting to the controller\<close>

definition cpred :: "(run_row list \<Rightarrow> 'b \<Rightarrow> bool) \<Rightarrow> 'b ctrl \<Rightarrow> bool" where
  "cpred p s \<longleftrightarrow> store_inv (cStore s) \<and> p (sRuns (cStore s)) (cBackend s)"

lemma cpred_mono: "cpred p s \<Longrightarrow> (\<And>R b. rows_ok R \<Longrightarrow> p R b \<Longrightarrow> q R b) \<Longrightarrow> cpred q s"
  by (auto simp: cpred_def store_inv_def)

lemma lift_store:
  assumes "moves m G H"
    and "\<And>x R R' b. rows_ok R \<Longrightarrow> rows_ok R' \<Longrightarrow> p R b \<Longrightarrow> G x R R' \<Longrightarrow> q x R' b"
    and "\<And>R R' b. rows_ok R \<Longrightarrow> rows_ok R' \<Longrightarrow> p R b \<Longrightarrow> H R R' \<Longrightarrow> e R' b"
  shows "triple (cpred p) (on_store m) (\<lambda>x. cpred (q x)) (cpred e)"
  unfolding on_store_def
proof (rule triple_zoom)
  fix s
  show "triple (\<lambda>t. cpred p s \<and> t = cStore s) m (\<lambda>x t. cpred (q x) (s\<lparr>cStore := t\<rparr>)) (\<lambda>t. cpred e (s\<lparr>cStore := t\<rparr>))"
  proof (cases "cpred p s")
    case True
    then have ok: "rows_ok (sRuns (cStore s))" "store_inv (cStore s)" "p (sRuns (cStore s)) (cBackend s)"
      by (simp_all add: cpred_def store_inv_def)
    have "triple (\<lambda>t. store_inv t \<and> sRuns t = sRuns (cStore s)) m (\<lambda>x t. store_inv t \<and> G x (sRuns (cStore s)) (sRuns t))
        (\<lambda>t. store_inv t \<and> H (sRuns (cStore s)) (sRuns t))"
      using assms(1) by (simp add: moves_def)
    then show ?thesis
      by (rule triple_weaken) (use ok assms(2,3) in \<open>auto simp: cpred_def store_inv_def\<close>)
  qed (simp add: triple_false)
qed

lemma lift_backend:
  assumes "\<And>R b x b'. p R b \<Longrightarrow> m b = (Inr x, b') \<Longrightarrow> q x R b'" and "\<And>R b e b'. p R b \<Longrightarrow> m b = (Inl e, b') \<Longrightarrow> r R b'"
  shows "triple (cpred p) (on_backend m) (\<lambda>x. cpred (q x)) (cpred r)"
  unfolding on_backend_def zoom_def
  by (rule tripleI) (auto simp: cpred_def split: prod.splits intro: assms)

lemma lift_store_same:
  assumes "moves m (\<lambda>_. same) same"
  shows "keeps (cpred p) (on_store m)"
  by (rule lift_store [OF assms]) auto

lemma keeps_time_now: "keeps (cpred p) (time_now g)"
  by (simp add: triple_def time_now_def cpred_def)

lemma keeps_new_id: "keeps (cpred p) (new_id g)"
  by (simp add: triple_def new_id_def cpred_def)

lemma keeps_set_secrets: "keeps (cpred p) (set_secrets j env)"
  by (simp add: triple_def set_secrets_def modify_def cpred_def)

lemma keeps_modify_memory:
  "keeps (cpred p) (modify (\<lambda>s. s\<lparr>cSecrets := f s\<rparr>))" "keeps (cpred p) (modify (\<lambda>s. s\<lparr>cHistory := h s\<rparr>))"
  by (simp_all add: triple_def modify_def cpred_def)

lemma keeps_transition_record: "keeps (cpred p) (transition_record g j r from to reason)"
  unfolding transition_record_def by (intro keeps_andThen keeps_time_now keeps_ret)

lemmas keeps_basic = keeps_time_now keeps_new_id keeps_set_secrets keeps_modify_memory keeps_transition_record
  lift_store_same [OF moves_get_job] lift_store_same [OF moves_queries(4)]
  lift_store_same [OF moves_other(1)] lift_store_same [OF moves_other(2)] lift_store_same [OF moves_other(3)]

lemma keeps_transition: "keeps (cpred p) (transition g j r from to reason)"
  unfolding transition_def by (intro keeps_andThen keeps_basic)

lemma keeps_desire: "keeps (cpred p) (desire g j d)"
  unfolding desire_def by (intro keeps_andThen keeps_basic)

lemma lift_update_with:
  assumes "\<And>R b. rows_ok R \<Longrightarrow> rows_ok (map (set_run run) R) \<Longrightarrow> p R b \<Longrightarrow> rnId run \<in> rwId ` set R \<Longrightarrow> q (map (set_run run) R) b"
  shows "triple (cpred p) (update_with g run from to reason) (\<lambda>_. cpred q) (cpred p)"
  unfolding update_with_def
  by (rule triple_andThen [OF keeps_transition_record]) (rule lift_store [OF moves_update_with], use assms in auto)

lemma lift_update_run:
  assumes "\<And>R b. rows_ok R \<Longrightarrow> rows_ok (map (set_run run) R) \<Longrightarrow> p R b \<Longrightarrow> rnId run \<in> rwId ` set R \<Longrightarrow> q (map (set_run run) R) b"
  shows "triple (cpred p) (on_store (update_run run)) (\<lambda>_. cpred q) (cpred p)"
  by (rule lift_store [OF moves_update_run], use assms in auto)

end
