(* ===== verification/Control_Fencing.thy ===== *)
theory Control_Fencing
  imports Control_Calculus
begin

text \<open>
  One live container per job. The invariant: a container that may be running belongs to the active
  run of its job, which records it and is neither waiting for a restart nor blocked. Everything the
  controller does keeps it, with any database statement and any backend call failing, as long as
  removing a container does not fail.
\<close>

section \<open>The invariant\<close>

abbreviation waiting :: "phase \<Rightarrow> bool" where
  "waiting p \<equiv> p \<in> {Restarting, Blocked}"

definition covers :: "run_row list \<Rightarrow> string \<Rightarrow> string \<Rightarrow> bool" where
  "covers R j c \<longleftrightarrow> (\<exists>w \<in> set R. active w \<and> rwJobID w = j \<and> rwContainerID w = c \<and> \<not> waiting (rwPhase w))"

definition fenced :: "('b \<Rightarrow> string \<Rightarrow> string set) \<Rightarrow> ('b \<Rightarrow> bool) \<Rightarrow> run_row list \<Rightarrow> 'b \<Rightarrow> bool" where
  "fenced live ok R b \<longleftrightarrow> ok b \<and> (\<forall>j. \<forall>c \<in> live b j. covers R j c)"

text \<open>The row with id \<open>i\<close> belongs to a job without a live container.\<close>

definition settled :: "('b \<Rightarrow> string \<Rightarrow> string set) \<Rightarrow> ('b \<Rightarrow> bool) \<Rightarrow> string \<Rightarrow> run_row list \<Rightarrow> 'b \<Rightarrow> bool" where
  "settled live ok i R b \<longleftrightarrow> fenced live ok R b \<and> (\<forall>w \<in> set R. rwId w = i \<longrightarrow> live b (rwJobID w) = {})"

text \<open>The run in hand agrees with its active row as far as live containers go.\<close>

definition tracked :: "('b \<Rightarrow> string \<Rightarrow> string set) \<Rightarrow> ('b \<Rightarrow> bool) \<Rightarrow> run \<Rightarrow> run_row list \<Rightarrow> 'b \<Rightarrow> bool" where
  "tracked live ok r R b \<longleftrightarrow> fenced live ok R b \<and> (\<exists>w \<in> set R. active w \<and> rwId w = rnId r \<and>
     live b (rwJobID w) \<subseteq> {rnContainerID r} \<and> (waiting (rnPhase r) \<longrightarrow> live b (rwJobID w) = {}))"

lemma set_run_other: "rwId w \<noteq> rnId r \<Longrightarrow> set_run r w = w"
  by (simp add: set_run_def)

lemma active_unique:
  assumes "one_active R" and "v \<in> set R" "w \<in> set R" and "active v" "active w" and "rwJobID v = rwJobID w"
  shows "v = w"
  using assms by (auto simp: one_active_def distinct_map dest: inj_onD)

lemma id_unique: "distinct (map rwId R) \<Longrightarrow> v \<in> set R \<Longrightarrow> w \<in> set R \<Longrightarrow> rwId v = rwId w \<Longrightarrow> v = w"
  by (auto simp: distinct_map dest: inj_onD)

lemma active_scan [simp]: "rnStopped (scan_run w) = None \<longleftrightarrow> active w" "rnId (scan_run w) = rwId w"
  "rnJobID (scan_run w) = rwJobID w" "rnContainerID (scan_run w) = rwContainerID w" "rnPhase (scan_run w) = rwPhase w"
  by (simp_all add: scan_run_def)

lemma settled_fenced: "settled live ok i R b \<Longrightarrow> fenced live ok R b"
  by (simp add: settled_def)

lemma tracked_fenced: "tracked live ok r R b \<Longrightarrow> fenced live ok R b"
  by (simp add: tracked_def)

lemma fencedE:
  assumes "fenced live ok R b" and "c \<in> live b j"
  obtains w where "w \<in> set R" "active w" "rwJobID w = j" "rwContainerID w = c" "\<not> waiting (rwPhase w)"
  using assms unfolding fenced_def covers_def by blast

lemma trackedE:
  assumes "tracked live ok r R b"
  obtains w where "w \<in> set R" "active w" "rwId w = rnId r" "live b (rwJobID w) \<subseteq> {rnContainerID r}"
    "waiting (rnPhase r) \<longrightarrow> live b (rwJobID w) = {}"
  using assms unfolding tracked_def by blast

lemma fenced_fades:
  assumes "fenced live ok R b" and "ok b'" and "\<And>j. live b' j \<subseteq> live b j"
  shows "fenced live ok R b'"
  using assms unfolding fenced_def by (meson subsetD)

lemma settled_set_run:
  assumes "settled live ok i R b" and "rnId r = i"
  shows "settled live ok i (map (set_run r) R) b"
proof -
  have "covers (map (set_run r) R) j c" if c: "c \<in> live b j" for j c
  proof -
    obtain w where w: "w \<in> set R" "active w" "rwJobID w = j" "rwContainerID w = c" "\<not> waiting (rwPhase w)"
      using fencedE [OF settled_fenced [OF assms(1)] c] .
    then have "rwId w \<noteq> i" using assms(1) c by (auto simp: settled_def)
    with w assms(2) show ?thesis by (auto simp: covers_def set_run_other intro!: bexI [of _ w])
  qed
  with assms show ?thesis by (auto simp: settled_def fenced_def)
qed

lemma tracked_set_run:
  assumes "tracked live ok r R b" and "rows_ok R" and "rnId r' = rnId r" "rnContainerID r' = rnContainerID r" "rnStopped r' = None"
    and "waiting (rnPhase r') \<Longrightarrow> waiting (rnPhase r)"
  shows "fenced live ok (map (set_run r') R) b"
proof -
  obtain v where v: "v \<in> set R" "active v" "rwId v = rnId r" "live b (rwJobID v) \<subseteq> {rnContainerID r}"
    "waiting (rnPhase r) \<longrightarrow> live b (rwJobID v) = {}"
    by (rule trackedE [OF assms(1)])
  have "covers (map (set_run r') R) j c" if c: "c \<in> live b j" for j c
  proof -
    obtain w where w: "w \<in> set R" "active w" "rwJobID w = j" "rwContainerID w = c" "\<not> waiting (rwPhase w)"
      using fencedE [OF tracked_fenced [OF assms(1)] c] .
    show ?thesis
    proof (cases "rwId w = rnId r")
      case True
      then have "w = v" using id_unique assms(2) v w by metis
      then show ?thesis
        unfolding covers_def using w v c assms(3-6)
        by (intro bexI [of _ "set_run r' w"]) (auto simp: set_run_def null_time_def)
    next
      case False
      with w assms(3) show ?thesis by (auto simp: covers_def set_run_other intro!: bexI [of _ w])
    qed
  qed
  with assms(1) show ?thesis by (auto simp: tracked_def fenced_def)
qed

lemma tracked_settled:
  assumes "tracked live ok r R b" and "rows_ok R" and "ok b'" "\<And>j. live b' j \<subseteq> live b j" "\<And>j. rnContainerID r \<notin> live b' j"
  shows "settled live ok (rnId r) R b'"
proof -
  obtain v where v: "v \<in> set R" "rwId v = rnId r" "live b (rwJobID v) \<subseteq> {rnContainerID r}"
    by (rule trackedE [OF assms(1)])
  have "live b' (rwJobID w) = {}" if "w \<in> set R" "rwId w = rnId r" for w
  proof -
    have "w = v" using id_unique [of R w v] assms(2) that v by simp
    with v(3) assms(4) [of "rwJobID v"] assms(5) [of "rwJobID v"] show ?thesis by blast
  qed
  then show ?thesis
    using fenced_fades [OF tracked_fenced [OF assms(1)] assms(3,4)] by (simp add: settled_def)
qed

lemma tracked_quiet:
  assumes "tracked live ok r R b" and "rows_ok R" and "waiting (rnPhase r) \<or> rnContainerID r = [] \<and> (\<forall>j. [] \<notin> live b j)"
  shows "settled live ok (rnId r) R b"
proof -
  obtain v where v: "v \<in> set R" "rwId v = rnId r" "live b (rwJobID v) \<subseteq> {rnContainerID r}"
    "waiting (rnPhase r) \<longrightarrow> live b (rwJobID v) = {}"
    by (rule trackedE [OF assms(1)])
  have "live b (rwJobID w) = {}" if "w \<in> set R" "rwId w = rnId r" for w
  proof -
    have "w = v" using id_unique [of R w v] assms(2) that v by simp
    moreover have "live b (rwJobID v) = {}"
    proof (cases "waiting (rnPhase r)")
      case False
      then have "rnContainerID r = []" "[] \<notin> live b (rwJobID v)" using assms(3) by blast+
      with v(3) show ?thesis by auto
    qed (use v(4) in blast)
    ultimately show ?thesis by simp
  qed
  then show ?thesis
    using tracked_fenced [OF assms(1)] by (simp add: settled_def)
qed

lemma fetched_tracked:
  assumes "fenced live ok R b" and "rows_ok R" and "w \<in> set R" and "active w"
  shows "tracked live ok (scan_run w) R b"
proof -
  have "c = rwContainerID w \<and> \<not> waiting (rwPhase w)" if c: "c \<in> live b (rwJobID w)" for c
  proof -
    obtain v where v: "v \<in> set R" "active v" "rwJobID v = rwJobID w" "rwContainerID v = c" "\<not> waiting (rwPhase v)"
      using fencedE [OF assms(1) c] .
    have "v = w" using active_unique [of R v w] assms v by simp
    with v show ?thesis by simp
  qed
  then have "live b (rwJobID w) \<subseteq> {rwContainerID w}" "waiting (rwPhase w) \<longrightarrow> live b (rwJobID w) = {}"
    by (blast, blast)
  with assms show ?thesis unfolding tracked_def by (intro conjI bexI [of _ w]) (simp_all del: insert_iff)
qed

text \<open>Between recording a run and recording its container: nothing of the job runs, or one container the row does not name yet.\<close>

definition fresh :: "('b \<Rightarrow> string \<Rightarrow> string set) \<Rightarrow> ('b \<Rightarrow> bool) \<Rightarrow> string \<Rightarrow> string \<Rightarrow> run_row list \<Rightarrow> 'b \<Rightarrow> bool" where
  "fresh live ok i j R b \<longleftrightarrow> fenced live ok R b \<and> live b j = {} \<and> (\<exists>w \<in> set R. rwId w = i \<and> active w \<and> rwJobID w = j)"

definition unrecorded :: "('b \<Rightarrow> string \<Rightarrow> string set) \<Rightarrow> ('b \<Rightarrow> bool) \<Rightarrow> string \<Rightarrow> string \<Rightarrow> string \<Rightarrow> run_row list \<Rightarrow> 'b \<Rightarrow> bool" where
  "unrecorded live ok i j c R b \<longleftrightarrow> ok b \<and> live b j \<subseteq> {c} \<and> (\<forall>j'. j' \<noteq> j \<longrightarrow> (\<forall>c' \<in> live b j'. covers R j' c')) \<and>
     (\<exists>w \<in> set R. rwId w = i \<and> active w \<and> rwJobID w = j)"

lemma fresh_settled:
  assumes "fresh live ok i j R b" and "rows_ok R"
  shows "settled live ok i R b"
proof -
  obtain v where v: "v \<in> set R" "rwId v = i" "rwJobID v = j" using assms(1) by (auto simp: fresh_def)
  have "live b (rwJobID w) = {}" if "w \<in> set R" "rwId w = i" for w
    using id_unique [of R w v] assms that v by (simp add: fresh_def)
  with assms(1) show ?thesis by (simp add: settled_def fresh_def)
qed

lemma unrecorded_gone:
  assumes "unrecorded live ok i j c R b" and "c \<notin> live b j"
  shows "fresh live ok i j R b"
proof -
  have "live b j = {}" using assms by (auto simp: unrecorded_def)
  moreover from this have "fenced live ok R b"
    using assms(1) unfolding unrecorded_def fenced_def by (metis empty_iff)
  ultimately show ?thesis using assms(1) by (simp add: fresh_def unrecorded_def)
qed

lemma unrecorded_set_run:
  assumes "unrecorded live ok i j (rnContainerID r) R b" and "rows_ok R"
    and "rnId r = i" "rnStopped r = None" "rnPhase r = Running"
  shows "fenced live ok (map (set_run r) R) b"
proof -
  obtain v where v: "v \<in> set R" "rwId v = i" "active v" "rwJobID v = j" using assms(1) by (auto simp: unrecorded_def)
  have "covers (map (set_run r) R) j' c" if c: "c \<in> live b j'" for j' c
  proof (cases "j' = j")
    case True
    then have "c = rnContainerID r" using assms(1) c by (auto simp: unrecorded_def)
    with True v assms(3-5) show ?thesis
      unfolding covers_def by (intro bexI [of _ "set_run r v"]) (auto simp: set_run_def null_time_def)
  next
    case False
    then obtain w where w: "w \<in> set R" "active w" "rwJobID w = j'" "rwContainerID w = c" "\<not> waiting (rwPhase w)"
      using assms(1) c unfolding unrecorded_def covers_def by blast
    with False v id_unique [of R w v] assms(2,3) have "rwId w \<noteq> rnId r" by auto
    then have "set_run r w = w" by (rule set_run_other)
    with w show ?thesis unfolding covers_def by (intro bexI [of _ w]) (auto intro: rev_image_eqI)
  qed
  with assms(1) show ?thesis by (simp add: fenced_def unrecorded_def)
qed

text \<open>
  A run just read from its row; and what the reconciler knows when it looks at a run: its row, and
  that a container reported dead is dead.
\<close>

definition from_row :: "('b \<Rightarrow> string \<Rightarrow> string set) \<Rightarrow> ('b \<Rightarrow> bool) \<Rightarrow> run \<Rightarrow> run_row list \<Rightarrow> 'b \<Rightarrow> bool" where
  "from_row live ok r R b \<longleftrightarrow> fenced live ok R b \<and> (\<exists>w \<in> set R. r = scan_run w)"

definition observed :: "('b \<Rightarrow> string \<Rightarrow> string set) \<Rightarrow> ('b \<Rightarrow> bool) \<Rightarrow> run \<Rightarrow> status \<Rightarrow> run_row list \<Rightarrow> 'b \<Rightarrow> bool" where
  "observed live ok r st R b \<longleftrightarrow>
     tracked live ok r R b \<and> (stPhase st \<in> {PhaseExited, PhaseGone} \<longrightarrow> settled live ok (rnId r) R b)"

definition settled_row :: "('b \<Rightarrow> string \<Rightarrow> string set) \<Rightarrow> ('b \<Rightarrow> bool) \<Rightarrow> string \<Rightarrow> run_row list \<Rightarrow> 'b \<Rightarrow> bool" where
  "settled_row live ok i R b \<longleftrightarrow> settled live ok i R b \<and> (\<exists>w \<in> set R. active w \<and> rwId w = i)"

section \<open>Every operation keeps it\<close>

locale control_plane = removing_backend B live ok
  for B :: "'b backend_ops" and live :: "'b \<Rightarrow> string \<Rightarrow> string set" and ok :: "'b \<Rightarrow> bool" +
  fixes g :: "'b config"
  assumes backend [simp]: "gBackend g = B"
begin

text \<open>Assertions that survive containers ending.\<close>

definition fading :: "(run_row list \<Rightarrow> 'b \<Rightarrow> bool) \<Rightarrow> bool" where
  "fading p \<longleftrightarrow> (\<forall>R b. p R b \<longrightarrow> ok b) \<and> (\<forall>R b b'. p R b \<longrightarrow> ok b' \<longrightarrow> (\<forall>j. live b' j \<subseteq> live b j) \<longrightarrow> p R b')"

lemma fadingI:
  assumes "\<And>R b. p R b \<Longrightarrow> ok b" and "\<And>R b b'. p R b \<Longrightarrow> ok b' \<Longrightarrow> \<forall>j. live b' j \<subseteq> live b j \<Longrightarrow> p R b'"
  shows "fading p"
  using assms unfolding fading_def by blast

lemma fading_fenced: "fading (fenced live ok)"
  unfolding fading_def using fenced_fades by (metis fenced_def)

lemma fading_settled: "fading (settled live ok i)"
  using fading_fenced unfolding fading_def settled_def by (metis subset_empty)

lemma fading_tracked: "fading (tracked live ok r)"
proof -
  have "tracked live ok r R b'" if t: "tracked live ok r R b" "ok b'" "\<And>j. live b' j \<subseteq> live b j" for R b b'
  proof -
    obtain w where w: "w \<in> set R" "active w" "rwId w = rnId r" "live b (rwJobID w) \<subseteq> {rnContainerID r}"
      "waiting (rnPhase r) \<longrightarrow> live b (rwJobID w) = {}"
      by (rule trackedE [OF t(1)])
    with t(3) [of "rwJobID w"] have "live b' (rwJobID w) \<subseteq> {rnContainerID r}" "waiting (rnPhase r) \<longrightarrow> live b' (rwJobID w) = {}"
      by (blast, blast)
    with w(1-3) fenced_fades [OF tracked_fenced [OF t(1)] t(2,3)] show ?thesis
      unfolding tracked_def by blast
  qed
  then show ?thesis unfolding fading_def tracked_def fenced_def by blast
qed

lemmas fading_preds = fading_fenced fading_settled fading_tracked

lemma lift_fading:
  assumes "fading p" and "\<And>b r b'. ok b \<Longrightarrow> m b = (r, b') \<Longrightarrow> ok b' \<and> (\<forall>j. live b' j \<subseteq> live b j)"
  shows "keeps (cpred p) (on_backend m)"
proof -
  have "p R b'" if "p R b" "m b = (r, b')" for R b b' r
    using assms(1) assms(2) [of b r b'] that unfolding fading_def by metis
  then show ?thesis by (intro lift_backend)
qed

lemma backend_shrinks:
  assumes "ok b"
  shows "bStop B c d b = (r1, b') \<Longrightarrow> ok b' \<and> (\<forall>j. live b' j \<subseteq> live b j)"
    and "bStatus B c b = (r2, b') \<Longrightarrow> ok b' \<and> (\<forall>j. live b' j \<subseteq> live b j)"
    and "bRemove B c b = (r3, b') \<Longrightarrow> ok b' \<and> (\<forall>j. live b' j \<subseteq> live b j)"
proof -
  show "bStop B c d b = (r1, b') \<Longrightarrow> ok b' \<and> (\<forall>j. live b' j \<subseteq> live b j)"
    using stop_ok [OF assms] stop_err [OF assms] by (cases r1) blast+
  show "bStatus B c b = (r2, b') \<Longrightarrow> ok b' \<and> (\<forall>j. live b' j \<subseteq> live b j)"
    using status_ok [OF assms] status_err [OF assms] by (cases r2) blast+
  show "bRemove B c b = (r3, b') \<Longrightarrow> ok b' \<and> (\<forall>j. live b' j \<subseteq> live b j)"
    using remove_ok [OF assms] remove_err [OF assms] by (cases r3) blast+
qed

lemma keeps_backend:
  assumes "fading p"
  shows "keeps (cpred p) (on_backend (bStop B c d))" "keeps (cpred p) (on_backend (bStatus B c))"
    "keeps (cpred p) (on_backend (bRemove B c))" "keeps (cpred p) (on_backend (bDeleteJobData B j))"
    "keeps (cpred p) (on_backend (bCapacity B n))"
  by (rule lift_fading [OF assms], erule (1) backend_shrinks delete_data capacity)+

lemma weaken_fenced:
  "triple P m Q (cpred (settled live ok i)) \<Longrightarrow> triple P m Q (cpred (fenced live ok))"
  "triple P m (\<lambda>_. cpred (settled live ok i)) E \<Longrightarrow> triple P m (\<lambda>_. cpred (fenced live ok)) E"
  by (erule triple_weaken; auto intro: cpred_mono settled_fenced)+

lemma keeps_update_settled:
  assumes "rnId r = i"
  shows "keeps (cpred (settled live ok i)) (update_with g r from to reason)"
    and "keeps (cpred (settled live ok i)) (on_store (update_run r))"
  by (intro lift_update_with lift_update_run settled_set_run assms; assumption)+

lemma keeps_prune: "keeps (cpred (fenced live ok)) (prune_terminal_runs g j)"
proof -
  have "covers (filter (\<lambda>w. rwId w \<notin> V) R) j' c" if "covers R j' c" "\<forall>w \<in> set R. rwId w \<in> V \<longrightarrow> \<not> active w" for R V j' c
    using that unfolding covers_def by auto
  then have "keeps (cpred (fenced live ok)) (on_store (store_prune j n))" for n
    by (intro lift_store [OF moves_prune]) (auto simp: fenced_def)
  moreover have "keeps (cpred (fenced live ok)) (on_store (list_runs j))"
    by (rule lift_store [OF moves_queries(2)]) auto
  ultimately show ?thesis
    unfolding prune_terminal_runs_def backend by (intro keeps_rules keeps_backend(3) fading_preds)
qed

lemma finish_run_fenced:
  "triple (cpred (settled live ok (rnId r))) (finish_run g r from to reason) (\<lambda>_. cpred (fenced live ok)) (cpred (fenced live ok))"
  unfolding finish_run_def
  by (intro triple_andThen [OF weaken_fenced(1) [OF keeps_time_now]]
      triple_andThen [OF weaken_fenced(2) [OF weaken_fenced(1) [OF keeps_update_settled(1)]]] keeps_prune) simp

section \<open>Launching\<close>

lemma fading_fresh: "fading (fresh live ok i j)"
proof -
  have "fresh live ok i j R b'" if "fresh live ok i j R b" "ok b'" "\<forall>j. live b' j \<subseteq> live b j" for R b b'
    using that fenced_fades [of live ok R b b'] unfolding fresh_def by (metis subset_empty)
  then show ?thesis by (rule fadingI [rotated]) (simp_all add: fresh_def fenced_def)
qed

lemma fading_unrecorded: "fading (unrecorded live ok i j c)"
proof -
  have "unrecorded live ok i j c R b'" if u: "unrecorded live ok i j c R b" "ok b'" "\<forall>j. live b' j \<subseteq> live b j" for R b b'
    using u unfolding unrecorded_def by (meson subset_iff)
  then show ?thesis by (rule fadingI [rotated]) (simp_all add: unrecorded_def)
qed

lemma weaken_to_settled:
  assumes "triple (cpred (settled live ok i)) m Q E"
  shows "triple (cpred (fresh live ok i j)) m Q E"
  using assms by (rule triple_pre) (auto intro: cpred_mono fresh_settled)

lemma schedule_restart_settled:
  assumes "rnId r = i"
  shows "triple (cpred (settled live ok i)) (schedule_restart_from g r from reason) (\<lambda>r' s. cpred (settled live ok i) s \<and> rnId r' = i) (cpred (settled live ok i))"
  unfolding schedule_restart_from_def Let_def
  by (intro triple_andThen [OF keeps_time_now] triple_andThen [OF keeps_update_settled(1)] triple_ret) (simp_all add: assms)

lemma fail_fenced: "triple (cpred (settled live ok i)) (fail e) Q (cpred (fenced live ok))"
  by (rule triple_fail) (auto intro: cpred_mono settled_fenced)

lemma attempt_settled:
  assumes "triple (cpred (settled live ok i)) m (\<lambda>_ s. cpred (settled live ok i) s) (cpred (settled live ok i))"
  shows "triple (cpred (settled live ok i)) (attempt m) (\<lambda>_. cpred (settled live ok i)) E"
  by (rule triple_attempt) (rule triple_weaken [OF assms], auto)

lemma attempt_fail:
  assumes "triple (cpred (settled live ok i)) m (\<lambda>_ s. cpred (settled live ok i) s) (cpred (settled live ok i))"
  shows "triple (cpred (settled live ok i)) (andThen (attempt m) (\<lambda>u. case u of Inl e \<Rightarrow> fail (f e) | Inr _ \<Rightarrow> fail h)) Q (cpred (fenced live ok))"
  by (rule triple_andThen [OF attempt_settled [OF assms]]) (auto intro: fail_fenced split: sum.splits)

lemma launch_failed_fenced:
  assumes "rnId r = i"
  shows "triple (cpred (settled live ok i)) (launch_failed g r err) (\<lambda>_. cpred (fenced live ok)) (cpred (fenced live ok))"
proof -
  have "triple (cpred (settled live ok i)) (schedule_restart_from g r' Starting err) (\<lambda>_ s. cpred (settled live ok i) s) (cpred (settled live ok i))"
    if "rnId r' = i" for r'
    by (rule triple_weaken [OF schedule_restart_settled [OF that]]) auto
  moreover have "triple (cpred (settled live ok i)) (update_with g r' Starting Failed err) (\<lambda>_ s. cpred (settled live ok i) s) (cpred (settled live ok i))"
    if "rnId r' = i" for r'
    using keeps_update_settled(1) [OF that] .
  ultimately show ?thesis
    unfolding launch_failed_def Let_def using assms
    by (auto intro!: attempt_fail triple_andThen [OF weaken_fenced(1) [OF keeps_time_now]])
qed

lemma launch_record_failed_fenced:
  assumes "rnId r = i" and "rnContainerID r = c"
  shows "triple (cpred (unrecorded live ok i j c)) (launch_record_failed g r err) Q (cpred (fenced live ok))"
proof -
  have "triple (cpred (unrecorded live ok i j c)) (on_backend (bRemove B c)) (\<lambda>_. cpred (settled live ok i)) (cpred (\<lambda>_ _. False))"
  proof (rule triple_weaken [where Q = "\<lambda>_. cpred (fresh live ok i j)"])
    show "triple (cpred (unrecorded live ok i j c)) (on_backend (bRemove B c)) (\<lambda>_. cpred (fresh live ok i j)) (cpred (\<lambda>_ _. False))"
    proof (rule lift_backend)
      fix R b x b'
      assume u: "unrecorded live ok i j c R b" and m: "bRemove B c b = (Inr x, b')"
      then have b: "ok b" by (simp add: unrecorded_def)
      from fading_unrecorded u remove_ok [OF b m] have "unrecorded live ok i j c R b'" "c \<notin> live b' j"
        unfolding fading_def by blast+
      then show "fresh live ok i j R b'" by (rule unrecorded_gone)
    next
      fix R b e b'
      assume u: "unrecorded live ok i j c R b" and m: "bRemove B c b = (Inl e, b')"
      then have "ok b" by (simp add: unrecorded_def)
      from removes [OF this, of c] m show False by simp
    qed
  qed (auto intro: cpred_mono fresh_settled)
  then have rm: "triple (cpred (unrecorded live ok i j c)) (attempt (on_backend (bRemove B c))) (\<lambda>_. cpred (settled live ok i)) E" for E
    by (intro triple_attempt) (erule triple_weaken, auto simp: cpred_def)
  have mark: "triple (cpred (settled live ok i)) (attempt (mark_launch_record_failure g r err)) (\<lambda>_. cpred (settled live ok i)) E" for E
    unfolding mark_launch_record_failure_def
    by (intro attempt_settled keeps_andThen keeps_time_now keeps_update_settled(2)) (simp add: assms(1))
  show ?thesis
    unfolding launch_record_failed_def backend assms(2)
    by (rule triple_andThen [OF rm], rule triple_andThen [OF mark], rule fail_fenced)
qed

lemma launch_record_fenced:
  assumes "rnId r = i" and "rnStopped r = None"
  shows "triple (cpred (unrecorded live ok i j c)) (launch_record g r c) (\<lambda>_. cpred (fenced live ok)) (cpred (fenced live ok))"
proof -
  let ?U = "cpred (unrecorded live ok i j c)"
  have upd: "triple ?U (attempt (update_with g r' Starting Running ''launched''))
      (\<lambda>u s. case u of Inl _ \<Rightarrow> ?U s | Inr _ \<Rightarrow> cpred (fenced live ok) s) E"
    if "rnId r' = i" "rnStopped r' = None" "rnPhase r' = Running" "rnContainerID r' = c" for r' E
    using that by (intro triple_attempt) (auto intro!: lift_update_with unrecorded_set_run)
  have rcd: "triple ?U (andThen (attempt (update_with g r' Starting Running ''launched''))
      (\<lambda>u. case u of Inl e \<Rightarrow> launch_record_failed g r' e | Inr _ \<Rightarrow> ret ())) (\<lambda>_. cpred (fenced live ok)) (cpred (fenced live ok))"
    if "rnId r' = i" "rnStopped r' = None" "rnPhase r' = Running" "rnContainerID r' = c" for r'
    by (rule triple_andThen [OF upd [OF that]]) (use that in \<open>auto intro!: launch_record_failed_fenced triple_ret split: sum.splits\<close>)
  have st: "triple ?U (attempt (on_backend (bStatus B c))) (\<lambda>_. ?U) E" for E
    by (intro triple_attempt triple_weaken [OF keeps_backend(2) [OF fading_unrecorded]]) auto
  show ?thesis
    unfolding launch_record_def backend Let_def
    by (rule triple_andThen [OF st]) (rule rcd, simp_all add: assms)
qed

lemma launch_recorded_fenced:
  assumes "rnId r = i" "rnStopped r = None" "jId job = j"
  shows "triple (cpred (fresh live ok i j)) (launch_recorded g job r restore) (\<lambda>_. cpred (fenced live ok)) (cpred (fenced live ok))"
proof -
  let ?F = "cpred (fresh live ok i j)"
  have "triple ?F (attempt (on_backend (bLaunch B sp))) (\<lambda>l s. case l of Inl _ \<Rightarrow> ?F s | Inr c \<Rightarrow> cpred (unrecorded live ok i j c) s) E"
    if "lsJobID sp = j" for sp E
  proof (rule triple_attempt, simp, rule lift_backend)
    fix R b c b'
    assume f: "fresh live ok i j R b" and m: "bLaunch B sp b = (Inr c, b')"
    then have b: "ok b" by (simp add: fresh_def fenced_def)
    from launch_ok [OF b m] that have l: "ok b'" "live b' j \<subseteq> insert c (live b j)" "\<And>j'. j' \<noteq> j \<Longrightarrow> live b' j' \<subseteq> live b j'"
      by (auto split: if_splits)
    with f show "unrecorded live ok i j c R b'"
      unfolding unrecorded_def fresh_def fenced_def by blast
  next
    fix R b e b'
    assume f: "fresh live ok i j R b" and m: "bLaunch B sp b = (Inl e, b')"
    then have "ok b" by (simp add: fresh_def fenced_def)
    with launch_err [OF this m] f fading_fresh show "fresh live ok i j R b'" unfolding fading_def by blast
  qed
  then have la: "triple ?F (andThen (attempt (on_backend (bLaunch B (launch_spec_of g job env restore))))
      (\<lambda>l. case l of Inl err \<Rightarrow> launch_failed g r err | Inr c \<Rightarrow> launch_record g r c)) (\<lambda>_. cpred (fenced live ok)) (cpred (fenced live ok))" for env
    by (rule triple_andThen)
      (use assms in \<open>auto simp: launch_spec_of_def Let_def intro!: weaken_to_settled launch_failed_fenced launch_record_fenced split: sum.splits\<close>)
  have bl: "triple ?F (andThen (attempt (block_run g r Starting err)) (\<lambda>u. case u of Inl ue \<Rightarrow> fail (f ue) | Inr _ \<Rightarrow> fail h))
      Q (cpred (fenced live ok))" for err f h Q
    unfolding block_run_def using assms(1) by (intro weaken_to_settled attempt_fail keeps_update_settled(1)) simp
  show ?thesis
    unfolding launch_recorded_def backend
  proof (rule triple_andThen)
    show "triple ?F (gets (launch_env g job)) (\<lambda>_. ?F) (cpred (fenced live ok))"
      by (rule triple_weaken [OF keeps_gets [where I = ?F]]) (auto elim: cpred_mono simp: fresh_def)
  qed (auto intro: la bl split: sum.splits)
qed

end

end
