(* ===== verification/Control_Safety.thy ===== *)
theory Control_Safety
  imports Control_Fencing
begin

text \<open>
  The operations of the controller, one by one and then in every order, keep at most one live
  container per job.
\<close>

context control_plane
begin

section \<open>Starting, restarting, unblocking\<close>

abbreviation (input) Inv :: "'b ctrl \<Rightarrow> bool" where
  "Inv \<equiv> cpred (fenced live ok)"

lemma start_run_fenced: "keeps Inv (start_run g job n restore)"
proof -
  let ?j = "jId job"
  let ?q = "\<lambda>R b. fenced live ok R b \<and> (\<forall>w \<in> set R. rwJobID w = ?j \<longrightarrow> \<not> active w)"
  have quiet: "live b ?j = {}" if "?q R b" for R b
    using that unfolding fenced_def covers_def by blast
  have runs: "triple Inv (on_store (list_runs ?j)) (\<lambda>xs. cpred (\<lambda>R b. fenced live ok R b \<and> set xs = scan_run ` {w \<in> set R. rwJobID w = ?j})) Inv"
    by (rule lift_store [OF moves_queries(2)]) auto
  have none: "cpred ?q s" if "find (\<lambda>r. rnStopped r = None) xs = None"
    "cpred (\<lambda>R b. fenced live ok R b \<and> set xs = scan_run ` {w \<in> set R. rwJobID w = ?j}) s" for xs s
  proof (rule cpred_mono [OF that(2)])
    fix R b
    assume "fenced live ok R b \<and> set xs = scan_run ` {w \<in> set R. rwJobID w = ?j}"
    with that(1) show "?q R b" by (auto simp: find_None_iff)
  qed
  have basic: "triple (cpred ?q) m (\<lambda>_. cpred ?q) Inv" if "keeps (cpred ?q) m" for m :: "('b, 'x) ctl"
    by (rule triple_weaken [OF that]) (auto elim: cpred_mono)
  have create: "triple (cpred ?q) (on_store (create_run_with_transition r tr)) (\<lambda>_. cpred (fresh live ok (rnId r) ?j)) Inv"
    if "rnJobID r = ?j" "rnStopped r = None" for r tr
  proof (rule lift_store [OF moves_create_run])
    fix R R' b
    assume "?q R b" and R': "R' = R @ [row_of r]"
    then show "fresh live ok (rnId r) ?j R' b"
      using that quiet [of R b] unfolding fresh_def fenced_def covers_def by (auto simp: row_of_def null_time_def)
  qed auto
  have found: "triple (cpred ?q) (andThen (time_now g) (\<lambda>t. andThen (new_id g) (\<lambda>i.
      let run = \<lparr>rnId = i, rnJobID = ?j, rnContainerID = [], rnHostPort = 0, rnPhase = Starting, rnAttempt = n,
               rnError = [], rnFailureKind = [], rnStarted = t, rnStopped = None, rnRestartAt = None\<rparr>
      in andThen (transition_record g ?j i (Some Submitted) Starting ''launch requested'') (\<lambda>tr.
            andThen (on_store (create_run_with_transition run (Some tr))) (\<lambda>_. launch_recorded g job run restore))))) (\<lambda>_. Inv) Inv"
    unfolding Let_def
    by (rule triple_andThen [OF basic [OF keeps_time_now]], rule triple_andThen [OF basic [OF keeps_new_id]],
        rule triple_andThen [OF basic [OF keeps_transition_record]], rule triple_andThen [OF create])
      (auto intro!: launch_recorded_fenced)
  show ?thesis
    unfolding start_run_def
  proof (rule triple_andThen [OF runs])
    fix xs
    let ?P = "cpred (\<lambda>R b. fenced live ok R b \<and> set xs = scan_run ` {w \<in> set R. rwJobID w = ?j})"
    show "triple ?P (case find (\<lambda>r. rnStopped r = None) xs of
        Some prev \<Rightarrow> fail (''job '' @ ?j @ '' already has an active run '' @ rnId prev)
      | None \<Rightarrow> andThen (time_now g) (\<lambda>t. andThen (new_id g) (\<lambda>i.
      let run = \<lparr>rnId = i, rnJobID = ?j, rnContainerID = [], rnHostPort = 0, rnPhase = Starting, rnAttempt = n,
               rnError = [], rnFailureKind = [], rnStarted = t, rnStopped = None, rnRestartAt = None\<rparr>
      in andThen (transition_record g ?j i (Some Submitted) Starting ''launch requested'') (\<lambda>tr.
            andThen (on_store (create_run_with_transition run (Some tr))) (\<lambda>_. launch_recorded g job run restore)))))
      (\<lambda>_. Inv) Inv"
    proof (cases "find (\<lambda>r. rnStopped r = None) xs")
      case None
      then show ?thesis using triple_pre [OF found, of ?P] none by simp
    next
      case (Some prev)
      then show ?thesis by (auto intro!: triple_fail elim: cpred_mono)
    qed
  qed
qed

lemma basic_settled: "keeps (cpred (settled live ok i)) m \<Longrightarrow> triple (cpred (settled live ok i)) m (\<lambda>_. cpred (settled live ok i)) Inv"
  by (rule weaken_fenced(1))

lemma ret_settled: "triple (cpred (settled live ok i)) (ret x) (\<lambda>_. Inv) Inv"
  by (rule triple_ret) (auto elim: cpred_mono intro: settled_fenced)

lemma maybe_restart_fenced:
  "triple (cpred (settled live ok (rnId r))) (maybe_restart g job r) (\<lambda>_. Inv) Inv"
proof -
  have "triple (cpred (settled live ok (rnId r))) (case rnRestartAt r of None \<Rightarrow> ret False | Some at \<Rightarrow> andThen (time_now g) (\<lambda>t. ret (t < at)))
      (\<lambda>_. cpred (settled live ok (rnId r))) Inv"
    by (rule basic_settled) (intro keeps_rules keeps_time_now)
  then show ?thesis
    unfolding maybe_restart_def
    by (auto intro!: ret_settled triple_andThen [OF finish_run_fenced] start_run_fenced intro: triple_andThen)
qed

lemma maybe_unblock_fenced:
  "triple (cpred (settled live ok (rnId r))) (maybe_unblock g job r) (\<lambda>_. Inv) Inv"
proof -
  have "triple (cpred (settled live ok (rnId r))) (gets (launch_env g job)) (\<lambda>_. cpred (settled live ok (rnId r))) Inv"
    by (rule basic_settled) (rule keeps_gets)
  moreover have "triple (cpred (settled live ok (rnId r))) (on_store (update_run (r\<lparr>rnError := e\<rparr>))) (\<lambda>_. Inv) Inv" for e
    by (rule weaken_fenced(1), rule weaken_fenced(2), rule keeps_update_settled(2)) simp
  ultimately show ?thesis
    unfolding maybe_unblock_def
    by (auto intro!: ret_settled triple_andThen [OF finish_run_fenced] start_run_fenced intro: triple_andThen split: sum.splits)
qed

section \<open>Reconciling\<close>

lemma handle_exit_fenced:
  "triple (cpred (settled live ok (rnId r))) (handle_exit g job r code oom) (\<lambda>_. Inv) Inv"
proof -
  have sched: "triple (cpred (settled live ok i)) (andThen (schedule_restart g r' reason) (maybe_restart g job)) (\<lambda>_. Inv) Inv"
    if "rnId r' = i" for r' i reason
    unfolding schedule_restart_def
    by (rule triple_andThen [OF weaken_fenced(1) [OF schedule_restart_settled [OF that]]])
      (rule triple_pure, auto intro: maybe_restart_fenced)
  show ?thesis
    unfolding handle_exit_def Let_def case_prod_beta
    using sched finish_run_fenced [of "r\<lparr>rnFailureKind := _, rnError := _\<rparr>"] finish_run_fenced [of r]
    by (auto simp: prod.case_distrib)
qed

lemma tracked_update:
  assumes "rnId r' = rnId r" "rnContainerID r' = rnContainerID r" "rnStopped r' = None" "waiting (rnPhase r') \<Longrightarrow> waiting (rnPhase r)"
  shows "triple (cpred (tracked live ok r)) (on_store (update_run r')) (\<lambda>_. Inv) Inv"
  by (rule triple_weaken [OF lift_update_run [where p = "tracked live ok r" and q = "fenced live ok"]])
    (use assms in \<open>auto intro: tracked_set_run elim: cpred_mono intro: tracked_fenced\<close>)

lemma stop_tracked:
  "triple (cpred (tracked live ok r)) (stop_container g r) (\<lambda>_. cpred (settled live ok (rnId r))) (cpred (tracked live ok r))"
proof -
  let ?p = "\<lambda>R b. tracked live ok r R b \<and> rows_ok R"
  have "triple (cpred ?p) (stop_container g r) (\<lambda>_. cpred (settled live ok (rnId r))) (cpred (tracked live ok r))"
    unfolding stop_container_def backend
  proof (rule lift_backend)
    fix R b x b'
    assume p: "?p R b" and m: "bStop B (rnContainerID r) (gStopTimeout g) b = (Inr x, b')"
    then have "ok b" by (simp add: tracked_def fenced_def)
    from stop_ok [OF this m] have "ok b'" "\<And>j. live b' j \<subseteq> live b j" "\<And>j. rnContainerID r \<notin> live b' j" by blast+
    with p show "settled live ok (rnId r) R b'" by (intro tracked_settled [where b = b]) auto
  next
    fix R b e b'
    assume p: "?p R b" and m: "bStop B (rnContainerID r) (gStopTimeout g) b = (Inl e, b')"
    then have "ok b" by (simp add: tracked_def fenced_def)
    from stop_err [OF this m] p fading_tracked show "tracked live ok r R b'" unfolding fading_def by blast
  qed
  then show ?thesis by (rule triple_pre) (auto elim: cpred_mono)
qed

lemma stop_and_finish_fenced:
  assumes "rnStopped r = None"
  shows "triple (cpred (tracked live ok r)) (stop_and_finish g r from) (\<lambda>_. Inv) Inv"
proof -
  have "triple (cpred (tracked live ok r)) (attempt (stop_container g r))
      (\<lambda>x s. case x of Inl _ \<Rightarrow> cpred (tracked live ok r) s | Inr _ \<Rightarrow> cpred (settled live ok (rnId r)) s) Inv"
    by (rule triple_attempt) (simp add: stop_tracked)
  then show ?thesis
    unfolding stop_and_finish_def
    by (rule triple_andThen) (use assms in \<open>auto intro!: tracked_update finish_run_fenced split: sum.splits\<close>)
qed

lemma observed_weaken:
  "triple (cpred (tracked live ok r)) m Q E \<Longrightarrow> triple (cpred (observed live ok r st)) m Q E"
  "stPhase st \<in> {PhaseExited, PhaseGone} \<Longrightarrow> triple (cpred (settled live ok (rnId r))) m Q E \<Longrightarrow>
    triple (cpred (observed live ok r st)) m Q E"
  by (erule triple_pre; auto elim: cpred_mono simp: observed_def)+

lemma ret_tracked: "triple (cpred (tracked live ok r)) (ret x) (\<lambda>_. Inv) Inv"
  by (rule triple_ret) (auto elim: cpred_mono intro: tracked_fenced)

lemma restart_gone_fenced:
  "triple (cpred (settled live ok (rnId r))) (andThen (schedule_restart g r reason) (maybe_restart g job)) (\<lambda>_. Inv) Inv"
  unfolding schedule_restart_def
  by (rule triple_andThen [OF weaken_fenced(1) [OF schedule_restart_settled [OF refl]]])
    (rule triple_pure, metis maybe_restart_fenced)

lemma reconcile_run_fenced:
  assumes "rnStopped r = None"
  shows "triple (cpred (observed live ok r st)) (reconcile_run g job r st) (\<lambda>_. Inv) Inv"
proof (cases "stPhase st \<in> {PhaseExited, PhaseGone}")
  case True
  then have "triple (cpred (settled live ok (rnId r))) (reconcile_run g job r st) (\<lambda>_. Inv) Inv"
    unfolding reconcile_run_def using handle_exit_fenced
    by (auto intro!: finish_run_fenced restart_gone_fenced)
  then show ?thesis by (rule observed_weaken(2) [OF True])
next
  case False
  have "triple (cpred (tracked live ok r)) (reconcile_run g job r st) (\<lambda>_. Inv) Inv"
    unfolding reconcile_run_def Let_def using False assms
    by (auto intro!: stop_and_finish_fenced tracked_update ret_tracked split: bphase.splits)
  then show ?thesis by (rule observed_weaken(1))
qed

lemma status_observed:
  assumes "c = rnContainerID r"
  shows "triple (cpred (tracked live ok r)) (on_backend (bStatus B c)) (\<lambda>st. cpred (observed live ok r st)) (cpred (tracked live ok r))"
proof -
  let ?p = "\<lambda>R b. tracked live ok r R b \<and> rows_ok R"
  have "triple (cpred ?p) (on_backend (bStatus B c)) (\<lambda>st. cpred (observed live ok r st)) (cpred (tracked live ok r))"
  proof (rule lift_backend)
    fix R b st b'
    assume p: "?p R b" and m: "bStatus B c b = (Inr st, b')"
    then have b: "ok b" by (simp add: tracked_def fenced_def)
    from status_ok [OF b m] have st: "ok b'" "\<And>j. live b' j \<subseteq> live b j" "stPhase st \<in> {PhaseExited, PhaseGone} \<Longrightarrow> c \<notin> live b' j" for j
      by blast+
    have "tracked live ok r R b'" using fading_tracked p st(1,2) unfolding fading_def by blast
    moreover have "settled live ok (rnId r) R b'" if "stPhase st \<in> {PhaseExited, PhaseGone}"
      using st(3) [OF that] p st(1,2) assms by (intro tracked_settled [where b = b]) auto
    ultimately show "observed live ok r st R b'" unfolding observed_def by blast
  next
    fix R b e b'
    assume p: "?p R b" and m: "bStatus B c b = (Inl e, b')"
    then have "ok b" by (simp add: tracked_def fenced_def)
    from status_err [OF this m] p fading_tracked show "tracked live ok r R b'" unfolding fading_def by blast
  qed
  then show ?thesis by (rule triple_pre) (auto elim: cpred_mono)
qed

text \<open>A run whose launch was never recorded.\<close>

lemma settled_row_observed:
  assumes "settled_row live ok (rnId r) R b"
  shows "observed live ok r st R b"
  using assms unfolding settled_row_def observed_def settled_def tracked_def by blast

lemma settled_row_weaken:
  "triple (cpred (settled live ok i)) m Q E \<Longrightarrow> triple (cpred (settled_row live ok i)) m Q E"
  by (erule triple_pre) (auto elim: cpred_mono simp: settled_row_def)

lemma fading_settled_row: "fading (settled_row live ok i)"
  using fading_settled [of i] unfolding fading_def settled_row_def by blast

lemma reattach_fenced:
  assumes "rnStopped r = None"
  shows "triple (cpred (settled_row live ok (rnId r))) (reattach_unrecorded g job r) (\<lambda>_. Inv) Inv"
proof -
  let ?P = "cpred (settled_row live ok (rnId r))"
  have inv: "triple ?P m (\<lambda>_. ?P) Inv" if "keeps ?P m" for m :: "('b, 'x) ctl"
    by (rule triple_weaken [OF that]) (auto elim!: cpred_mono simp: settled_row_def settled_def)
  have find: "triple ?P (find_managed_container g (jId job)) (\<lambda>_. ?P) Inv"
    unfolding find_managed_container_def backend by (intro inv keeps_andThen keeps_ret keeps_backend(5) fading_settled_row)
  have st: "triple ?P (on_backend (bStatus B c)) (\<lambda>_. ?P) Inv" for c
    by (intro inv keeps_backend(2) fading_settled_row)
  have adopt: "triple ?P (update_with g r' fr to reason) (\<lambda>_. Inv) Inv"
    "triple ?P (on_store (update_run r')) (\<lambda>_. Inv) Inv" if "rnId r' = rnId r" for r' fr to reason
    by (rule settled_row_weaken, rule weaken_fenced(1), rule weaken_fenced(2), rule keeps_update_settled, rule that)+
  have recon: "triple ?P (reconcile_run g job r' st) (\<lambda>_. Inv) Inv" if "rnId r' = rnId r" "rnStopped r' = None" for r' st
    by (rule triple_pre [OF reconcile_run_fenced [OF that(2)]]) (auto elim: cpred_mono simp flip: that(1) intro: settled_row_observed)
  show ?thesis
    unfolding reattach_unrecorded_def backend Let_def
    by (rule triple_andThen [OF find], rule triple_option, rule settled_row_weaken, rule ret_settled,
        rule triple_andThen [OF st], rule triple_if, rule settled_row_weaken, rule ret_settled)
      (use assms in \<open>auto intro!: adopt recon split: bphase.split\<close>)
qed

lemma from_row_tracked:
  assumes "triple (cpred (tracked live ok r)) m Q E" and "rnStopped r = None"
  shows "triple (cpred (from_row live ok r)) m Q E"
proof (rule triple_pre [OF assms(1)], erule cpred_mono)
  show "tracked live ok r R b" if "rows_ok R" "from_row live ok r R b" for R b
    using that fetched_tracked [of live ok R b] assms(2) by (auto simp: from_row_def)
qed

lemma from_row_settled:
  assumes "triple (cpred (settled_row live ok (rnId r))) m Q E"
    and "rnStopped r = None" and "waiting (rnPhase r) \<or> rnContainerID r = []"
  shows "triple (cpred (from_row live ok r)) m Q E"
proof (rule triple_pre [OF assms(1)], erule cpred_mono)
  fix R b
  assume R: "rows_ok R" "from_row live ok r R b"
  then have "tracked live ok r R b" "\<exists>w \<in> set R. active w \<and> rwId w = rnId r"
    using fetched_tracked [of live ok R b] assms(2) by (auto simp: from_row_def)
  moreover have "ok b" using R by (simp add: fenced_def from_row_def)
  ultimately show "settled_row live ok (rnId r) R b"
    unfolding settled_row_def using assms(3) R(1) nameless [of b] by (blast intro: tracked_quiet)
qed

lemma from_row_waiting:
  assumes "triple (cpred (settled live ok (rnId r))) m Q E" and "rnStopped r = None" and "waiting (rnPhase r)"
  shows "triple (cpred (from_row live ok r)) m Q E"
  using assms(2,3) by (intro from_row_settled settled_row_weaken [OF assms(1)]) auto

lemma ret_row: "triple (cpred (from_row live ok r)) (ret x) (\<lambda>_. Inv) Inv"
  by (rule triple_ret) (auto elim: cpred_mono simp: from_row_def)

lemma unless_err_fenced:
  assumes "triple P m (\<lambda>_. Inv) Inv"
  shows "triple P (unless_err m) (\<lambda>_. Inv) Inv"
  unfolding unless_err_def
  by (rule triple_andThen [OF triple_attempt [OF triple_weaken [OF assms], where Q = "\<lambda>_. Inv"]]) (auto intro: triple_ret)

lemma status_reconciled:
  assumes "rnStopped r = None"
  shows "triple (cpred (tracked live ok r)) (andThen (attempt (on_backend (bStatus B (rnContainerID r)))) (\<lambda>st. case st of
      Inl _ \<Rightarrow> ret () | Inr st \<Rightarrow> unless_err (reconcile_run g jb r st))) (\<lambda>_. Inv) Inv"
proof (rule triple_andThen)
  show "triple (cpred (tracked live ok r)) (attempt (on_backend (bStatus B (rnContainerID r))))
      (\<lambda>st. case st of Inl _ \<Rightarrow> cpred (tracked live ok r) | Inr st \<Rightarrow> cpred (observed live ok r st)) Inv"
    by (rule triple_attempt) (simp add: status_observed)
qed (intro triple_case_sum ret_tracked unless_err_fenced reconcile_run_fenced assms)

lemma latest_row: "triple Inv (on_store (latest_run j)) (\<lambda>x. case x of None \<Rightarrow> Inv | Some r \<Rightarrow> cpred (from_row live ok r)) Inv"
proof -
  have "triple Inv (on_store (latest_run j)) (\<lambda>x. cpred (\<lambda>R b. fenced live ok R b \<and> (\<forall>r. x = Some r \<longrightarrow> (\<exists>w \<in> set R. r = scan_run w)))) Inv"
    by (rule lift_store [OF moves_queries(1)]) auto
  then show ?thesis by (rule triple_weaken) (auto elim: cpred_mono simp: from_row_def split: option.splits)
qed

lemma reconcile_one_fenced: "keeps Inv (reconcile_one g run0)"
proof -
  have get: "triple Inv (attempt (on_store (get_run i))) (\<lambda>r. case r of Inl _ \<Rightarrow> Inv | Inr r \<Rightarrow> cpred (from_row live ok r)) Inv" for i
    by (rule triple_attempt, rule triple_weaken [OF lift_store [OF moves_get_run, where p = "fenced live ok" and q = "from_row live ok" and e = "fenced live ok"]])
      (auto simp: from_row_def)
  have job: "triple (cpred (from_row live ok r)) (attempt (on_store (get_job j))) (\<lambda>_. cpred (from_row live ok r)) Inv" for r j
    by (rule triple_attempt, rule triple_weaken [OF lift_store_same [OF moves_get_job]]) auto
  show ?thesis
    unfolding reconcile_one_def backend
    by (rule triple_andThen [OF get], rule triple_case_sum, rule keeps_ret, rule triple_if, rule ret_row, rule triple_andThen [OF job])
      (intro triple_sum triple_if ret_row from_row_waiting [OF unless_err_fenced [OF maybe_unblock_fenced]]
        from_row_waiting [OF unless_err_fenced [OF maybe_restart_fenced]]
        from_row_settled [OF unless_err_fenced [OF reattach_fenced]] from_row_tracked [OF status_reconciled]; simp)
qed

lemma reconcile_fenced: "keeps Inv (reconcile g)"
proof -
  have "keeps Inv (on_store active_runs)"
    by (rule lift_store [OF moves_queries(3)]) auto
  then show ?thesis unfolding reconcile_def by (intro keeps_andThen keeps_for_each reconcile_one_fenced)
qed

section \<open>The other operations\<close>

lemma cancel_run_fenced:
  assumes "rnStopped r = None"
  shows "triple (cpred (tracked live ok r)) (andThen (attempt (stop_container g r)) (\<lambda>x. case x of
             Inl e \<Rightarrow> andThen (attempt (on_store (update_run (r\<lparr>rnError := e\<rparr>)))) (\<lambda>u. case u of
                 Inl ue \<Rightarrow> fail (f ue) | Inr _ \<Rightarrow> fail (h e))
           | Inr _ \<Rightarrow> finish_run g r (rnPhase r) Cancelled ''user cancel'')) (\<lambda>_. Inv) Inv"
proof (rule triple_andThen)
  show "triple (cpred (tracked live ok r)) (attempt (stop_container g r))
      (\<lambda>x. case x of Inl _ \<Rightarrow> cpred (tracked live ok r) | Inr _ \<Rightarrow> cpred (settled live ok (rnId r))) Inv"
    by (rule triple_attempt) (simp add: stop_tracked)
  have upd: "triple (cpred (tracked live ok r)) (attempt (on_store (update_run (r\<lparr>rnError := e\<rparr>)))) (\<lambda>_. Inv) Inv" for e
    by (rule triple_attempt, rule triple_weaken [OF tracked_update]) (use assms in auto)
  show "triple (case x of Inl _ \<Rightarrow> cpred (tracked live ok r) | Inr _ \<Rightarrow> cpred (settled live ok (rnId r))) (case x of
             Inl e \<Rightarrow> andThen (attempt (on_store (update_run (r\<lparr>rnError := e\<rparr>)))) (\<lambda>u. case u of
                 Inl ue \<Rightarrow> fail (f ue) | Inr _ \<Rightarrow> fail (h e))
           | Inr _ \<Rightarrow> finish_run g r (rnPhase r) Cancelled ''user cancel'') (\<lambda>_. Inv) Inv" for x
    by (intro triple_case_sum triple_andThen [OF upd] triple_sum keeps_fail finish_run_fenced)
qed

lemma cancel_fenced: "keeps Inv (cancel g j)"
  unfolding cancel_def
  by (rule keeps_andThen [OF lift_store_same [OF moves_get_job]], rule keeps_andThen [OF keeps_desire], rule triple_andThen [OF latest_row])
    (intro triple_case_option keeps_ret triple_if ret_row from_row_tracked [OF cancel_run_fenced]; simp)

lemma restart_run_fenced:
  "triple (cpred (tracked live ok r)) (andThen (wrap p (stop_container g r)) (\<lambda>_.
      andThen (if rnContainerID r \<noteq> [] then unless_err (on_backend (bRemove B (rnContainerID r))) else ret ()) (\<lambda>_.
      wrap p' (finish_run g r (rnPhase r) Cancelled ''restart'')))) (\<lambda>_. Inv) Inv"
proof -
  have stop: "triple (cpred (tracked live ok r)) (wrap p (stop_container g r)) (\<lambda>_. cpred (settled live ok (rnId r))) Inv"
    by (rule triple_wrap, rule triple_weaken [OF stop_tracked]) (auto elim: cpred_mono intro: tracked_fenced)
  have rm: "triple (cpred (settled live ok i)) (if c \<noteq> [] then unless_err (on_backend (bRemove B c)) else ret ()) (\<lambda>_. cpred (settled live ok i)) Inv" for i c
    by (intro basic_settled keeps_rules keeps_backend(3) fading_settled)
  show ?thesis
    by (rule triple_andThen [OF stop], rule triple_andThen [OF rm], rule triple_wrap, rule finish_run_fenced)
qed

lemma do_restart_fenced: "keeps Inv (do_restart g j restore)"
proof -
  have old: "triple (case x of None \<Rightarrow> Inv | Some r \<Rightarrow> cpred (from_row live ok r)) (case x of None \<Rightarrow> ret () | Some r \<Rightarrow> if rnStopped r \<noteq> None then ret ()
      else andThen (wrap (p r) (stop_container g r)) (\<lambda>_.
      andThen (if rnContainerID r \<noteq> [] then unless_err (on_backend (bRemove B (rnContainerID r))) else ret ()) (\<lambda>_.
      wrap (p' r) (finish_run g r (rnPhase r) Cancelled ''restart'')))) (\<lambda>_. Inv) Inv" for x p p'
    by (intro triple_case_option keeps_ret, rule triple_if, rule ret_row) (rule from_row_tracked [OF restart_run_fenced], simp)
  show ?thesis
    unfolding do_restart_def backend
    by (rule keeps_andThen [OF lift_store_same [OF moves_get_job]], rule triple_andThen [OF latest_row], rule triple_andThen [OF old])
      (intro keeps_rules keeps_desire start_run_fenced)
qed

lemma submit_fenced: "keeps Inv (submit_with_secret_refs g doc env refs)"
proof -
  have rec: "keeps Inv (submit_recorded g job e reason)" for job e reason
    unfolding submit_recorded_def by (intro keeps_rules keeps_basic keeps_transition start_run_fenced)
  then have "keeps Inv (submit_sdk g doc m env r)" for m r
    unfolding submit_sdk_def by (intro keeps_rules keeps_basic)
  with rec show ?thesis
    unfolding submit_with_secret_refs_def Let_def
    by (auto intro!: keeps_fail keeps_andThen keeps_basic split: option.splits sum.splits)
qed

lemma savepoint_fenced: "keeps Inv (savepoint g j label)"
proof -
  have "keeps Inv (on_store (latest_run j))" by (rule lift_store [OF moves_queries(1)]) auto
  then have "keeps Inv (control_address g j)"
    unfolding control_address_def backend by (intro keeps_rules keeps_backend(2) fading_fenced)
  then show ?thesis
    unfolding savepoint_def
    by (auto intro!: keeps_rules keeps_desire keeps_transition split: sum.splits)
qed

lemma sweep_fenced: "keeps Inv (sweep_orphans g)"
proof -
  have "keeps Inv (on_store (list_runs i))" for i by (rule lift_store [OF moves_queries(2)]) auto
  then have "keeps Inv (known_containers js)" for js
    by (induction js) (auto intro!: keeps_rules)
  moreover have one: "keeps Inv (sweep_one g known c rep)" for known c rep
    unfolding sweep_one_def backend
    by (intro keeps_rules keeps_backend(2,3) fading_fenced)
  then have "keeps Inv (sweep_all g known cs rep)" for known cs rep
    by (induction cs arbitrary: rep) (auto intro!: keeps_rules)
  ultimately show ?thesis
    unfolding sweep_orphans_def backend by (intro keeps_rules keeps_basic keeps_backend(5) fading_fenced)
qed

section \<open>Deleting\<close>

definition removed :: "(run_row list \<Rightarrow> bool) \<Rightarrow> string list \<Rightarrow> string set \<Rightarrow> run_row list \<Rightarrow> 'b \<Rightarrow> bool" where
  "removed X errs C R b \<longleftrightarrow> fenced live ok R b \<and> X R \<and> (errs = [] \<longrightarrow> (\<forall>c \<in> C. \<forall>j. c \<notin> live b j))"

lemma fading_removed: "fading (removed X errs C)"
proof (rule fadingI)
  show "removed X errs C R b'" if "removed X errs C R b" "ok b'" "\<forall>j. live b' j \<subseteq> live b j" for R b b'
    using that fenced_fades [of live ok R b b'] unfolding removed_def by (meson subsetD)
qed (simp add: removed_def fenced_def)

lemma removed_err: "removed X errs C R b \<Longrightarrow> errs' \<noteq> [] \<Longrightarrow> removed X errs' C' R b"
  by (simp add: removed_def)

lemma remove_removed:
  "triple (cpred (removed X errs C)) (attempt (on_backend (bRemove B c)))
     (\<lambda>y. cpred (removed X (errs @ (case y of Inl e \<Rightarrow> [f e] | Inr _ \<Rightarrow> [])) (insert c C))) E"
proof -
  have "triple (cpred (removed X errs C)) (on_backend (bRemove B c)) (\<lambda>_. cpred (removed X errs (insert c C))) (cpred (removed X errs C))"
  proof (rule lift_backend)
    fix R b u b'
    assume p: "removed X errs C R b" and m: "bRemove B c b = (Inr u, b')"
    then have b: "ok b" by (simp add: removed_def fenced_def)
    have r: "ok b'" "\<forall>j. live b' j \<subseteq> live b j" "\<forall>j. c \<notin> live b' j" using remove_ok [OF b m] by blast+
    then have "removed X errs C R b'" using fading_removed p unfolding fading_def by blast
    with r(3) show "removed X errs (insert c C) R b'" by (simp add: removed_def)
  next
    fix R b e b'
    assume p: "removed X errs C R b" and m: "bRemove B c b = (Inl e, b')"
    then have "ok b" by (simp add: removed_def fenced_def)
    from remove_err [OF this m] p fading_removed show "removed X errs C R b'" unfolding fading_def by blast
  qed
  then show ?thesis
    by (intro triple_attempt) (erule triple_weaken; auto elim!: cpred_mono intro: removed_err)
qed

lemma stop_removed:
  "triple (cpred (removed X errs C)) (if b then attempt (stop_container g r) else ret (Inr ()))
     (\<lambda>x. cpred (removed X (errs @ (case x of Inl e \<Rightarrow> [f e] | Inr _ \<Rightarrow> [])) C)) E"
proof (rule triple_if)
  have "keeps (cpred (removed X errs C)) (stop_container g r)"
    unfolding stop_container_def backend by (intro keeps_backend(1) fading_removed)
  then show "triple (cpred (removed X errs C)) (attempt (stop_container g r))
     (\<lambda>x. cpred (removed X (errs @ (case x of Inl e \<Rightarrow> [f e] | Inr _ \<Rightarrow> [])) C)) E"
    by (intro triple_attempt) (erule triple_weaken; auto elim!: cpred_mono intro: removed_err)
qed (simp add: triple_ret)

lemma delete_containers_removed:
  "triple (cpred (removed X errs C)) (delete_containers g rs errs)
     (\<lambda>errs'. cpred (removed X errs' (C \<union> (rnContainerID ` set rs - {[]})))) E"
proof (induction rs arbitrary: errs C)
  case Nil
  show ?case by (simp add: triple_ret)
next
  case (Cons r rs)
  show ?case
  proof (cases "rnContainerID r = []")
    case True
    then have "rnContainerID ` set (r # rs) - {[]} = rnContainerID ` set rs - {[]}" by auto
    with True Cons show ?thesis by simp
  next
    case False
    then have eq: "C \<union> (rnContainerID ` set (r # rs) - {[]}) = insert (rnContainerID r) C \<union> (rnContainerID ` set rs - {[]})" by auto
    show ?thesis
      unfolding delete_containers.simps eq backend if_not_P [OF False]
      by (rule triple_andThen [OF stop_removed [where f = "\<lambda>e. ''stop run '' @ rnId r @ '': '' @ e"]],
          rule triple_andThen [OF remove_removed [where f = "\<lambda>e. ''remove run '' @ rnId r @ '': '' @ e"]])
        (use Cons.IH in \<open>simp only: append_assoc\<close>)
  qed
qed

lemma removed_quiet:
  assumes "removed (\<lambda>R. set xs = scan_run ` {w \<in> set R. rwJobID w = j}) [] (rnContainerID ` set xs - {[]}) R b"
  shows "fenced live ok R b \<and> live b j = {}"
proof -
  have f: "fenced live ok R b" and b: "ok b" using assms by (simp_all add: removed_def fenced_def)
  have "c \<notin> live b j" for c
  proof
    assume c: "c \<in> live b j"
    then obtain w where w: "w \<in> set R" "rwJobID w = j" "rwContainerID w = c" using fencedE [OF f c] by metis
    then have "scan_run w \<in> set xs" using assms unfolding removed_def by blast
    then have "c \<in> rnContainerID ` set xs" using w(3) by force
    moreover have "c \<noteq> []" using c nameless [OF b, of j] by auto
    ultimately show False using assms c unfolding removed_def by blast
  qed
  with f show ?thesis by blast
qed

lemma delete_fenced: "keeps Inv (delete_with_options g j wipe)"
proof -
  let ?X = "\<lambda>xs R. set xs = scan_run ` {w \<in> set R. rwJobID w = j}"
  let ?q = "\<lambda>R b. fenced live ok R b \<and> live b j = {}"
  have runs: "triple Inv (on_store (list_runs j)) (\<lambda>xs. cpred (removed (?X xs) [] {})) Inv"
    by (rule lift_store [OF moves_queries(2)]) (auto simp: removed_def)
  have fade: "fading ?q"
  proof (rule fadingI)
    show "?q R b'" if "?q R b" "ok b'" "\<forall>j. live b' j \<subseteq> live b j" for R b b'
      using that fenced_fades [of live ok R b b'] by (metis subset_empty)
  qed (simp add: fenced_def)
  have q: "triple (cpred ?q) m (\<lambda>_. cpred ?q) Inv" if "keeps (cpred ?q) m" for m :: "('b, 'x) ctl"
    by (rule triple_weaken [OF that]) (auto elim: cpred_mono)
  have gone: "fenced live ok (filter (\<lambda>w. rwJobID w \<noteq> j) R) b" if "?q R b" for R b
    using that unfolding fenced_def covers_def by fastforce
  have del: "triple (cpred ?q) (on_store (delete_job j)) (\<lambda>_. Inv) Inv"
    by (rule lift_store [OF moves_delete_job]) (use gone in blast)+
  have final: "triple (cpred ?q) (andThen (if wipe then wrap p (on_backend (bDeleteJobData B j)) else ret ()) (\<lambda>_.
      andThen (modify (\<lambda>s. s\<lparr>cSecrets := AList.delete j (cSecrets s)\<rparr>)) (\<lambda>_.
      andThen (on_store (delete_job j)) (\<lambda>_. modify (\<lambda>s. s\<lparr>cHistory := hist_drop j (cHistory s)\<rparr>))))) (\<lambda>_. Inv) Inv" for p
    by (rule triple_andThen [OF q], intro keeps_rules keeps_backend(4) fade, rule triple_andThen [OF q], rule keeps_modify_memory,
        rule triple_andThen [OF del], rule keeps_modify_memory)
  show ?thesis
    unfolding delete_with_options_def backend
    by (rule keeps_andThen [OF lift_store_same [OF moves_get_job]], rule triple_andThen [OF runs],
        rule triple_andThen [OF delete_containers_removed], rule triple_if,
        rule triple_fail, erule cpred_mono, simp add: removed_def,
        drule notnotD, hypsubst, rule triple_pre [OF final], erule cpred_mono, rule removed_quiet, simp only: Un_empty_left)
qed

text \<open>Every step keeps the invariant.\<close>

lemma cpred_other [simp]:
  "cpred p (s\<lparr>cSecrets := x, cHistory := y\<rparr>) = cpred p s" "cpred p (s\<lparr>cStore := (cStore s)\<lparr>sFaults := fs\<rparr>\<rparr>) = cpred p s"
  by (simp_all add: cpred_def)

lemma control_step_fenced:
  assumes "control_step g env s s'" and "cpred (fenced live ok) s"
    and "\<And>b b'. ok b \<Longrightarrow> env b b' \<Longrightarrow> ok b' \<and> (\<forall>j. live b' j \<subseteq> live b j)"
  shows "cpred (fenced live ok) s'"
  using assms(1)
proof cases
  case (backend b)
  with assms(2) have "ok b" "fenced live ok (sRuns (cStore s)) b"
    using assms(3) [of "cBackend s" b] fenced_fades [of live ok _ "cBackend s" b] by (auto simp: cpred_def fenced_def)
  with backend assms(2) show ?thesis by (simp add: cpred_def)
qed (use assms(2) in \<open>auto intro: keeps_run [OF submit_fenced] keeps_run [OF cancel_fenced] keeps_run [OF do_restart_fenced]
    keeps_run [OF delete_fenced] keeps_run [OF savepoint_fenced] keeps_run [OF reconcile_fenced] keeps_run [OF sweep_fenced]\<close>)

lemma control_reach_fenced:
  assumes "(control_step g env)\<^sup>*\<^sup>* (new_ctrl b0) s" and "ok b0" and "\<And>j. live b0 j = {}"
    and "\<And>b b'. ok b \<Longrightarrow> env b b' \<Longrightarrow> ok b' \<and> (\<forall>j. live b' j \<subseteq> live b j)"
  shows "cpred (fenced live ok) s"
  using assms(1)
proof (induction rule: rtranclp_induct)
  case base
  show ?case using assms(2,3) store_reach_inv [OF opened] by (simp add: cpred_def fenced_def new_ctrl_def)
next
  case (step s s')
  show ?case by (rule control_step_fenced [OF step.hyps(2) step.IH]) (rule assms(4))
qed

end

end
