(* ===== verification/Control_Scenarios.thy ===== *)
theory Control_Scenarios
  imports Control_Safety
begin

text \<open>
  The control plane on the in-memory backend: the hypotheses of the safety theorem hold there, and
  three schedules, evaluated step by step, in which the guarantees end. Each needs one failing
  database statement; the first also a failing removal, which the safety theorem excludes.
\<close>

section \<open>A configuration\<close>

definition fake_config :: "fake config" where
  "fake_config = \<lparr>gBackend = fake_backend, gImage = ''weibo'', gPort = 8080, gRestart = default_restart_policy,
     gSecretStore = (\<lambda>_. Inl ''no secret store''), gStopTimeout = 30 * 10 ^ 9, gMaxJobs = 4, gRetention = - 1,
     gNewID = (\<lambda>n. if n = 0 then ''job'' else replicate n CHR ''r''), gClock = (\<lambda>n. int n * 10 ^ 9),
     gValidate = (\<lambda>_ _. Inr (''demo'', [], JNull)), gYaml = (\<lambda>_. None), gQuote = id, gQuantity = (\<lambda>_. None),
     gClassify = (\<lambda>_. None), gAgent = (\<lambda>_ _. Inr 202)\<rparr>"

text \<open>What the in-memory backend may do by itself: containers exit, and the next launch is made to fail.\<close>

definition fake_env :: "fake \<Rightarrow> fake \<Rightarrow> bool" where
  "fake_env b b' \<longleftrightarrow> (\<exists>c code. b' = set_phase c PhaseExited code b) \<or> (\<exists>e. b' = b\<lparr>fLaunchErr := Some e\<rparr>)"

lemma exited_fades: "fake_live (set_phase c PhaseExited code b) j \<subseteq> fake_live b j - {c}"
  unfolding set_phase_def by (rule fake_update_live) simp_all

lemma fake_env_fades:
  assumes "fake_ok b" and "fake_env b b'"
  shows "fake_ok b' \<and> (\<forall>j. fake_live b' j \<subseteq> fake_live b j)"
  using assms(2) unfolding fake_env_def
proof (elim disjE exE)
  fix c code assume "b' = set_phase c PhaseExited code b"
  with assms(1) exited_fades [of c code b] show ?thesis by (auto simp: set_phase_def intro: fake_update_ok)
next
  fix e assume "b' = b\<lparr>fLaunchErr := Some e\<rparr>"
  with assms(1) show ?thesis by (simp add: fake_ok_def fake_live_def)
qed

lemma gBackend_fake [simp]: "gBackend fake_config = fake_backend"
  by (simp add: fake_config_def)

interpretation fp: control_plane fake_backend fake_live fake_ok fake_config
  by unfold_locales simp

lemma fake_config_simps [simp]:
  "gImage fake_config = ''weibo''" "gPort fake_config = 8080"
  "gRestart fake_config = default_restart_policy" "gStopTimeout fake_config = 30 * 10 ^ 9" "gMaxJobs fake_config = 4"
  "gRetention fake_config = - 1" "gNewID fake_config n = (if n = 0 then ''job'' else replicate n CHR ''r'')"
  "gClock fake_config n = int n * 10 ^ 9" "gValidate fake_config doc v = Inr (''demo'', [], JNull)" "gYaml fake_config doc = None"
  "gSecretStore fake_config r = Inl ''no secret store''" "gClassify fake_config e = None"
  by (simp_all add: fake_config_def)

lemma fake_backend_simps [simp]:
  "bLaunch fake_backend = fake_launch" "bStop fake_backend = fake_stop" "bStatus fake_backend = fake_status"
  "bRemove fake_backend = fake_remove" "bCapacity fake_backend = fake_capacity"
  by (simp_all add: fake_backend_def)

lemma parse_time_format [simp]: "civil_range t \<Longrightarrow> parse_time (format_rfc3339nano t) = t"
  by (simp add: parse_time_def parse_format_rfc3339nano)

lemma civil_range_numeral [simp]: "civil_range 0" "civil_range (numeral k) \<longleftrightarrow> numeral k < (253402300800 * 10 ^ 9 :: int)"
  by (simp_all add: civil_range_def)

lemmas store_ops = create_job_def get_job_def set_desired_def exec_def tx_def query_def insert_run_def set_run_def update_run_row_def
  append_trans_row_def create_run_with_transition_def update_run_with_transition_def update_run_def append_transition_def
  get_run_def list_runs_def latest_run_def active_runs_def runs_desc_def newest_first_def one_active_def null_time_def
  open_sqlite_def scan_run_def scan_job_def

lemmas controller_ops = on_store_def on_backend_def time_now_def new_id_def submit_with_secret_refs_def parse_sdk_manifest_def
  merge_secret_refs_def secret_refs_from_env_def resolve_env_refs_def env_copy_def submit_recorded_def set_secrets_def
  transition_def transition_record_def start_run_def launch_recorded_def launch_env_def get_secrets_def launch_record_def
  launch_spec_of_def update_with_def finish_run_def prune_terminal_runs_def new_ctrl_def

lemmas fake_ops = fake_launch_def fake_status_def fake_remove_def new_fake_def

lemma fake_id_inject [simp]: "fake_id j m = fake_id j n \<longleftrightarrow> m = n"
  by (simp add: fake_id_def)

lemmas evaluating = op_defs store_ops controller_ops fake_ops Let_def KindYAML_def KindSDK_def marshal_map_def unmarshal_map_def

section \<open>One live container per job\<close>

text \<open>
  C26. Whatever the controller is asked to do, in whatever order, with any database statement failing,
  with the controller restarting between operations and containers dying at any time: on a backend
  that keeps its contract and does not fail to remove containers, a job never has two containers
  that may be running, and the one it has is recorded by the job's active run. Two live
  transactional producers of one job, which would break exactly-once delivery, cannot occur.
\<close>

theorem single_live_container:
  assumes "removing_backend (gBackend g) live ok" and "ok b0" and "\<And>j. live b0 j = {}"
    and "\<And>b b'. ok b \<Longrightarrow> env b b' \<Longrightarrow> ok b' \<and> (\<forall>j. live b' j \<subseteq> live b j)"
    and "(control_step g env)\<^sup>*\<^sup>* (new_ctrl b0) s"
  shows "(\<exists>c. live (cBackend s) j \<subseteq> {c}) \<and>
    (\<forall>c \<in> live (cBackend s) j. \<exists>w \<in> set (sRuns (cStore s)). active w \<and> rwJobID w = j \<and> rwContainerID w = c)"
proof -
  have "control_plane (gBackend g) live ok g"
    using assms(1) by (simp add: control_plane_def control_plane_axioms_def)
  from control_plane.control_reach_fenced [OF this assms(5,2,3,4)]
  have f: "fenced live ok (sRuns (cStore s)) (cBackend s)" and one: "one_active (sRuns (cStore s))"
    by (simp_all add: cpred_def store_inv_def)
  have "c = d" if "c \<in> live (cBackend s) j" "d \<in> live (cBackend s) j" for c d
    using fencedE [OF f that(1)] fencedE [OF f that(2)] active_unique [OF one] by metis
  then have "\<exists>c. live (cBackend s) j \<subseteq> {c}" by blast
  moreover have "\<forall>c \<in> live (cBackend s) j. \<exists>w \<in> set (sRuns (cStore s)). active w \<and> rwJobID w = j \<and> rwContainerID w = c"
    using fencedE [OF f] by metis
  ultimately show ?thesis by blast
qed

definition submitted :: "fake ctrl" where
  "submitted = snd (submit_with_secret_refs fake_config ''doc'' [] [] (new_ctrl new_fake))"

lemma submitted_reach: "(control_step fake_config env)\<^sup>*\<^sup>* (new_ctrl new_fake) submitted"
  unfolding submitted_def by (rule r_into_rtranclp) (rule control_step.submit)

lemma submitted_backend: "\<exists>c. fContainers (cBackend submitted) = [(fake_id ''job'' 1, c)] \<and> \<not> fcRemoved c \<and>
    lsJobID (fcSpec c) = ''job'' \<and> stPhase (fcStatus c) = PhaseRunning"
  by (simp add: submitted_def evaluating)

lemma new_fake_idle: "fake_ok new_fake" "fake_live new_fake j = {}"
  by (simp_all add: fake_ok_def fake_live_def new_fake_def)

theorem single_live_container_witness:
  "\<exists>s. (control_step fake_config fake_env)\<^sup>*\<^sup>* (new_ctrl new_fake) s \<and> fake_live (cBackend s) ''job'' \<noteq> {} \<and>
    (\<exists>c. fake_live (cBackend s) ''job'' \<subseteq> {c}) \<and>
    (\<forall>c \<in> fake_live (cBackend s) ''job''. \<exists>w \<in> set (sRuns (cStore s)). active w \<and> rwJobID w = ''job'' \<and> rwContainerID w = c)"
proof (rule exI [of _ submitted], intro conjI)
  note single = single_live_container [OF fb.removing_backend_axioms [folded gBackend_fake] new_fake_idle fake_env_fades
      submitted_reach, where j = "''job''"]
  show "(control_step fake_config fake_env)\<^sup>*\<^sup>* (new_ctrl new_fake) submitted" by (rule submitted_reach)
  show "fake_live (cBackend submitted) ''job'' \<noteq> {}" using submitted_backend by (auto simp: fake_live_def)
  show "\<exists>c. fake_live (cBackend submitted) ''job'' \<subseteq> {c}" by (rule conjunct1 [OF single])
  show "\<forall>c \<in> fake_live (cBackend submitted) ''job''. \<exists>w \<in> set (sRuns (cStore submitted)).
      active w \<and> rwJobID w = ''job'' \<and> rwContainerID w = c" by (rule conjunct2 [OF single])
qed

section \<open>A removal that fails\<close>

text \<open>The backend whose removals fail keeps the contract, too.\<close>

definition sticky_backend :: "fake backend_ops" where
  "sticky_backend = fake_backend\<lparr>bRemove := \<lambda>c. fail ''removal already in progress''\<rparr>"

lemma sticky_backend_ops:
  "bLaunch sticky_backend = bLaunch fake_backend" "bStop sticky_backend = bStop fake_backend" "bStatus sticky_backend = bStatus fake_backend"
  "bDeleteJobData sticky_backend = bDeleteJobData fake_backend" "bCapacity sticky_backend = bCapacity fake_backend"
  "bRemove sticky_backend c b = (Inl ''removal already in progress'', b)"
  by (simp_all add: sticky_backend_def fail_def)

interpretation sb: container_backend sticky_backend fake_live fake_ok
  by (unfold_locales, unfold sticky_backend_ops)
    (erule (1) fb.launch_ok fb.launch_err fb.stop_ok fb.stop_err fb.status_ok fb.status_err fb.delete_data fb.capacity | erule fb.nameless | simp)+

definition sticky_config :: "fake config" where
  "sticky_config = fake_config\<lparr>gBackend := sticky_backend\<rparr>"

lemma sticky_config_simps [simp]:
  "gBackend sticky_config = sticky_backend" "gImage sticky_config = ''weibo''" "gPort sticky_config = 8080"
  "gRestart sticky_config = default_restart_policy" "gNewID sticky_config n = (if n = 0 then ''job'' else replicate n CHR ''r'')"
  "gClock sticky_config n = int n * 10 ^ 9" "gValidate sticky_config doc v = Inr (''demo'', [], JNull)" "gYaml sticky_config doc = None"
  "bLaunch sticky_backend = fake_launch" "bStop sticky_backend = fake_stop" "bStatus sticky_backend = fake_status"
  "bRemove sticky_backend c = fail ''removal already in progress''"
  by (simp_all add: sticky_config_def sticky_backend_def)

definition faulty :: "nat \<Rightarrow> fake ctrl \<Rightarrow> fake ctrl" where \<comment> \<open>the statement after the next \<open>n\<close> fails\<close>
  "faulty n s = s\<lparr>cStore := (cStore s)\<lparr>sFaults := replicate n False @ [True]\<rparr>\<rparr>"

lemma replicate_numeral [simp]: "replicate (numeral k) x = x # replicate (pred_numeral k) x"
  by (simp add: numeral_eq_Suc)

definition doubled :: "fake ctrl" where
  "doubled = snd (do_restart sticky_config ''job'' [] (snd (submit_with_secret_refs sticky_config ''doc'' [] [] (faulty 7 (new_ctrl new_fake)))))"

lemma doubled_backend: "\<exists>c d. fContainers (cBackend doubled) = [(fake_id ''job'' 1, c), (fake_id ''job'' 2, d)] \<and>
    \<not> fcRemoved c \<and> lsJobID (fcSpec c) = ''job'' \<and> stPhase (fcStatus c) = PhaseRunning \<and>
    \<not> fcRemoved d \<and> lsJobID (fcSpec d) = ''job'' \<and> stPhase (fcStatus d) = PhaseRunning"
  by (simp add: doubled_def faulty_def evaluating launch_record_failed_def mark_launch_record_failure_def do_restart_def desire_def)

lemma doubled_reach: "(control_step sticky_config env)\<^sup>*\<^sup>* (new_ctrl new_fake) doubled"
  unfolding doubled_def faulty_def
  by (rule rtranclp.rtrancl_into_rtrancl, rule rtranclp.rtrancl_into_rtrancl, rule r_into_rtranclp)
    (rule control_step.fault control_step.submit control_step.restart)+

text \<open>
  C33. On a backend whose removals can fail the fence does not hold: there is a run in which the launched container can
  be neither recorded nor removed, its run is marked as failed, and the next restart puts a second
  live container beside the first. The hypothesis on removals in the safety theorem is needed.
\<close>

theorem failed_removal_unfences:
  "\<exists>g s. container_backend (gBackend g) fake_live fake_ok \<and> (control_step g (\<lambda>_ _. False))\<^sup>*\<^sup>* (new_ctrl new_fake) s \<and>
     card (fake_live (cBackend s) ''job'') = 2"
proof (intro exI conjI)
  show "container_backend (gBackend sticky_config) fake_live fake_ok" by (simp add: sb.container_backend_axioms)
  show "(control_step sticky_config (\<lambda>_ _. False))\<^sup>*\<^sup>* (new_ctrl new_fake) doubled" by (rule doubled_reach)
  obtain c d where "fContainers (cBackend doubled) = [(fake_id ''job'' 1, c), (fake_id ''job'' 2, d)]"
    "\<not> fcRemoved c" "lsJobID (fcSpec c) = ''job''" "stPhase (fcStatus c) = PhaseRunning"
    "\<not> fcRemoved d" "lsJobID (fcSpec d) = ''job''" "stPhase (fcStatus d) = PhaseRunning"
    using doubled_backend by blast
  then have "fake_live (cBackend doubled) ''job'' = {fake_id ''job'' 1, fake_id ''job'' 2}"
    by (auto simp: fake_live_def)
  then show "card (fake_live (cBackend doubled) ''job'') = 2" by simp
qed

section \<open>A restart that is lost\<close>

definition crashed :: "fake ctrl" where \<comment> \<open>the container of the submitted job has exited with an error\<close>
  "crashed = submitted\<lparr>cBackend := set_phase (fake_id ''job'' 1) PhaseExited 1 (cBackend submitted)\<rparr>"

definition lost :: "fake ctrl" where
  "lost = snd (reconcile fake_config (faulty 12 crashed))"

abbreviation fake_reach :: "fake ctrl \<Rightarrow> bool" where
  "fake_reach \<equiv> (control_step fake_config fake_env)\<^sup>*\<^sup>* (new_ctrl new_fake)"

lemma fake_reach_steps:
  assumes "fake_reach s"
  shows "fake_reach (faulty n s)" "fake_reach (snd (reconcile fake_config s))" "fake_reach (snd (do_restart fake_config j restore s))"
    "fake_env (cBackend s) b \<Longrightarrow> fake_reach (s\<lparr>cBackend := b\<rparr>)"
  unfolding faulty_def
  by (rule rtranclp.rtrancl_into_rtrancl [OF assms control_step.fault] rtranclp.rtrancl_into_rtrancl [OF assms control_step.reconcile]
      rtranclp.rtrancl_into_rtrancl [OF assms control_step.restart] rtranclp.rtrancl_into_rtrancl [OF assms control_step.backend], assumption?)+

lemma crashed_reach: "fake_reach crashed"
  unfolding crashed_def by (intro fake_reach_steps submitted_reach) (auto simp: fake_env_def)

lemmas reconcile_ops = reconcile_def reconcile_one_def reconcile_run_def handle_exit_def schedule_restart_def schedule_restart_from_def
  maybe_restart_def should_restart_def backoff_def default_restart_policy_def set_phase_def fake_update_def

lemma crashed_state: "\<exists>r c. sRuns (cStore crashed) = [r] \<and> active r \<and> rwId r = ''r'' \<and> rwPhase r = Running \<and> rwAttempt r = 1 \<and>
    rwContainerID r = fake_id ''job'' 1 \<and> sFaults (cStore crashed) = [] \<and>
    fContainers (cBackend crashed) = [(fake_id ''job'' 1, c)] \<and> stPhase (fcStatus c) = PhaseExited \<and> stExitCode (fcStatus c) = 1"
  by (simp add: crashed_def submitted_def evaluating reconcile_ops)

lemma restarted_state: "\<exists>f r c d. sRuns (cStore (snd (reconcile fake_config crashed))) = [f, r] \<and> sRuns (cStore lost) = [f] \<and>
    rwId f = ''r'' \<and> rwPhase f = Failed \<and> \<not> active f \<and> active r \<and> rwPhase r = Running \<and> rwAttempt r = 2 \<and> rwContainerID r = fake_id ''job'' 2 \<and>
    fContainers (cBackend (snd (reconcile fake_config crashed))) = [(fake_id ''job'' 1, c), (fake_id ''job'' 2, d)] \<and>
    \<not> fcRemoved d \<and> lsJobID (fcSpec d) = ''job'' \<and> stPhase (fcStatus d) = PhaseRunning"
  by (simp add: lost_def crashed_def submitted_def faulty_def evaluating reconcile_ops)

lemma lost_state: "(\<exists>w. sJobs (cStore lost) = [w] \<and> jId (jwJob w) = ''job'' \<and> jDesired (jwJob w) = DesiredRunning) \<and>
    (\<exists>c. fContainers (cBackend lost) = [(fake_id ''job'' 1, c)] \<and> stPhase (fcStatus c) = PhaseExited)"
  by (simp add: lost_def crashed_def submitted_def faulty_def evaluating reconcile_ops)

lemma reconcile_idle:
  assumes "\<forall>r \<in> set (sRuns (cStore s)). \<not> active r"
  shows "sRuns (cStore (snd (reconcile g s))) = sRuns (cStore s)" "cBackend (snd (reconcile g s)) = cBackend s"
proof -
  have "filter active (sRuns (cStore s)) = []" using assms by (simp add: filter_empty_conv)
  then show "sRuns (cStore (snd (reconcile g s))) = sRuns (cStore s)" "cBackend (snd (reconcile g s)) = cBackend s"
    by (simp_all add: reconcile_def op_defs active_runs_def query_def exec_def on_store_def split: list.splits)
qed

lemma reconcile_idles:
  assumes "\<forall>r \<in> set (sRuns (cStore s)). \<not> active r"
  shows "sRuns (cStore (((\<lambda>t. snd (reconcile g t)) ^^ n) s)) = sRuns (cStore s) \<and> cBackend (((\<lambda>t. snd (reconcile g t)) ^^ n) s) = cBackend s"
  using assms by (induction n) (auto simp: reconcile_idle)

text \<open>
  C34. A restart can be lost. There is a reachable state in which the container of a job's first run has
  exited with an error and no database statement is going to fail. A reconcile pass from there closes the
  failed run and starts a second one with a live container. If instead one statement of that pass fails,
  the pass leaves the failed run closed and its successor missing: the job is still desired to run, but
  however often the reconciler passes, without any further fault, no run is active and no container
  of the job runs again.
\<close>

theorem restart_lost:
  "\<exists>s k r f r' c. fake_reach s \<and> sFaults (cStore s) = [] \<and> sRuns (cStore s) = [r] \<and> active r \<and>
     fContainers (cBackend s) = [(rwContainerID r, c)] \<and> stPhase (fcStatus c) = PhaseExited \<and> stExitCode (fcStatus c) = 1 \<and>
     sRuns (cStore (snd (reconcile fake_config s))) = [f, r'] \<and> rwId f = rwId r \<and> \<not> active f \<and> active r' \<and> rwAttempt r' = rwAttempt r + 1 \<and>
     rwContainerID r' \<in> fake_live (cBackend (snd (reconcile fake_config s))) ''job'' \<and>
     sRuns (cStore (snd (reconcile fake_config (faulty k s)))) = [f] \<and>
     (\<exists>w. sJobs (cStore (snd (reconcile fake_config (faulty k s)))) = [w] \<and> jId (jwJob w) = ''job'' \<and> jDesired (jwJob w) = DesiredRunning) \<and>
     (\<forall>n. fake_live (cBackend (((\<lambda>t. snd (reconcile fake_config t)) ^^ n) (snd (reconcile fake_config (faulty k s))))) ''job'' = {} \<and>
        filter active (sRuns (cStore (((\<lambda>t. snd (reconcile fake_config t)) ^^ n) (snd (reconcile fake_config (faulty k s)))))) = [])"
proof -
  obtain r e where r: "sRuns (cStore crashed) = [r]" "active r" "rwId r = ''r''" "rwAttempt r = 1" "sFaults (cStore crashed) = []"
    "fContainers (cBackend crashed) = [(rwContainerID r, e)]" "stPhase (fcStatus e) = PhaseExited" "stExitCode (fcStatus e) = 1"
    using crashed_state by auto
  obtain f r' c d where f: "sRuns (cStore (snd (reconcile fake_config crashed))) = [f, r']" "sRuns (cStore lost) = [f]" "rwId f = ''r''"
      "\<not> active f" "active r'" "rwAttempt r' = 2" "rwContainerID r' = fake_id ''job'' 2"
    and d: "fContainers (cBackend (snd (reconcile fake_config crashed))) = [(fake_id ''job'' 1, c), (fake_id ''job'' 2, d)]"
      "\<not> fcRemoved d" "lsJobID (fcSpec d) = ''job''" "stPhase (fcStatus d) = PhaseRunning"
    using restarted_state by blast
  have live: "rwContainerID r' \<in> fake_live (cBackend (snd (reconcile fake_config crashed))) ''job''"
    using d f(7) by (auto simp: fake_live_def)
  have "fake_live (cBackend lost) ''job'' = {}" using lost_state by (auto simp: fake_live_def split: if_splits)
  with reconcile_idles [of lost] f(2,4)
  have idle: "fake_live (cBackend (((\<lambda>t. snd (reconcile fake_config t)) ^^ n) lost)) ''job'' = {} \<and>
      filter active (sRuns (cStore (((\<lambda>t. snd (reconcile fake_config t)) ^^ n) lost))) = []" for n by simp
  show ?thesis
    by (rule exI [of _ crashed], rule exI [of _ 12], rule exI [of _ r], rule exI [of _ f], rule exI [of _ r'], rule exI [of _ e], fold lost_def)
      (use r f live idle lost_state crashed_reach in \<open>simp only: conj_assoc, simp\<close>)
qed

section \<open>A container that is adopted by the wrong run\<close>

definition finished :: "fake ctrl" where \<comment> \<open>the first run has ended by itself\<close>
  "finished = snd (reconcile fake_config (submitted\<lparr>cBackend := set_phase (fake_id ''job'' 1) PhaseExited 0 (cBackend submitted)\<rparr>))"

definition unlaunched :: "fake ctrl" where \<comment> \<open>the launch of a second run failed, and so did the record of it\<close>
  "unlaunched = snd (do_restart fake_config ''job'' []
     (faulty 8 (finished\<lparr>cBackend := (cBackend finished)\<lparr>fLaunchErr := Some ''registry unreachable''\<rparr>\<rparr>)))"

definition adopted :: "fake ctrl" where
  "adopted = snd (reconcile fake_config unlaunched)"

lemma adopted_reach: "fake_reach adopted"
  unfolding adopted_def unlaunched_def finished_def by (intro fake_reach_steps submitted_reach) (auto simp: fake_env_def)

lemmas launch_error_ops = do_restart_def desire_def launch_failed_def launch_failure_kind_def FailureLaunchTransient_def
  FailureLaunchPermanent_def

lemmas reattach_ops = reattach_unrecorded_def find_managed_container_def fake_capacity_def

lemma adopted_state: "\<exists>r1 r2. sRuns (cStore adopted) = [r1, r2] \<and> rwId r1 \<noteq> rwId r2 \<and> rwJobID r1 = ''job'' \<and> rwJobID r2 = ''job'' \<and>
    rwPhase r1 = Finished \<and> rwPhase r2 = Finished \<and> rwContainerID r1 = fake_id ''job'' 1 \<and> rwContainerID r2 = fake_id ''job'' 1 \<and>
    fSeq (cBackend adopted) = 1"
  by (simp add: adopted_def unlaunched_def finished_def submitted_def faulty_def evaluating reconcile_ops launch_error_ops reattach_ops)

text \<open>
  C35. Reattachment can adopt the container of an earlier run. A second run whose launch failed
  without a trace in the store is matched with the exited container of the first run and recorded
  as finished, although nothing was ever started for it.
\<close>

theorem reattach_adopts_stale:
  "\<exists>s r1 r2. (control_step fake_config fake_env)\<^sup>*\<^sup>* (new_ctrl new_fake) s \<and> sRuns (cStore s) = [r1, r2] \<and> rwId r1 \<noteq> rwId r2 \<and>
     rwPhase r1 = Finished \<and> rwPhase r2 = Finished \<and> rwContainerID r2 = rwContainerID r1 \<and> fSeq (cBackend s) = 1"
  using adopted_reach adopted_state by metis

end
