(* ===== verification/Checkpoint_Laws.thy ===== *)
theory Checkpoint_Laws
  imports Checkpoint_Storage
begin

text \<open>
  What recovery may rely on from the checkpoint storage: the checkpoints the two pointers resolve to
  (\<open>latest_view\<close>, \<open>completed_view\<close>), the condition that the newer pointer write was not lost
  (\<open>settled\<close>), and how saving, promoting, loading and opening change them, with a fault at any file
  operation. The contract is the locale \<open>checkpoint_store\<close>, interpreted on the file storage.
\<close>

section \<open>The views\<close>

text \<open>Everything but files and pointers is irrelevant to the views.\<close>

definition core :: "('v, 'o) disk \<Rightarrow> ('v, 'o) disk" where
  "core d = d\<lparr>dMade := True, dStateDirs := [], dFaults := []\<rparr>"

definition pointed :: "pointer \<Rightarrow> ('v, 'o) disk \<Rightarrow> ('v, 'o) ckpt option" where
  "pointed p d = (case get_pointer p d of None \<Rightarrow> None
     | Some i \<Rightarrow> (case map_of (dFiles d) i of Some (Some c) \<Rightarrow> if wanted p c then Some c else None | _ \<Rightarrow> None))"

definition newest :: "pointer \<Rightarrow> ('v, 'o) disk \<Rightarrow> ('v, 'o) ckpt option" where
  "newest p d = find (wanted p) (rev (scan d))"

definition view :: "pointer \<Rightarrow> ('v, 'o) disk \<Rightarrow> ('v, 'o) ckpt option" where
  "view p d = (case pointed p d of Some c \<Rightarrow> Some c | None \<Rightarrow> newest p d)"

abbreviation latest_view :: "('v, 'o) disk \<Rightarrow> ('v, 'o) ckpt option" where
  "latest_view \<equiv> view Latest"

abbreviation completed_view :: "('v, 'o) disk \<Rightarrow> ('v, 'o) ckpt option" where
  "completed_view \<equiv> view LatestCompleted"

definition tidy :: "('v, 'o) disk \<Rightarrow> bool" where
  "tidy d \<longleftrightarrow> distinct (map fst (dFiles d)) \<and> (\<forall>(i, f) \<in> set (dFiles d). \<exists>c. f = Some c \<and> ckID c = i \<and> i \<noteq> []) \<and>
     inj_on ckTimestamp (set (readable d))"

definition settled :: "('v, 'o) disk \<Rightarrow> bool" where
  "settled d \<longleftrightarrow> tidy d \<and> completed_view d = newest LatestCompleted d \<and>
     (\<forall>l. latest_view d = Some l \<longrightarrow> (\<forall>c \<in> set (readable d). is_completed c \<longrightarrow> ckTimestamp c \<le> ckTimestamp l))"

definition unused :: "('v, 'o) disk \<Rightarrow> ('v, 'o) ckpt \<Rightarrow> bool" where
  "unused d c \<longleftrightarrow> ckID c \<noteq> [] \<and> ckID c \<notin> fst ` set (dFiles d) \<and> (\<forall>c' \<in> set (readable d). ckTimestamp c' < ckTimestamp c)"

lemma core_fields [simp]:
  "dFiles (core d) = dFiles d" "get_pointer p (core d) = get_pointer p d" "core (core d) = core d"
  "core (d\<lparr>dFaults := fs\<rparr>) = core d" "core (d\<lparr>dMade := m\<rparr>) = core d" "core (d\<lparr>dStateDirs := sd\<rparr>) = core d"
  by (cases p; simp add: core_def)+

lemma core_readable [simp]: "readable (core d) = readable d" "scan (core d) = scan d"
  by (simp_all add: readable_def scan_def)

lemma core_pointed [simp]: "pointed p (core d) = pointed p d" "newest p (core d) = newest p d"
  unfolding pointed_def newest_def core_fields core_readable by (rule refl)+

lemma core_view [simp]: "view p (core d) = view p d"
  unfolding view_def core_pointed by (rule refl)

lemma core_settled [simp]: "tidy (core d) = tidy d" "settled (core d) = settled d" "unused (core d) c = unused d c"
  unfolding tidy_def settled_def unused_def by simp_all

lemma readable_iff: "c \<in> set (readable d) \<longleftrightarrow> (\<exists>i. (i, Some c) \<in> set (dFiles d)) \<and> ckID c \<noteq> []"
  unfolding readable_def by (force split: option.splits if_splits)

lemma files_map_of:
  "distinct (map fst xs) \<Longrightarrow> (\<forall>(i, f) \<in> set xs. P i f) \<longleftrightarrow> (\<forall>i f. map_of xs i = Some f \<longrightarrow> P i f)"
  by (auto simp: map_of_eq_Some_iff)

lemma readable_files:
  assumes "distinct (map fst (dFiles d))" and "\<forall>(i, f) \<in> set (dFiles d). \<exists>c. f = Some c \<and> ckID c = i \<and> i \<noteq> []"
  shows "c \<in> set (readable d) \<longleftrightarrow> map_of (dFiles d) (ckID c) = Some (Some c)"
  unfolding readable_iff map_of_eq_Some_iff [OF assms(1)] using assms(2) by fastforce

lemma tidy_readable:
  "tidy d \<Longrightarrow> c \<in> set (readable d) \<longleftrightarrow> map_of (dFiles d) (ckID c) = Some (Some c)"
  unfolding tidy_def by (intro readable_files) blast+

lemma tidy_file:
  "tidy d \<Longrightarrow> map_of (dFiles d) i = Some f \<Longrightarrow> \<exists>c. f = Some c \<and> ckID c = i \<and> c \<in> set (readable d)"
  using tidy_readable [of d] unfolding tidy_def by (fastforce dest: map_of_SomeD)

lemma find_last_sorted:
  fixes key :: "'a \<Rightarrow> 'k::linorder"
  assumes "sorted (map key xs)"
  shows "find P (rev xs) = Some x \<Longrightarrow> x \<in> set xs \<and> P x \<and> (\<forall>y \<in> set xs. P y \<longrightarrow> key y \<le> key x)"
  using assms
proof (induction xs rule: rev_induct)
  case (snoc a xs)
  then show ?case by (cases "P a") (auto simp: sorted_append)
qed simp

lemma newest_Some:
  assumes "tidy d"
  shows "newest p d = Some c \<longleftrightarrow> c \<in> set (readable d) \<and> wanted p c \<and>
    (\<forall>c' \<in> set (readable d). wanted p c' \<longrightarrow> ckTimestamp c' \<le> ckTimestamp c)" (is "?l \<longleftrightarrow> ?r")
proof -
  have srt: "sorted (map (\<lambda>c. (ckTimestamp c, checkpoint_sequence (ckID c))) (scan d))"
    unfolding scan_def by simp
  have set: "set (scan d) = set (readable d)" unfolding scan_def by simp
  have fwd: "x \<in> set (readable d) \<and> wanted p x \<and> (\<forall>c' \<in> set (readable d). wanted p c' \<longrightarrow> ckTimestamp c' \<le> ckTimestamp x)"
    if n: "newest p d = Some x" for x
    using find_last_sorted [OF srt, of "wanted p" x] n unfolding newest_def set by (fastforce simp: less_eq_prod_def)
  show ?thesis
  proof
    assume ?r
    moreover obtain x where x: "newest p d = Some x"
      using \<open>?r\<close> unfolding newest_def set [symmetric] by (cases "find (wanted p) (rev (scan d))") (auto simp: find_None_iff)
    ultimately have "ckTimestamp c = ckTimestamp x" using fwd [OF x] by (meson order_antisym)
    then show ?l using \<open>?r\<close> fwd [OF x] x assms unfolding tidy_def inj_on_def by metis
  qed (rule fwd)
qed

lemma newest_None: "newest p d = None \<longleftrightarrow> (\<forall>c \<in> set (readable d). \<not> wanted p c)"
  unfolding newest_def by (auto simp: find_None_iff scan_def)

lemma wanted_simps [simp]: "wanted Latest c" "wanted LatestCompleted c = is_completed c"
  by (simp_all add: wanted_def)

lemma view_in: "tidy d \<Longrightarrow> view p d = Some c \<Longrightarrow> c \<in> set (readable d) \<and> wanted p c"
  unfolding view_def pointed_def
  by (auto simp: newest_Some dest!: tidy_file split: option.splits if_splits)

lemma completed_view_completed: "settled d \<Longrightarrow> completed_view d = Some c \<Longrightarrow> is_completed c"
  using view_in [of d LatestCompleted c] by (simp add: settled_def)

lemma same_id: "tidy d \<Longrightarrow> c \<in> set (readable d) \<Longrightarrow> c' \<in> set (readable d) \<Longrightarrow> ckID c = ckID c' \<Longrightarrow> c = c'"
  by (simp add: tidy_readable)

section \<open>Changes of the files\<close>

lemma map_of_pairs_delete [simp]: "map_of (AList.delete i xs) j = (if i = j then None else map_of xs j)"
  by (simp add: delete_conv')

lemma files_put: "map_of (dFiles (put_ckpt c d)) i = (if i = ckID c then Some (Some c) else map_of (dFiles d) i)"
  by (simp add: put_ckpt_def update_conv')

lemma readable_put:
  assumes "tidy d" and "ckID c \<noteq> []"
  shows "set (readable (put_ckpt c d)) = insert c {c' \<in> set (readable d). ckID c' \<noteq> ckID c}"
    and "distinct (map fst (dFiles (put_ckpt c d)))"
    and "\<forall>(i, f) \<in> set (dFiles (put_ckpt c d)). \<exists>c. f = Some c \<and> ckID c = i \<and> i \<noteq> []"
proof -
  show d: "distinct (map fst (dFiles (put_ckpt c d)))"
    using assms unfolding tidy_def put_ckpt_def by (simp add: distinct_update)
  show f: "\<forall>(i, f) \<in> set (dFiles (put_ckpt c d)). \<exists>c. f = Some c \<and> ckID c = i \<and> i \<noteq> []"
    using assms unfolding files_map_of [OF d] tidy_def by (auto simp: files_map_of files_put)
  show "set (readable (put_ckpt c d)) = insert c {c' \<in> set (readable d). ckID c' \<noteq> ckID c}"
    using assms by (auto simp: readable_files [OF d f] tidy_readable files_put split: if_splits)
qed

definition drop_ckpt :: "string \<Rightarrow> ('v, 'o) disk \<Rightarrow> ('v, 'o) disk" where
  "drop_ckpt i d = d\<lparr>dFiles := AList.delete i (dFiles d)\<rparr>"

lemma files_drop: "map_of (dFiles (drop_ckpt i d)) j = (if i = j then None else map_of (dFiles d) j)"
  by (simp add: drop_ckpt_def)

lemma readable_drop:
  assumes "tidy d"
  shows "set (readable (drop_ckpt i d)) = {c \<in> set (readable d). ckID c \<noteq> i}" and "tidy (drop_ckpt i d)"
proof -
  have d: "distinct (map fst (dFiles (drop_ckpt i d)))"
    using assms unfolding tidy_def drop_ckpt_def by (simp add: distinct_delete)
  have f: "\<forall>(j, f) \<in> set (dFiles (drop_ckpt i d)). \<exists>c. f = Some c \<and> ckID c = j \<and> j \<noteq> []"
    using assms unfolding files_map_of [OF d] tidy_def by (auto simp: files_map_of files_drop split: if_splits)
  show r: "set (readable (drop_ckpt i d)) = {c \<in> set (readable d). ckID c \<noteq> i}"
    unfolding set_eq_iff mem_Collect_eq readable_files [OF d f] tidy_readable [OF assms] files_drop by simp
  show "tidy (drop_ckpt i d)" using assms d f r unfolding tidy_def by (auto simp: inj_on_def)
qed


lemma get_pointer_put [simp]: "get_pointer p (put_ckpt c d) = get_pointer p d"
  by (cases p) (simp_all add: put_ckpt_def)

lemma get_pointer_drop [simp]: "get_pointer p (drop_ckpt i d) = get_pointer p d"
  by (cases p) (simp_all add: drop_ckpt_def)

lemma get_set_pointer [simp]: "get_pointer p (set_pointer q i d) = (if p = q then Some i else get_pointer p d)"
  by (cases p; cases q) simp_all

lemma files_set_pointer [simp]: "dFiles (set_pointer p i d) = dFiles d"
  by (cases p) simp_all

lemma set_pointer_readable [simp]:
  "readable (set_pointer q i d) = readable d" "newest p (set_pointer q i d) = newest p d" "tidy (set_pointer q i d) = tidy d"
  by (simp_all add: readable_def newest_def scan_def tidy_def)

lemma set_pointer_simps: "d\<lparr>dLatest := Some i\<rparr> = set_pointer Latest i d" "d\<lparr>dLatestCompleted := Some i\<rparr> = set_pointer LatestCompleted i d"
  by simp_all

declare set_pointer.simps [simp del] get_pointer.simps [simp del]

lemma pointed_Some:
  assumes "tidy d"
  shows "pointed p d = Some c \<longleftrightarrow> get_pointer p d = Some (ckID c) \<and> c \<in> set (readable d) \<and> wanted p c"
  using assms tidy_file [OF assms] unfolding pointed_def
  by (auto simp: tidy_readable split: option.splits if_splits)

lemma view_set_pointer:
  assumes "tidy d" and "c \<in> set (readable d)" and "wanted p c"
  shows "view p (set_pointer p (ckID c) d) = Some c" and "q \<noteq> p \<Longrightarrow> view q (set_pointer p (ckID c) d) = view q d"
proof -
  have "pointed p (set_pointer p (ckID c) d) = Some c" using assms by (simp add: pointed_Some)
  then show "view p (set_pointer p (ckID c) d) = Some c" unfolding view_def by simp
  show "view q (set_pointer p (ckID c) d) = view q d" if "q \<noteq> p"
    using that by (simp add: view_def pointed_def cong: option.case_cong)
qed

lemma settled_repoint: "settled d \<Longrightarrow> newest p d = Some c \<Longrightarrow> pointed p d = None \<Longrightarrow>
    settled (set_pointer p (ckID c) d) \<and> view q (set_pointer p (ckID c) d) = view q d"
proof -
  assume s: "settled d" and n: "newest p d = Some c" and none: "pointed p d = None"
  have t: "tidy d" using s by (simp add: settled_def)
  have c: "c \<in> set (readable d)" "wanted p c" using n newest_Some [OF t] by auto
  have v: "view q (set_pointer p (ckID c) d) = view q d" for q
  proof (cases "q = p")
    case True
    then show ?thesis using view_set_pointer(1) [OF t c] n none by (simp add: view_def)
  qed (rule view_set_pointer(2) [OF t c])
  then show ?thesis using s by (simp add: settled_def)
qed

lemma newest_drop:
  assumes "tidy d" and "\<And>c. newest p d = Some c \<Longrightarrow> ckID c \<noteq> i"
  shows "newest p (drop_ckpt i d) = newest p d"
proof (cases "newest p d")
  case None
  then have "newest p (drop_ckpt i d) = None" using assms by (simp add: newest_None readable_drop)
  then show ?thesis using None by simp
next
  case (Some c)
  then show ?thesis using assms newest_Some [OF assms(1), of p c]
    by (simp add: newest_Some [OF readable_drop(2)] readable_drop)
qed

lemma settled_drop:
  assumes s: "settled d" and l: "\<And>p c. view p d = Some c \<Longrightarrow> ckID c \<noteq> i"
  shows "settled (drop_ckpt i d)" and "view p (drop_ckpt i d) = view p d"
proof -
  have t: "tidy d" using s by (simp add: settled_def)
  have same: "view p (drop_ckpt i d) = view p d" for p
  proof (cases "pointed p d")
    case None
    then have "pointed p (drop_ckpt i d) = None"
      using t unfolding pointed_def files_drop get_pointer_drop by (auto split: option.splits if_splits)
    moreover have "newest p (drop_ckpt i d) = newest p d"
      using None l [of p] by (intro newest_drop [OF t]) (simp add: view_def)
    ultimately show ?thesis using None by (simp add: view_def)
  next
    case (Some c)
    then have "ckID c \<noteq> i" using l [of p c] by (simp add: view_def)
    then have "pointed p (drop_ckpt i d) = Some c"
      using Some by (simp add: pointed_Some [OF t] pointed_Some [OF readable_drop(2) [OF t]] readable_drop(1) [OF t])
    then show ?thesis using Some by (simp add: view_def)
  qed
  then show "view p (drop_ckpt i d) = view p d" .
  have "newest LatestCompleted (drop_ckpt i d) = newest LatestCompleted d"
    using s l [of LatestCompleted] by (intro newest_drop [OF t]) (simp add: settled_def)
  then show "settled (drop_ckpt i d)"
    using s same readable_drop [OF t] by (simp add: settled_def)
qed

lemma tidy_put_unused:
  assumes "tidy d" and "unused d c"
  shows "tidy (put_ckpt c d)" and "set (readable (put_ckpt c d)) = insert c (set (readable d))"
proof -
  have id: "ckID c \<noteq> []" using assms by (simp add: unused_def)
  have "ckID c' \<noteq> ckID c" if "c' \<in> set (readable d)" for c'
    using assms that tidy_readable [OF assms(1)] unfolding unused_def by (metis domI dom_map_of_conv_image_fst)
  then show r: "set (readable (put_ckpt c d)) = insert c (set (readable d))"
    using readable_put(1) [OF assms(1) id] by auto
  have "inj_on ckTimestamp (set (readable (put_ckpt c d)))"
    using assms unfolding tidy_def r unused_def by (fastforce simp: inj_on_def)
  then show "tidy (put_ckpt c d)"
    using readable_put(2,3) [OF assms(1) id] unfolding tidy_def by blast
qed

lemma settled_put_prepared:
  assumes s: "settled d" and u: "unused d c" and p: "\<not> is_completed c"
  shows "settled (put_ckpt c d)" and "completed_view (put_ckpt c d) = completed_view d"
    and "latest_view (put_ckpt c d) = latest_view d \<or> latest_view (put_ckpt c d) = Some c"
proof -
  have t: "tidy d" using s by (simp add: settled_def)
  note t' = tidy_put_unused(1) [OF t u] and r = tidy_put_unused(2) [OF t u]
  have n: "newest LatestCompleted (put_ckpt c d) = newest LatestCompleted d"
  proof (cases "newest LatestCompleted d")
    case None
    then have "newest LatestCompleted (put_ckpt c d) = None" using p by (simp add: newest_None r)
    then show ?thesis using None by simp
  next
    case (Some x)
    then show ?thesis using p newest_Some [OF t, of LatestCompleted x] by (simp add: newest_Some [OF t'] r)
  qed
  have pt: "pointed q (put_ckpt c d) = Some x \<longleftrightarrow> pointed q d = Some x" if "x \<noteq> c" for q x
    using that by (simp add: pointed_Some [OF t] pointed_Some [OF t'] r)
  have pc: "pointed LatestCompleted (put_ckpt c d) \<noteq> Some c" "pointed LatestCompleted d \<noteq> Some c"
    using p by (simp_all add: pointed_Some [OF t] pointed_Some [OF t'])
  have "pointed LatestCompleted (put_ckpt c d) = pointed LatestCompleted d"
    using pt [of _ LatestCompleted] pc by (metis not_None_eq)
  then show cv: "completed_view (put_ckpt c d) = completed_view d" using n by (simp add: view_def cong: option.case_cong)
  have nl: "newest Latest (put_ckpt c d) = Some c"
    using u by (auto simp: newest_Some [OF t'] r unused_def less_imp_le)
  show lv: "latest_view (put_ckpt c d) = latest_view d \<or> latest_view (put_ckpt c d) = Some c"
  proof (cases "pointed Latest (put_ckpt c d)")
    case (Some a)
    then show ?thesis using pt [of a Latest] by (cases "a = c") (simp_all add: view_def)
  qed (simp add: nl view_def)
  show "settled (put_ckpt c d)"
    using s n cv lv t' p u unfolding settled_def r by (auto simp: unused_def less_imp_le)
qed


definition completed_of :: "('v, 'o) ckpt \<Rightarrow> ('v, 'o) ckpt" where
  "completed_of c = c\<lparr>ckStatus := StatusCompleted\<rparr>"

lemma completed_of_simps [simp]:
  "ckID (completed_of c) = ckID c" "ckTimestamp (completed_of c) = ckTimestamp c" "is_completed (completed_of c)"
  "ckOperators (completed_of c) = ckOperators c" "ckSource (completed_of c) = ckSource c"
  "ckStatus (completed_of c) = StatusCompleted" "ckStateDirs (completed_of c) = ckStateDirs c"
  by (simp_all add: completed_of_def is_completed_def)

text \<open>Promotion: the file is rewritten, the pointer to the latest completed one may lag behind.\<close>

lemma put_completed:
  assumes s: "settled d" and l: "latest_view d = Some c" and p: "\<not> is_completed c"
    and d': "d' = put_ckpt (completed_of c) d"
  shows "tidy d'"
    and "set (readable d') = insert (completed_of c) {c' \<in> set (readable d). ckID c' \<noteq> ckID c}"
    and "latest_view d' = Some (completed_of c)"
    and "newest LatestCompleted d' = Some (completed_of c)"
    and "c' \<in> set (readable d') \<Longrightarrow> is_completed c' \<Longrightarrow> ckTimestamp c' \<le> ckTimestamp c"
proof -
  have t: "tidy d" using s by (simp add: settled_def)
  have c: "c \<in> set (readable d)" using view_in [OF t l] by simp
  then have id: "ckID (completed_of c) \<noteq> []" by (simp add: readable_iff)
  note put = readable_put [OF t id, folded d', unfolded completed_of_simps]
  show r: "set (readable d') = insert (completed_of c) {c' \<in> set (readable d). ckID c' \<noteq> ckID c}" by (rule put(1))
  have "inj_on ckTimestamp (set (readable d'))"
  proof (rule inj_onI)
    fix x y assume xy: "x \<in> set (readable d')" "y \<in> set (readable d')" "ckTimestamp x = ckTimestamp y"
    have inj: "a = b" if "a \<in> set (readable d)" "b \<in> set (readable d)" "ckTimestamp a = ckTimestamp b" for a b
      using t that unfolding tidy_def inj_on_def by blast
    then have ne: "ckTimestamp a \<noteq> ckTimestamp c" if "a \<in> set (readable d)" "ckID a \<noteq> ckID c" for a using that c by blast
    then show "x = y" using xy unfolding r by (auto dest: inj ne)
  qed
  then show t': "tidy d'" using put(2,3) unfolding tidy_def by simp
  show le: "ckTimestamp c' \<le> ckTimestamp c" if "c' \<in> set (readable d')" "is_completed c'" for c'
    using s l that unfolding r settled_def by auto
  show "newest LatestCompleted d' = Some (completed_of c)"
    using le by (simp add: newest_Some [OF t'] r)
  show "latest_view d' = Some (completed_of c)"
  proof (cases "pointed Latest d")
    case None
    then have n: "newest Latest d = Some c" using l by (simp add: view_def)
    have "pointed Latest d' = None \<or> pointed Latest d' = Some (completed_of c)"
      using None by (auto simp: pointed_def d' files_put split: option.splits)
    moreover have "newest Latest d' = Some (completed_of c)"
      using n by (auto simp: newest_Some [OF t] newest_Some [OF t'] r)
    ultimately show ?thesis by (auto simp: view_def)
  next
    case (Some x)
    then have "x = c" using l by (simp add: view_def)
    then have "pointed Latest d' = Some (completed_of c)" using Some by (simp add: pointed_Some [OF t] pointed_Some [OF t'] r) (simp add: d')
    then show ?thesis by (simp add: view_def)
  qed
qed

lemma settled_promoted:
  assumes "settled d" and "latest_view d = Some c" and "\<not> is_completed c"
  shows "settled (set_pointer LatestCompleted (ckID c) (put_ckpt (completed_of c) d))" (is "settled ?d")
    and "latest_view (set_pointer LatestCompleted (ckID c) (put_ckpt (completed_of c) d)) = Some (completed_of c)"
    and "completed_view (set_pointer LatestCompleted (ckID c) (put_ckpt (completed_of c) d)) = Some (completed_of c)"
proof -
  note p = put_completed [OF assms refl]
  have m: "completed_of c \<in> set (readable (put_ckpt (completed_of c) d))" by (simp add: p(2))
  note v = view_set_pointer [OF p(1) m, of LatestCompleted]
  show l: "latest_view ?d = Some (completed_of c)" and c: "completed_view ?d = Some (completed_of c)"
    using v(1) v(2) [of Latest] p(3) by simp_all
  show "settled ?d" unfolding settled_def l c using p by auto
qed


section \<open>The operations\<close>

definition steady :: "(('v, 'o) disk \<Rightarrow> bool) \<Rightarrow> bool" where
  "steady P \<longleftrightarrow> (\<forall>d. P (core d) = P d)"

lemma steadyD: "steady P \<Longrightarrow> core d = core d' \<Longrightarrow> P d \<Longrightarrow> P d'"
  unfolding steady_def by metis

lemma steady_conj: "steady P \<Longrightarrow> steady Q \<Longrightarrow> steady (\<lambda>d. P d \<and> Q d)"
  by (simp add: steady_def)

lemma steady_set_pointer: "steady P \<Longrightarrow> steady (\<lambda>d. P (set_pointer p i d))"
proof -
  have "core (set_pointer p i (core d)) = core (set_pointer p i d)" for d :: "('a, 'b) disk"
    by (cases p) (simp_all add: set_pointer.simps core_def)
  then show "steady P \<Longrightarrow> steady (\<lambda>d. P (set_pointer p i d))" unfolding steady_def by metis
qed

lemma keeps_io: "steady P \<Longrightarrow> keeps P io"
  by (rule tripleI) (auto simp: io_def split: list.splits if_splits elim!: steadyD [rotated 2])

lemma triple_write:
  assumes "steady P" "steady Q" "steady E"
    and "\<And>d. P d \<Longrightarrow> E d" and "\<And>d. P d \<Longrightarrow> E (f d)" and "\<And>d. P d \<Longrightarrow> Q (f d)"
  shows "triple P (write_file_sync f) (\<lambda>_. Q) E"
  unfolding write_file_sync_def
proof (rule triple_andThen)
  show "triple P io (\<lambda>_. P) E" by (rule triple_weaken [OF keeps_io [OF assms(1)]]) (use assms in auto)
  show "triple P (andThen (modify f) (\<lambda>_. io)) (\<lambda>_. Q) E" for x :: unit
  proof (rule triple_andThen)
    show "triple P (modify f) (\<lambda>_ d. Q d \<and> E d) E" using assms by (intro triple_modify) simp
    have "steady (\<lambda>d. Q d \<and> E d)" using assms by (simp add: steady_def)
    from keeps_io [OF this] show "triple (\<lambda>d. Q d \<and> E d) io (\<lambda>_. Q) E" by (rule triple_weaken) auto
  qed
qed

definition viewed :: "('v, 'o) ckpt option \<Rightarrow> ('v, 'o) ckpt option \<Rightarrow> ('v, 'o) ckpt set \<Rightarrow> ('v, 'o) disk \<Rightarrow> bool" where
  "viewed l k U d \<longleftrightarrow> settled d \<and> latest_view d = l \<and> completed_view d = k \<and> (\<forall>c \<in> U. unused d c)"

lemma steady_viewed [simp]: "steady (viewed l k U)"
  by (simp add: steady_def viewed_def)

lemma viewed_fields [simp]:
  "viewed l k U (d\<lparr>dFaults := fs\<rparr>) = viewed l k U d" "viewed l k U (d\<lparr>dMade := m\<rparr>) = viewed l k U d"
  "viewed l k U (d\<lparr>dStateDirs := sd\<rparr>) = viewed l k U d"
  by (metis core_fields(4-6) steady_def steady_viewed)+

lemma distinct_readable: "tidy d \<Longrightarrow> distinct (readable d)"
proof -
  assume t: "tidy d"
  have "distinct (concat (map (\<lambda>(i, f). case f of None \<Rightarrow> [] | Some c \<Rightarrow> if ckID c = [] then [] else [c]) fs))"
    if "distinct (map fst fs)" "\<forall>(i, f) \<in> set fs. \<exists>c. f = Some c \<and> ckID c = i \<and> i \<noteq> []" for fs :: "(string \<times> ('a, 'b) ckpt option) list"
    using that by (induction fs) (force split: option.splits if_splits)+
  then show ?thesis using t unfolding tidy_def readable_def by blast
qed

lemma victim_not_newest:
  assumes t: "tidy d" and v: "v \<in> set (victims n d)" and n: "1 \<le> n"
  shows "is_completed v \<and> v \<in> set (readable d) \<and> newest LatestCompleted d \<noteq> Some v"
proof -
  define cs where "cs = filter is_completed (scan d)"
  have cs: "set cs = {c \<in> set (readable d). is_completed c}" and dist: "distinct cs"
    and srt: "sorted (map (\<lambda>c. (ckTimestamp c, checkpoint_sequence (ckID c))) cs)"
    using distinct_readable [OF t] by (auto simp: cs_def scan_def sorted_filter)
  obtain i where i: "i < length cs - nat n" and vi: "v = cs ! i"
    using v unfolding victims_def Let_def cs_def by (auto simp: in_set_conv_nth)
  let ?l = "length cs - 1"
  have lt: "i < ?l" "?l < length cs" using i n by auto
  then have mem: "v \<in> set cs" "cs ! ?l \<in> set cs" using vi by auto
  have "(ckTimestamp v, checkpoint_sequence (ckID v)) \<le> (ckTimestamp (cs ! ?l), checkpoint_sequence (ckID (cs ! ?l)))"
    using sorted_nth_mono [OF srt, of i ?l] lt by (simp add: vi)
  then have "ckTimestamp v \<le> ckTimestamp (cs ! ?l)" by auto
  moreover have "v \<noteq> cs ! ?l" using dist lt vi by (simp add: nth_eq_iff_index_eq)
  ultimately have "ckTimestamp v < ckTimestamp (cs ! ?l)"
    using t mem cs unfolding tidy_def inj_on_def by (metis (no_types, lifting) mem_Collect_eq order_le_less)
  then show ?thesis using mem cs newest_Some [OF t, of LatestCompleted v] by (auto simp: not_less [symmetric])
qed

lemma victim_not_viewed:
  assumes s: "settled d" and v: "v \<in> set (victims n d)" and n: "1 \<le> n" and w: "view p d = Some c"
  shows "ckID v \<noteq> ckID c"
proof
  assume eq: "ckID v = ckID c"
  have t: "tidy d" using s by (simp add: settled_def)
  note vic = victim_not_newest [OF t v n]
  have c: "c = v" using same_id [OF t] vic view_in [OF t w] eq by metis
  then show False
  proof (cases p)
    case Latest
    then have "newest LatestCompleted d = Some v"
      using s w c vic unfolding settled_def by (auto simp: newest_Some [OF t])
    then show False using vic by simp
  next
    case LatestCompleted
    then show False using s w c vic unfolding settled_def by simp
  qed
qed

lemma viewed_drop:
  assumes "viewed l k U d" and "\<And>c. l = Some c \<or> k = Some c \<Longrightarrow> ckID c \<noteq> i"
  shows "viewed l k U (drop_ckpt i d)"
proof -
  have s: "settled d" and l: "latest_view d = l" and k: "completed_view d = k" using assms(1) by (simp_all add: viewed_def)
  have t: "tidy d" using s by (simp add: settled_def)
  have "ckID c \<noteq> i" if "view p d = Some c" for p c
    using that assms(2) l k by (cases p) auto
  note d = settled_drop [OF s this]
  have "unused (drop_ckpt i d) c" if "unused d c" for c
    using that readable_drop(1) [OF t] unfolding unused_def by (auto simp: drop_ckpt_def AList.delete_eq)
  then show ?thesis using assms(1) d unfolding viewed_def by simp
qed

lemma remove_ckpt_keeps:
  assumes "\<And>c. l = Some c \<or> k = Some c \<Longrightarrow> ckID c \<noteq> ckID v"
  shows "keeps (viewed l k U) (remove_ckpt v)"
  unfolding remove_ckpt_def drop_ckpt_def [symmetric]
  by (intro keeps_andThen keeps_io steady_viewed triple_modify) (erule viewed_drop, erule assms | simp)+

lemma enforce_retention_keeps: "keeps (viewed l k U) (enforce_retention n)"
proof (cases "n < 1")
  case False
  have loop: "triple (\<lambda>d. viewed l k U d \<and> x = (scan d, victims n d))
      (case x of (all, vs) \<Rightarrow> andThen (for_each remove_ckpt vs) (\<lambda>_. if all \<noteq> [] then io else ret ()))
      (\<lambda>_. viewed l k U) (viewed l k U)" for x
  proof (cases "\<exists>d. viewed l k U d \<and> x = (scan d, victims n d)")
    case True
    then obtain d where d: "viewed l k U d" "x = (scan d, victims n d)" by blast
    have "keeps (viewed l k U) (remove_ckpt v)" if "v \<in> set (victims n d)" for v
    proof (rule remove_ckpt_keeps)
      fix c assume "l = Some c \<or> k = Some c"
      then show "ckID c \<noteq> ckID v"
        using d(1) victim_not_viewed [OF _ that, of Latest c] victim_not_viewed [OF _ that, of LatestCompleted c] False
        unfolding viewed_def by (metis not_less)
    qed
    then have "keeps (viewed l k U) (andThen (for_each remove_ckpt (victims n d)) (\<lambda>_. if scan d \<noteq> [] then io else ret ()))"
      by (intro keeps_andThen keeps_for_each keeps_if keeps_io keeps_ret steady_viewed) simp_all
    then show ?thesis unfolding d(2) by (simp add: triple_pre)
  qed (rule triple_pre [OF triple_false], blast)
  show ?thesis using False unfolding enforce_retention_def
    by (simp only: if_False) (rule triple_andThen [OF triple_gets loop])
qed (simp add: enforce_retention_def keeps_ret)


lemma keeps_started: "keeps P m \<Longrightarrow> keeps P (started fs m)"
  unfolding started_def by (intro keeps_option keeps_fail)

lemma sync_state_dir_keeps: "keeps (viewed l k U) (sync_state_dir i rel)"
  unfolding sync_state_dir_def by (intro keeps_rules keeps_io steady_viewed)

text \<open>Saving a prepared checkpoint.\<close>

definition saving :: "('v, 'o) ckpt option \<Rightarrow> ('v, 'o) ckpt option \<Rightarrow> ('v, 'o) ckpt \<Rightarrow> ('v, 'o) ckpt set \<Rightarrow> ('v, 'o) disk \<Rightarrow> bool" where
  "saving l k c U d \<longleftrightarrow> viewed l k U d \<or> viewed (Some c) k U d"

lemma steady_saving [simp]: "steady (saving l k c U)"
  by (simp add: steady_def saving_def viewed_def)

lemma unused_put: "tidy d \<Longrightarrow> unused d c \<Longrightarrow> unused d c' \<Longrightarrow> ckTimestamp c < ckTimestamp c' \<Longrightarrow> ckID c \<noteq> ckID c' \<Longrightarrow> unused (put_ckpt c d) c'"
  using tidy_put_unused(2) [of d c] unfolding unused_def by (auto simp: put_ckpt_def dom_update [unfolded dom_map_of_conv_image_fst])

lemma viewed_put:
  assumes v: "viewed l k (insert c U) d" and p: "\<not> is_completed c"
    and later: "\<And>c'. c' \<in> U \<Longrightarrow> ckTimestamp c < ckTimestamp c' \<and> ckID c \<noteq> ckID c'"
  shows "saving l k c U (put_ckpt c d)" and "viewed (Some c) k U (set_pointer Latest (ckID c) (put_ckpt c d))"
proof -
  have s: "settled d" and u: "unused d c" and U: "\<And>c'. c' \<in> U \<Longrightarrow> unused d c'" and l: "latest_view d = l" and k: "completed_view d = k"
    using v by (simp_all add: viewed_def)
  have t: "tidy d" using s by (simp add: settled_def)
  note put = settled_put_prepared [OF s u p] and r = tidy_put_unused(2) [OF t u]
  have U': "unused (put_ckpt c d) c'" if "c' \<in> U" for c'
    using unused_put [OF t u U [OF that]] later [OF that] by simp
  show "saving l k c U (put_ckpt c d)" using put U' l k unfolding saving_def viewed_def by auto
  have t': "tidy (put_ckpt c d)" using put(1) by (simp add: settled_def)
  have m: "c \<in> set (readable (put_ckpt c d))" by (simp add: r)
  note w = view_set_pointer [OF t' m, of Latest, simplified]
  have "settled (set_pointer Latest (ckID c) (put_ckpt c d))"
    using put(1,2) w u p unfolding settled_def by (auto simp: r unused_def less_imp_le)
  moreover have "unused (set_pointer Latest (ckID c) (put_ckpt c d)) c'" if "c' \<in> U" for c'
    using U' [OF that] by (simp add: unused_def)
  ultimately show "viewed (Some c) k U (set_pointer Latest (ckID c) (put_ckpt c d))"
    using w put(2) k unfolding viewed_def by simp
qed

lemma andThen_ret: "andThen (ret x) f = f x"
  by (simp add: fun_eq_iff andThen_def ret_def)

lemma save_locked_prepared:
  "ckStatus c = StatusPrepared \<Longrightarrow> save_locked fs c = andThen io (\<lambda>_. andThen (modify (\<lambda>d. d\<lparr>dMade := True\<rparr>)) (\<lambda>_.
     andThen (for_each (\<lambda>(_, rel). sync_state_dir (ckID c) rel) (ckStateDirs c)) (\<lambda>_. andThen (write_file_sync (put_ckpt c)) (\<lambda>_.
     andThen (write_file_sync (\<lambda>d. d\<lparr>dLatest := Some (ckID c)\<rparr>)) (\<lambda>_. enforce_retention (fsRetain fs))))))"
  by (simp add: save_locked_def andThen_ret)

lemma save_locked_completed:
  "ckStatus c = StatusCompleted \<Longrightarrow> save_locked fs c = andThen io (\<lambda>_. andThen (modify (\<lambda>d. d\<lparr>dMade := True\<rparr>)) (\<lambda>_.
     andThen (for_each (\<lambda>(_, rel). sync_state_dir (ckID c) rel) (ckStateDirs c)) (\<lambda>_. andThen (write_file_sync (put_ckpt c)) (\<lambda>_.
     andThen (write_file_sync (\<lambda>d. d\<lparr>dLatest := Some (ckID c)\<rparr>)) (\<lambda>_.
     andThen (write_file_sync (\<lambda>d. d\<lparr>dLatestCompleted := Some (ckID c)\<rparr>)) (\<lambda>_. enforce_retention (fsRetain fs)))))))"
  by (simp add: save_locked_def)

lemma save_prepared:
  assumes "ckStatus c = StatusPrepared"
    and later: "\<And>c'. c' \<in> U \<Longrightarrow> ckTimestamp c < ckTimestamp c' \<and> ckID c \<noteq> ckID c'"
  shows "triple (viewed l k (insert c U)) (save_locked fs c) (\<lambda>_. viewed (Some c) k U) (saving l k c U)"
proof -
  have p: "\<not> is_completed c" using assms by (simp add: is_completed_def)
  have pre: "triple (viewed l k (insert c U)) m (\<lambda>_. viewed l k (insert c U)) (saving l k c U)"
    if "keeps (viewed l k (insert c U)) m" for m :: "(('a, 'b) disk, unit) op"
    using that by (rule triple_weaken) (auto simp: saving_def viewed_def)
  have put: "triple (viewed l k (insert c U)) (write_file_sync (put_ckpt c))
      (\<lambda>_ d. saving l k c U d \<and> viewed (Some c) k U (set_pointer Latest (ckID c) d)) (saving l k c U)"
  proof (rule triple_write)
    show "steady (\<lambda>d. saving l k c U d \<and> viewed (Some c) k U (set_pointer Latest (ckID c) d))"
      by (intro steady_conj steady_set_pointer steady_saving steady_viewed)
    fix d assume d: "viewed l k (insert c U) d"
    then show "saving l k c U d" by (simp add: saving_def viewed_def)
    show "saving l k c U (put_ckpt c d)" by (rule viewed_put(1) [OF d p later])
    then show "saving l k c U (put_ckpt c d) \<and> viewed (Some c) k U (set_pointer Latest (ckID c) (put_ckpt c d))"
      using viewed_put(2) [OF d p later] by simp
  qed simp_all
  have ptr: "triple (\<lambda>d. saving l k c U d \<and> viewed (Some c) k U (set_pointer Latest (ckID c) d))
      (write_file_sync (\<lambda>d. d\<lparr>dLatest := Some (ckID c)\<rparr>)) (\<lambda>_. viewed (Some c) k U) (saving l k c U)"
    unfolding set_pointer_simps by (rule triple_write) (simp_all add: steady_conj steady_set_pointer, simp add: saving_def)
  have ret: "triple (viewed (Some c) k U) (enforce_retention n) (\<lambda>_. viewed (Some c) k U) (saving l k c U)" for n
    by (rule triple_weaken [OF enforce_retention_keeps]) (auto simp: saving_def)
  show ?thesis unfolding save_locked_prepared [OF assms(1)]
    by (rule triple_andThen [OF pre [OF keeps_io]], simp, rule triple_andThen [OF pre [OF triple_modify]], simp,
        rule triple_andThen [OF pre [OF keeps_for_each]], simp add: sync_state_dir_keeps split_beta,
        rule triple_andThen [OF put], rule triple_andThen [OF ptr], rule ret)
qed


text \<open>Promotion.\<close>

definition promoted :: "('v, 'o) ckpt \<Rightarrow> ('v, 'o) ckpt set \<Rightarrow> ('v, 'o) disk \<Rightarrow> bool" where
  "promoted c U d \<longleftrightarrow> tidy d \<and> latest_view d = Some (completed_of c) \<and> newest LatestCompleted d = Some (completed_of c) \<and>
     (\<forall>c' \<in> set (readable d). is_completed c' \<longrightarrow> ckTimestamp c' \<le> ckTimestamp c) \<and> (\<forall>c' \<in> U. unused d c')"

abbreviation finished :: "('v, 'o) ckpt \<Rightarrow> ('v, 'o) ckpt set \<Rightarrow> ('v, 'o) disk \<Rightarrow> bool" where
  "finished c \<equiv> viewed (Some (completed_of c)) (Some (completed_of c))"

definition promoting :: "('v, 'o) ckpt option \<Rightarrow> ('v, 'o) ckpt \<Rightarrow> ('v, 'o) ckpt set \<Rightarrow> ('v, 'o) disk \<Rightarrow> bool" where
  "promoting k c U d \<longleftrightarrow> (settled d \<longrightarrow> viewed (Some c) k U d \<or> finished c U d)"

lemma steady_promoting [simp]: "steady (promoting k c U)" "steady (promoted c U)"
  by (simp_all add: steady_def promoting_def promoted_def viewed_def)

lemma promoted_promoting: "promoted c U d \<Longrightarrow> promoting k c U d"
  by (simp add: promoted_def promoting_def viewed_def settled_def)

lemma promoted_put:
  assumes v: "viewed (Some c) k U d" and p: "\<not> is_completed c"
  shows "promoted c U (put_ckpt (completed_of c) d)"
proof -
  have s: "settled d" and l: "latest_view d = Some c" and U: "\<And>c'. c' \<in> U \<Longrightarrow> unused d c'"
    using v by (simp_all add: viewed_def)
  note put = put_completed [OF s l p refl]
  have c: "c \<in> set (readable d)" using s l view_in [of d Latest c] by (simp add: settled_def)
  have "ckID c \<in> fst ` set (dFiles d)"
    using c s tidy_readable [of d c] unfolding settled_def by (metis domI dom_map_of_conv_image_fst)
  then have "unused (put_ckpt (completed_of c) d) c'" if "c' \<in> U" for c'
    using U [OF that] c unfolding unused_def put(2)
    by (auto simp: put_ckpt_def dom_update [unfolded dom_map_of_conv_image_fst]) (metis fst_conv image_eqI)
  then show ?thesis unfolding promoted_def using put by simp
qed

lemma promoted_pointer:
  assumes "promoted c U d"
  shows "promoted c U (set_pointer Latest (ckID c) d)" and "finished c U (set_pointer LatestCompleted (ckID c) d)"
proof -
  have t: "tidy d" and m: "completed_of c \<in> set (readable d)"
    using assms by (auto simp: promoted_def newest_Some)
  note w = view_set_pointer [OF t m, simplified]
  have u: "unused (set_pointer p i d) c' = unused d c'" for p i c' by (simp add: unused_def)
  show "promoted c U (set_pointer Latest (ckID c) d)"
    using assms w(1) [of Latest] unfolding promoted_def by (simp add: u)
  show "finished c U (set_pointer LatestCompleted (ckID c) d)"
    using assms w(1) [of LatestCompleted] w(2) [of LatestCompleted Latest] unfolding promoted_def viewed_def settled_def
    by (simp add: u)
qed

lemma save_completed_of:
  assumes p: "ckStatus c = StatusPrepared"
  shows "triple (viewed (Some c) k U) (save_locked fs (completed_of c)) (\<lambda>_. finished c U) (promoting k c U)"
proof -
  have np: "\<not> is_completed c" using p by (simp add: is_completed_def)
  have pre: "triple (viewed (Some c) k U) m (\<lambda>_. viewed (Some c) k U) (promoting k c U)"
    if "keeps (viewed (Some c) k U) m" for m :: "(('a, 'b) disk, unit) op"
    using that by (rule triple_weaken) (auto simp: promoting_def)
  have put: "triple (viewed (Some c) k U) (write_file_sync (put_ckpt (completed_of c))) (\<lambda>_. promoted c U) (promoting k c U)"
    by (rule triple_write) (simp_all add: promoted_put [OF _ np] promoted_promoting, simp add: promoting_def)
  have ptr: "triple (promoted c U) (write_file_sync (\<lambda>d. d\<lparr>dLatest := Some (ckID (completed_of c))\<rparr>)) (\<lambda>_. promoted c U) (promoting k c U)"
    unfolding set_pointer_simps by (rule triple_write) (simp_all add: promoted_pointer promoted_promoting)
  have ptr': "triple (promoted c U) (write_file_sync (\<lambda>d. d\<lparr>dLatestCompleted := Some (ckID (completed_of c))\<rparr>)) (\<lambda>_. finished c U) (promoting k c U)"
    unfolding set_pointer_simps
    by (rule triple_write) (simp_all add: promoted_pointer promoted_promoting, simp add: promoting_def promoted_pointer)
  have ret: "triple (finished c U) (enforce_retention n) (\<lambda>_. finished c U) (promoting k c U)" for n
    by (rule triple_weaken [OF enforce_retention_keeps]) (auto simp: promoting_def)
  have st: "ckStatus (completed_of c) = StatusCompleted" by simp
  show ?thesis unfolding save_locked_completed [OF st]
    by (rule triple_andThen [OF pre [OF keeps_io]], simp, rule triple_andThen [OF pre [OF triple_modify]], simp,
        rule triple_andThen [OF pre [OF keeps_for_each]], simp add: sync_state_dir_keeps split_beta,
        rule triple_andThen [OF put], rule triple_andThen [OF ptr], rule triple_andThen [OF ptr'], rule ret)
qed

lemma update_status_completed:
  assumes p: "ckStatus c = StatusPrepared"
  shows "triple (viewed (Some c) k U) (update_status fs (ckID c) StatusCompleted) (\<lambda>_. finished c U) (promoting k c U)"
proof -
  have found: "load_specific_locked (ckID c) d = (Inr (Some c), d)" if "viewed (Some c) k U d" for d
    using that view_in [of d Latest c] tidy_readable [of d c] unfolding viewed_def settled_def
    by (simp add: load_specific_locked_def op_defs)
  have load: "triple (viewed (Some c) k U) (load_specific_locked (ckID c)) (\<lambda>r d. viewed (Some c) k U d \<and> r = Some c) (promoting k c U)"
    using found by (simp add: triple_def)
  have save: "triple (viewed (Some c) k U) (save_locked fs (c\<lparr>ckStatus := StatusCompleted\<rparr>)) (\<lambda>_. finished c U) (promoting k c U)"
    using save_completed_of [OF p] by (simp add: completed_of_def)
  show ?thesis unfolding update_status_def started_def
    by (intro triple_option triple_fail triple_andThen [OF load] triple_pure) (simp_all add: save promoting_def)
qed

section \<open>Loading and opening\<close>

lemma load_pointer_eq:
  "load_pointer p d = (case pointed p d of Some c \<Rightarrow> (Inr (Some c), d)
     | None \<Rightarrow> (case newest p d of None \<Rightarrow> (Inr None, d)
         | Some c \<Rightarrow> andThen (write_file_sync (set_pointer p (ckID c))) (\<lambda>_. ret (Some c)) d))"
  unfolding load_pointer_def pointed_def newest_def load_specific_locked_def
  by (simp add: op_defs split: option.splits)

lemma load_pointer_view:
  "triple (viewed l k U) (load_pointer p) (\<lambda>r d. viewed l k U d \<and> r = (case p of Latest \<Rightarrow> l | LatestCompleted \<Rightarrow> k)) (viewed l k U)"
proof -
  have view: "view p d = (case p of Latest \<Rightarrow> l | LatestCompleted \<Rightarrow> k)" if "viewed l k U d" for d
    using that by (cases p) (simp_all add: viewed_def)
  let ?P = "\<lambda>c d. viewed l k U d \<and> pointed p d = None \<and> newest p d = Some c"
  have repoint: "triple (?P c) (write_file_sync (set_pointer p (ckID c))) (\<lambda>_. viewed l k U) (viewed l k U)" for c
  proof (rule triple_write)
    fix d assume d: "?P c d"
    then have "settled (set_pointer p (ckID c) d) \<and> view q (set_pointer p (ckID c) d) = view q d" for q
      by (intro settled_repoint) (simp_all add: viewed_def)
    then show "viewed l k U (set_pointer p (ckID c) d)" and "viewed l k U (set_pointer p (ckID c) d)"
      using d unfolding viewed_def unused_def by simp_all
  qed (simp_all, simp add: steady_def viewed_def)
  have miss: "triple (?P c) (andThen (write_file_sync (set_pointer p (ckID c))) (\<lambda>_. ret (Some c)))
      (\<lambda>r d. viewed l k U d \<and> r = Some c) (viewed l k U)" for c
    by (rule triple_andThen [OF repoint triple_ret]) simp
  have run: "case load_pointer p d of (Inl e, d') \<Rightarrow> viewed l k U d' | (Inr r, d') \<Rightarrow> viewed l k U d' \<and> r = view p d"
    if d: "viewed l k U d" for d
  proof (cases "pointed p d")
    case None
    show ?thesis
    proof (cases "newest p d")
      case (Some c)
      have "view p d = Some c" using None Some by (simp add: view_def)
      moreover have "load_pointer p d = andThen (write_file_sync (set_pointer p (ckID c))) (\<lambda>_. ret (Some c)) d"
        using None Some by (simp add: load_pointer_eq)
      ultimately show ?thesis using miss [of c] d None Some unfolding triple_def by presburger
    qed (use None d in \<open>simp add: load_pointer_eq view_def\<close>)
  qed (use d in \<open>simp add: load_pointer_eq view_def\<close>)
  show ?thesis
  proof (rule tripleI)
    show "viewed l k U t" if "viewed l k U s" "load_pointer p s = (Inl e, t)" for s e t
      using run [OF that(1)] that(2) by simp
    show "viewed l k U t \<and> x = (case p of Latest \<Rightarrow> l | LatestCompleted \<Rightarrow> k)"
      if "viewed l k U s" "load_pointer p s = (Inr x, t)" for s x t
      using run [OF that(1)] that(2) view [OF that(1)] by simp
  qed
qed

lemma load_pointer_keeps: "keeps (viewed l k U) (load_pointer p)"
  by (rule triple_weaken [OF load_pointer_view]) auto

lemma new_file_storage_keeps: "keeps (viewed l k U) (new_file_storage_with_options n)"
  unfolding new_file_storage_with_options_def maintain_def sweep_orphans_def
  by (intro keeps_rules keeps_io steady_viewed load_pointer_keeps enforce_retention_keeps triple_modify) simp

lemma delete_state_dirs_keeps: "keeps (viewed l k U) (delete_state_dirs i)"
  unfolding delete_state_dirs_def by (intro keeps_rules keeps_io steady_viewed triple_modify) simp

section \<open>The contract\<close>

record ('d, 'v, 'o) ck_storage =
  stSave :: "('v, 'o) ckpt \<Rightarrow> ('d, unit) op"
  stUpdateStatus :: "string \<Rightarrow> ck_status \<Rightarrow> ('d, unit) op"
  stLoad :: "('d, ('v, 'o) ckpt option) op"
  stLoadLatestCompleted :: "('d, ('v, 'o) ckpt option) op"
  stOpen :: "('d, unit) op" \<comment> \<open>construction: repair and retention\<close>
  stCleanup :: "string \<Rightarrow> ('d, unit) op" \<comment> \<open>\<^verbatim>\<open>DeleteStateDirs\<close>, which only \<^verbatim>\<open>FileStorage\<close> has\<close>

text \<open>
  \<open>holds l k U d\<close>: the latest checkpoint is \<open>l\<close>, the latest completed one \<open>k\<close>, the identifiers and times of
  \<open>U\<close> are new to \<open>d\<close>. An update that fails may leave the store outside \<open>sound\<close>.
\<close>

locale checkpoint_store =
  fixes st :: "('d, 'v, 'o) ck_storage"
    and sound :: "'d \<Rightarrow> bool"
    and holds :: "('v, 'o) ckpt option \<Rightarrow> ('v, 'o) ckpt option \<Rightarrow> ('v, 'o) ckpt set \<Rightarrow> 'd \<Rightarrow> bool"
  assumes saves: "ckStatus c = StatusPrepared \<Longrightarrow> (\<And>c'. c' \<in> U \<Longrightarrow> ckTimestamp c < ckTimestamp c' \<and> ckID c \<noteq> ckID c') \<Longrightarrow>
      triple (holds l k (insert c U)) (stSave st c) (\<lambda>_. holds (Some c) k U) (\<lambda>d. holds l k U d \<or> holds (Some c) k U d)"
    and promotes: "ckStatus c = StatusPrepared \<Longrightarrow>
      triple (holds (Some c) k U) (stUpdateStatus st (ckID c) StatusCompleted)
        (\<lambda>_. holds (Some (completed_of c)) (Some (completed_of c)) U)
        (\<lambda>d. sound d \<longrightarrow> holds (Some c) k U d \<or> holds (Some (completed_of c)) (Some (completed_of c)) U d)"
    and loads: "triple (holds l k U) (stLoad st) (\<lambda>r d. holds l k U d \<and> r = l) (holds l k U)"
    and loads_completed: "triple (holds l k U) (stLoadLatestCompleted st) (\<lambda>r d. holds l k U d \<and> r = k) (holds l k U)"
    and opens: "keeps (holds l k U) (stOpen st)"
    and cleans: "keeps (holds l k U) (stCleanup st i)"
    and completed_is: "holds l (Some c) U d \<Longrightarrow> is_completed c"
    and latest_completed_is: "holds (Some c) k U d \<Longrightarrow> is_completed c \<Longrightarrow> k = Some c"
    and holds_mono: "holds l k U d \<Longrightarrow> U' \<subseteq> U \<Longrightarrow> holds l k U' d"
    and holds_unique: "holds l k U d \<Longrightarrow> holds l' k' U' d \<Longrightarrow> l = l' \<and> k = k'"

text \<open>
  The file storage as it is used: constructed with the number of completed checkpoints to retain;
  every operation of a storage whose construction failed fails (\<^const>\<open>started\<close>), so a run does not get
  past its first load, and the operations of a run see a storage without a startup error.
\<close>

definition file_store :: "int \<Rightarrow> (('v, 'o) disk, 'v, 'o) ck_storage" where
  "file_store retain = (let fs = \<lparr>fsRetain = retain, fsStartupErr = None\<rparr> in
     \<lparr>stSave = save fs, stUpdateStatus = update_status fs, stLoad = load fs,
      stLoadLatestCompleted = load_latest_completed fs,
      stOpen = andThen (new_file_storage_with_options retain) (\<lambda>_. ret ()), stCleanup = delete_state_dirs\<rparr>)"

lemma triple_started: "triple P m Q E \<Longrightarrow> (\<And>d. P d \<Longrightarrow> E d) \<Longrightarrow> triple P (started fs m) Q E"
  unfolding started_def by (intro triple_option triple_fail)

lemma viewed_less: "viewed l k (insert c U) d \<Longrightarrow> viewed l k U d"
  by (simp add: viewed_def)

interpretation file_st: checkpoint_store "file_store retain" settled viewed
proof
  fix c :: "('a, 'b) ckpt" and U U' :: "('a, 'b) ckpt set" and l k l' k' :: "('a, 'b) ckpt option" and i and d :: "('a, 'b) disk"
  show "triple (viewed l k U) (stLoad (file_store retain)) (\<lambda>r d. viewed l k U d \<and> r = l) (viewed l k U)"
    using triple_started [OF load_pointer_view [of l k U Latest]] by (simp add: file_store_def Let_def load_def)
  show "triple (viewed l k U) (stLoadLatestCompleted (file_store retain)) (\<lambda>r d. viewed l k U d \<and> r = k) (viewed l k U)"
    using triple_started [OF load_pointer_view [of l k U LatestCompleted]] by (simp add: file_store_def Let_def load_latest_completed_def)
  show "keeps (viewed l k U) (stOpen (file_store retain))"
    by (simp add: file_store_def Let_def) (intro keeps_andThen new_file_storage_keeps keeps_ret)
  show "keeps (viewed l k U) (stCleanup (file_store retain) i)"
    by (simp add: file_store_def Let_def delete_state_dirs_keeps)
  show "viewed l (Some c) U d \<Longrightarrow> is_completed c"
    using completed_view_completed [of d c] by (simp add: viewed_def)
  show "k = Some c" if v: "viewed (Some c) k U d" "is_completed c"
  proof -
    have t: "tidy d" and l: "latest_view d = Some c" using v by (simp_all add: viewed_def settled_def)
    have "newest LatestCompleted d = Some c"
      using v view_in [OF t l] by (simp add: newest_Some [OF t] viewed_def settled_def)
    then show ?thesis using v by (auto simp: viewed_def settled_def)
  qed
  show "viewed l k U d \<Longrightarrow> U' \<subseteq> U \<Longrightarrow> viewed l k U' d"
    by (auto simp: viewed_def)
  show "viewed l k U d \<Longrightarrow> viewed l' k' U' d \<Longrightarrow> l = l' \<and> k = k'"
    by (simp add: viewed_def)
  assume p: "ckStatus c = StatusPrepared"
  show "triple (viewed (Some c) k U) (stUpdateStatus (file_store retain) (ckID c) StatusCompleted)
      (\<lambda>_. viewed (Some (completed_of c)) (Some (completed_of c)) U)
      (\<lambda>d. settled d \<longrightarrow> viewed (Some c) k U d \<or> viewed (Some (completed_of c)) (Some (completed_of c)) U d)"
    using update_status_completed [OF p] by (simp add: file_store_def Let_def promoting_def [abs_def])
  assume "\<And>c'. c' \<in> U \<Longrightarrow> ckTimestamp c < ckTimestamp c' \<and> ckID c \<noteq> ckID c'"
  from save_prepared [OF p this]
  show "triple (viewed l k (insert c U)) (stSave (file_store retain) c) (\<lambda>_. viewed (Some c) k U)
      (\<lambda>d. viewed l k U d \<or> viewed (Some c) k U d)"
    by (simp add: file_store_def Let_def save_def) (rule triple_started, simp add: saving_def [abs_def], simp add: viewed_less)
qed

lemma empty_disk_viewed: "(\<And>c. c \<in> U \<Longrightarrow> ckID c \<noteq> []) \<Longrightarrow> viewed None None U (empty_disk\<lparr>dFaults := fs\<rparr>)"
  by (auto simp: viewed_def settled_def tidy_def view_def pointed_def newest_def scan_def readable_def unused_def
      empty_disk_def get_pointer.simps)

end
