(* ===== verification/Txn_Sink.thy ===== *)
theory Txn_Sink
  imports Fallible
begin

text \<open>
  The transactional Kafka sink (\<^verbatim>\<open>sink/kafka_txn.go\<close>): one transaction per checkpoint interval, closed by
  a marker record with the checkpoint's identifier. The Kafka client is a parameter (\<open>kafka_client\<close>);
  the locale \<open>txn_broker\<close> states what the sink relies on: records of an open transaction are invisible
  under read-committed isolation, a commit makes all of them visible at once, a commit that reports
  an error did one or the other, beginning a transaction finds none open (the producer is fenced).
\<close>

datatype 'm kmsg = KRecord 'm | KMarker string string \<comment> \<open>transactional id, checkpoint id\<close>

record ('b, 'm) kafka_client =
  kNewClient :: "string \<Rightarrow> ('b, unit) op"
  kBegin :: "('b, unit) op"
  kProduce :: "'m kmsg \<Rightarrow> ('b, unit) op" \<comment> \<open>the error is the one the produce callback gets\<close>
  kFlush :: "('b, unit) op"
  kAbortBuffered :: "('b, unit) op"
  kEnd :: "bool \<Rightarrow> ('b, unit) op" \<comment> \<open>\<^verbatim>\<open>EndTransaction\<close> with \<^verbatim>\<open>TryCommit\<close> or \<^verbatim>\<open>TryAbort\<close>\<close>
  kMarkerVisible :: "string \<Rightarrow> string \<Rightarrow> ('b, bool) op" \<comment> \<open>read-committed scan of the marker topic\<close>

record ('b, 'r, 'm) sink_config =
  scClient :: "('b, 'm) kafka_client"
  scTxnID :: string
  scSerialize :: "'r \<Rightarrow> string + 'm"

record 'b txn_sink =
  tsBroker :: 'b
  tsRunning :: bool \<comment> \<open>\<^verbatim>\<open>client != nil\<close>\<close>
  tsWaiters :: "string list" \<comment> \<open>open channels by checkpoint id\<close>
  tsProduceErr :: "string option"

definition broker :: "('b, 'a) op \<Rightarrow> ('b txn_sink, 'a) op" where
  "broker m = zoom tsBroker (\<lambda>b s. s\<lparr>tsBroker := b\<rparr>) m"

definition set_produce_err :: "string \<Rightarrow> ('b txn_sink, unit) op" where
  "set_produce_err e = modify (\<lambda>s. case tsProduceErr s of None \<Rightarrow> s\<lparr>tsProduceErr := Some e\<rparr> | Some _ \<Rightarrow> s)"

definition clear_produce_err :: "('b txn_sink, unit) op" where
  "clear_produce_err = modify (\<lambda>s. s\<lparr>tsProduceErr := None\<rparr>)"

definition produce :: "('b, 'r, 'm) sink_config \<Rightarrow> 'm kmsg \<Rightarrow> ('b txn_sink, unit) op" where
  "produce sc m = andThen (attempt (broker (kProduce (scClient sc) m))) (\<lambda>r. case r of
     Inl e \<Rightarrow> set_produce_err e | Inr _ \<Rightarrow> ret ())"

definition signal :: "string \<Rightarrow> ('b txn_sink, unit) op" where
  "signal i = modify (\<lambda>s. s\<lparr>tsWaiters := removeAll i (tsWaiters s)\<rparr>)"

text \<open>\<^verbatim>\<open>Write\<close>: up to its loop, one data record of the loop, one barrier of the loop.\<close>

definition write_open :: "('b, 'r, 'm) sink_config \<Rightarrow> ('b txn_sink, unit) op" where
  "write_open sc =
     andThen (wrap ''txn kafka sink: client: '' (broker (kNewClient (scClient sc) (scTxnID sc)))) (\<lambda>_.
     andThen (modify (\<lambda>s. s\<lparr>tsRunning := True\<rparr>)) (\<lambda>_.
     wrap ''txn kafka sink: begin: '' (broker (kBegin (scClient sc)))))"

definition write_record :: "('b, 'r, 'm) sink_config \<Rightarrow> 'r \<Rightarrow> ('b txn_sink, unit) op" where
  "write_record sc r = (case scSerialize sc r of
     Inl e \<Rightarrow> set_produce_err (''serialize: '' @ e)
   | Inr m \<Rightarrow> produce sc (KRecord m))"

definition write_barrier :: "('b, 'r, 'm) sink_config \<Rightarrow> string \<Rightarrow> ('b txn_sink, string option) op" where
  "write_barrier sc i =
     andThen (produce sc (KMarker (scTxnID sc) i)) (\<lambda>_.
     andThen (attempt (broker (kFlush (scClient sc)))) (\<lambda>flush.
     andThen (gets tsProduceErr) (\<lambda>perr.
     andThen (modify (\<lambda>s. s\<lparr>tsWaiters := i # removeAll i (tsWaiters s)\<rparr>)) (\<lambda>_.
     ret (case flush of Inl e \<Rightarrow> Some e | Inr _ \<Rightarrow> perr)))))"

definition commit :: "('b, 'r, 'm) sink_config \<Rightarrow> string \<Rightarrow> ('b txn_sink, unit) op" where
  "commit sc i = andThen (gets tsRunning) (\<lambda>running.
     if \<not> running then fail (''txn kafka sink: commit '' @ i @ '': sink not running'')
     else andThen (wrap (''txn kafka sink: commit '' @ i @ '': '') (broker (kEnd (scClient sc) True))) (\<lambda>_.
          andThen (wrap (''txn kafka sink: begin after '' @ i @ '': '') (broker (kBegin (scClient sc)))) (\<lambda>_.
          andThen clear_produce_err (\<lambda>_. signal i))))"

definition abort :: "('b, 'r, 'm) sink_config \<Rightarrow> string \<Rightarrow> ('b txn_sink, unit) op" where
  "abort sc i = andThen (gets tsRunning) (\<lambda>running.
     if \<not> running then ret ()
     else andThen (wrap (''txn kafka sink: abort '' @ i @ '': '') (broker (kAbortBuffered (scClient sc)))) (\<lambda>_.
          andThen (wrap (''txn kafka sink: abort '' @ i @ '': '') (broker (kEnd (scClient sc) False))) (\<lambda>_.
          andThen (wrap (''txn kafka sink: begin after abort '' @ i @ '': '') (broker (kBegin (scClient sc)))) (\<lambda>_.
          andThen clear_produce_err (\<lambda>_. signal i)))))"

definition was_committed :: "('b, 'r, 'm) sink_config \<Rightarrow> string \<Rightarrow> ('b txn_sink, bool) op" where
  "was_committed sc i = broker (kMarkerVisible (scClient sc) (scTxnID sc) i)"

section \<open>What the sink relies on\<close>

locale txn_broker =
  fixes kc :: "('b, 'm) kafka_client"
    and vis :: "'b \<Rightarrow> 'm kmsg list" \<comment> \<open>what a read-committed consumer reads\<close>
    and opn :: "'b \<Rightarrow> 'm kmsg list" \<comment> \<open>the open transaction\<close>
  assumes new_client: "keeps (\<lambda>b. vis b = v) (kNewClient kc t)"
    and begin_txn: "triple (\<lambda>b. vis b = v) (kBegin kc) (\<lambda>_ b. vis b = v \<and> opn b = []) (\<lambda>b. vis b = v)"
    and produce_txn: "triple (\<lambda>b. vis b = v \<and> opn b = o') (kProduce kc m) (\<lambda>_ b. vis b = v \<and> opn b = o' @ [m]) (\<lambda>b. vis b = v)"
    and flush_txn: "triple (\<lambda>b. vis b = v \<and> opn b = o') (kFlush kc) (\<lambda>_ b. vis b = v \<and> opn b = o') (\<lambda>b. vis b = v)"
    and abort_buffered: "keeps (\<lambda>b. vis b = v) (kAbortBuffered kc)"
    and commit_txn: "triple (\<lambda>b. vis b = v \<and> opn b = o') (kEnd kc True) (\<lambda>_ b. vis b = v @ o') (\<lambda>b. vis b = v \<or> vis b = v @ o')"
    and abort_txn: "keeps (\<lambda>b. vis b = v) (kEnd kc False)"
    and marker: "triple (\<lambda>b. vis b = v) (kMarkerVisible kc t i) (\<lambda>r b. vis b = v \<and> r = (KMarker t i \<in> set v)) (\<lambda>b. vis b = v)"

text \<open>What the sink promises the coordinator.\<close>

lemma triple_split: "(\<And>e. triple (\<lambda>s. P s \<and> f s = e) m Q E) \<Longrightarrow> triple P m Q E"
  by (auto simp: triple_def)

lemma triple_broker:
  assumes "triple P m Q E"
  shows "triple (\<lambda>s. P (tsBroker s) \<and> R (s\<lparr>tsBroker := b\<rparr>)) (broker m)
    (\<lambda>x s. Q x (tsBroker s) \<and> R (s\<lparr>tsBroker := b\<rparr>)) (\<lambda>s. E (tsBroker s) \<and> R (s\<lparr>tsBroker := b\<rparr>))"
  using assms unfolding triple_def broker_def zoom_def by (fastforce split: prod.splits sum.splits)

lemma keeps_broker: "triple P m Q E \<Longrightarrow> triple (\<lambda>s. P (tsBroker s)) (broker m) (\<lambda>x s. Q x (tsBroker s)) (\<lambda>s. E (tsBroker s))"
  using triple_broker [of P m Q E "\<lambda>_. True"] by simp

lemma broker_err: 
  assumes "triple P m Q E"
  shows "triple (\<lambda>s. P (tsBroker s) \<and> tsProduceErr s = p) (broker m)
    (\<lambda>x s. Q x (tsBroker s) \<and> tsProduceErr s = p) (\<lambda>s. E (tsBroker s) \<and> tsProduceErr s = p)"
  using triple_broker [OF assms, of "\<lambda>s. tsProduceErr s = p"] by simp

locale txn_sink_ops = txn_broker "scClient sc" vis opn
  for sc :: "('b, 'r, 'm) sink_config" and vis opn
begin

definition shows_only :: "'m kmsg list \<Rightarrow> 'b txn_sink \<Rightarrow> bool" where
  "shows_only v s \<longleftrightarrow> vis (tsBroker s) = v"

text \<open>\<open>holding v o'\<close>: without a produce error the open transaction is exactly \<open>o'\<close>.\<close>

definition holding :: "'m kmsg list \<Rightarrow> 'm kmsg list \<Rightarrow> 'b txn_sink \<Rightarrow> bool" where
  "holding v o' s \<longleftrightarrow> vis (tsBroker s) = v \<and> (tsProduceErr s = None \<longrightarrow> opn (tsBroker s) = o')"

lemma holding_shows: "holding v o' s \<Longrightarrow> shows_only v s"
  by (simp add: holding_def shows_only_def)

lemma keeps_shows_broker: "keeps (\<lambda>b. vis b = v) m \<Longrightarrow> keeps (shows_only v) (broker m)"
  unfolding shows_only_def by (rule keeps_broker)

lemma opens_txn: "triple (\<lambda>s. shows_only v s \<and> tsProduceErr s = None) (write_open sc) (\<lambda>_. holding v []) (shows_only v)"
  unfolding write_open_def
proof (intro triple_andThen triple_wrap)
  show "triple (\<lambda>s. shows_only v s \<and> tsProduceErr s = None) (broker (kNewClient (scClient sc) (scTxnID sc)))
      (\<lambda>_ s. shows_only v s \<and> tsProduceErr s = None) (shows_only v)"
    by (rule triple_weaken [OF broker_err [OF new_client [of v]]]) (auto simp: shows_only_def)
  show "triple (\<lambda>s. shows_only v s \<and> tsProduceErr s = None) (modify (\<lambda>s. s\<lparr>tsRunning := True\<rparr>))
      (\<lambda>_ s. shows_only v s \<and> tsProduceErr s = None) (shows_only v)"
    by (rule triple_modify) (simp add: shows_only_def)
  show "triple (\<lambda>s. shows_only v s \<and> tsProduceErr s = None) (broker (kBegin (scClient sc))) (\<lambda>_. holding v []) (shows_only v)"
    by (rule triple_weaken [OF keeps_broker [OF begin_txn [of v]]]) (auto simp: shows_only_def holding_def)
qed

lemma keeps_vis:
  assumes "\<And>o'. triple (\<lambda>b. vis b = v \<and> opn b = o') m (\<lambda>_ b. vis b = v \<and> Q o' b) (\<lambda>b. vis b = v)"
  shows "keeps (\<lambda>b. vis b = v) m"
proof (rule tripleI)
  fix s e t assume s: "vis s = v"
  show "m s = (Inl e, t) \<Longrightarrow> vis t = v" using tripleD(1) [OF assms [of "opn s"], of s e t] s by simp
  show "m s = (Inr x, t) \<Longrightarrow> vis t = v" for x using tripleD(2) [OF assms [of "opn s"], of s x t] s by simp
qed

lemma produces: "triple (holding v o') (produce sc m) (\<lambda>_. holding v (o' @ [m])) (\<lambda>_. False)"
  unfolding produce_def
proof (rule triple_andThen)
  let ?Q = "\<lambda>r s. vis (tsBroker s) = v \<and> (r = Inr () \<longrightarrow> holding v (o' @ [m]) s)"
  show "triple (holding v o') (attempt (broker (kProduce (scClient sc) m))) ?Q (\<lambda>_. False)"
  proof (rule triple_attempt)
    let ?P = "\<lambda>e s. holding v o' s \<and> (tsProduceErr s = None) = e"
    have ok: "triple (?P True) (broker (kProduce (scClient sc) m)) (\<lambda>x. ?Q (Inr x)) (\<lambda>s. \<forall>e. ?Q (Inl e) s)"
      by (rule triple_weaken [OF broker_err [OF produce_txn [of v o' m], of None]]) (auto simp: holding_def)
    have "keeps (\<lambda>b. vis b = v) (kProduce (scClient sc) m)" by (rule keeps_vis [OF produce_txn])
    from triple_broker [OF this, of "\<lambda>s. tsProduceErr s \<noteq> None"]
    have err: "triple (?P False) (broker (kProduce (scClient sc) m)) (\<lambda>x. ?Q (Inr x)) (\<lambda>s. \<forall>e. ?Q (Inl e) s)"
      by (rule triple_weaken) (auto simp: holding_def)
    show "triple (holding v o') (broker (kProduce (scClient sc) m)) (\<lambda>x. ?Q (Inr x)) (\<lambda>s. \<forall>e. ?Q (Inl e) s)"
    proof (rule triple_split [where f = "\<lambda>s. tsProduceErr s = None"])
      fix e show "triple (?P e) (broker (kProduce (scClient sc) m)) (\<lambda>x. ?Q (Inr x)) (\<lambda>s. \<forall>e. ?Q (Inl e) s)"
        by (cases e) (simp_all only: ok err)
    qed
  qed
  show "triple (?Q r) (case r of Inl e \<Rightarrow> set_produce_err e | Inr _ \<Rightarrow> ret ()) (\<lambda>_. holding v (o' @ [m])) (\<lambda>_. False)" for r
    unfolding set_produce_err_def
    by (intro triple_sum triple_modify triple_ret) (auto simp: holding_def split: option.splits)
qed

lemma writes_record:
  "triple (holding v o') (write_record sc r)
     (\<lambda>_. holding v (o' @ (case scSerialize sc r of Inr m \<Rightarrow> [KRecord m] | Inl _ \<Rightarrow> []))) (\<lambda>_. False)"
  unfolding write_record_def set_produce_err_def
  by (cases "scSerialize sc r")
    (auto intro!: produces triple_modify simp: holding_def split: option.splits)

lemma writes_barrier:
  "triple (holding v o') (write_barrier sc i)
     (\<lambda>r s. shows_only v s \<and> (r = None \<longrightarrow> tsProduceErr s = None \<and> opn (tsBroker s) = o' @ [KMarker (scTxnID sc) i])) (\<lambda>_. False)"
  unfolding write_barrier_def
proof (rule triple_andThen [OF produces])
  let ?o = "o' @ [KMarker (scTxnID sc) i]"
  let ?R = "\<lambda>r s. shows_only v s \<and> (r = Inr () \<longrightarrow> holding v ?o s)"
  have "triple (holding v ?o) (broker (kFlush (scClient sc))) (\<lambda>x. ?R (Inr x)) (\<lambda>s. \<forall>e. ?R (Inl e) s)"
  proof (rule tripleI)
    fix s e t assume s: "holding v ?o s" and run: "broker (kFlush (scClient sc)) s = (Inl e, t)"
    show "\<forall>e. ?R (Inl e) t"
      using tripleD(1) [OF keeps_shows_broker [OF keeps_vis [OF flush_txn]] holding_shows [OF s] run] by simp
  next
    fix s x t assume s: "holding v ?o s" and run: "broker (kFlush (scClient sc)) s = (Inr x, t)"
    have v: "shows_only v t"
      using tripleD(2) [OF keeps_shows_broker [OF keeps_vis [OF flush_txn]] holding_shows [OF s] run] .
    have "holding v ?o t"
    proof (cases "tsProduceErr s")
      case None
      then have "vis (tsBroker s) = v \<and> opn (tsBroker s) = ?o" using s by (simp add: holding_def)
      then show ?thesis using tripleD(2) [OF keeps_broker [OF flush_txn [of v ?o]], of s x t] run by (simp add: holding_def)
    next
      case (Some p)
      then have "tsProduceErr t = Some p" using run by (auto simp: broker_def zoom_def split: prod.splits)
      then show ?thesis using v by (simp add: holding_def shows_only_def)
    qed
    then show "?R (Inr x) t" using v by simp
  qed
  then have flush: "triple (holding v ?o) (attempt (broker (kFlush (scClient sc)))) ?R (\<lambda>_. False)"
    by (rule triple_attempt)
  show "triple (holding v ?o) (andThen (attempt (broker (kFlush (scClient sc)))) (\<lambda>flush.
      andThen (gets tsProduceErr) (\<lambda>perr. andThen (modify (\<lambda>s. s\<lparr>tsWaiters := i # removeAll i (tsWaiters s)\<rparr>)) (\<lambda>_.
      ret (case flush of Inl e \<Rightarrow> Some e | Inr _ \<Rightarrow> perr)))))
      (\<lambda>r s. shows_only v s \<and> (r = None \<longrightarrow> tsProduceErr s = None \<and> opn (tsBroker s) = ?o)) (\<lambda>_. False)" for x :: unit
  proof (rule triple_andThen [OF flush])
    fix r
    show "triple (?R r) (andThen (gets tsProduceErr) (\<lambda>perr. andThen (modify (\<lambda>s. s\<lparr>tsWaiters := i # removeAll i (tsWaiters s)\<rparr>)) (\<lambda>_.
      ret (case r of Inl e \<Rightarrow> Some e | Inr _ \<Rightarrow> perr))))
      (\<lambda>r s. shows_only v s \<and> (r = None \<longrightarrow> tsProduceErr s = None \<and> opn (tsBroker s) = ?o)) (\<lambda>_. False)"
      by (cases r) (simp_all add: triple_def op_defs shows_only_def holding_def)
  qed
qed

lemma begins: "triple (shows_only v) (broker (kBegin (scClient sc))) (\<lambda>_ s. vis (tsBroker s) = v \<and> opn (tsBroker s) = []) (shows_only v)"
  unfolding shows_only_def by (rule keeps_broker [OF begin_txn])

lemma fresh_txn:
  "triple (\<lambda>s. vis (tsBroker s) = v \<and> opn (tsBroker s) = []) (andThen clear_produce_err (\<lambda>_. signal i)) (\<lambda>_. holding v []) E"
  by (simp add: triple_def op_defs clear_produce_err_def signal_def holding_def)

lemma commits:
  "triple (\<lambda>s. vis (tsBroker s) = v \<and> opn (tsBroker s) = o') (commit sc i) (\<lambda>_. holding (v @ o') []) (\<lambda>s. shows_only v s \<or> shows_only (v @ o') s)"
proof -
  let ?E = "\<lambda>s. shows_only v s \<or> shows_only (v @ o') s"
  have e: "triple (\<lambda>s. vis (tsBroker s) = v \<and> opn (tsBroker s) = o') (broker (kEnd (scClient sc) True)) (\<lambda>_. shows_only (v @ o')) ?E"
    unfolding shows_only_def by (rule keeps_broker [OF commit_txn])
  have b: "triple (shows_only (v @ o')) (broker (kBegin (scClient sc))) (\<lambda>_ s. vis (tsBroker s) = v @ o' \<and> opn (tsBroker s) = []) ?E"
    by (rule triple_weaken [OF begins]) auto
  have g: "triple P (gets tsRunning) (\<lambda>_. P) ?E" for P by (rule triple_weaken [OF triple_gets]) auto
  show ?thesis unfolding commit_def
    by (rule triple_andThen [OF g], rule triple_if, rule triple_fail, simp add: shows_only_def)
      (rule triple_andThen [OF triple_wrap [OF e]], rule triple_andThen [OF triple_wrap [OF b]], rule fresh_txn)
qed

lemma aborts: "triple (shows_only v) (abort sc i) (\<lambda>_. shows_only v) (shows_only v)"
proof -
  have b: "triple (shows_only v) (broker (kBegin (scClient sc))) (\<lambda>_. shows_only v) (shows_only v)"
    by (rule triple_weaken [OF begins]) (auto simp: shows_only_def)
  show ?thesis unfolding abort_def clear_produce_err_def signal_def
    by (intro keeps_rules keeps_shows_broker abort_buffered abort_txn b triple_modify) (simp_all add: shows_only_def)
qed

lemma probes: "triple (shows_only v) (was_committed sc i) (\<lambda>r s. shows_only v s \<and> r = (KMarker (scTxnID sc) i \<in> set v)) (shows_only v)"
  unfolding was_committed_def shows_only_def by (rule keeps_broker [OF marker])

end

end
