(* ===== verification/Coordinator.thy ===== *)
theory Coordinator
  imports Checkpoint_Laws Txn_Sink
begin

text \<open>
  The two-phase checkpoint protocol (\<^verbatim>\<open>checkpoint/coordinator.go\<close>) and the recovery decision of the
  engine (\<^verbatim>\<open>resolveCoordinatedRecovery\<close> in \<^verbatim>\<open>engine.go\<close>). \<open>finalize\<close> is cut at its durable effects, so that
  a crash can be placed between them. The test hook is not installed. Storage and sink are reached
  through \<open>cenv\<close>; time is read from a clock that is a function of a tick counter.
\<close>

record ('v, 'o) pending_ckpt =
  pOffsets :: "'o option"
  pState :: "(string \<times> 'v) list"
  pStateDirs :: "(string \<times> string) list"
  pPrepared :: bool
  pSinkErr :: "string option"

record ('v, 'o) coordinator =
  coPending :: "(string \<times> ('v, 'o) pending_ckpt) list"
  coHalted :: bool
  coEvents :: "string list"
  coFatal :: "string option" \<comment> \<open>a channel with room for one error\<close>

definition new_coordinator :: "('v, 'o) coordinator" where
  "new_coordinator = \<lparr>coPending = [], coHalted = False, coEvents = [], coFatal = None\<rparr>"

record ('d, 'b, 'v, 'o) cworld =
  cwDisk :: 'd
  cwSink :: "'b txn_sink"
  cwCoord :: "('v, 'o) coordinator"
  cwTick :: nat

record ('d, 'b, 'r, 'm, 'v, 'o) cenv =
  ceStorage :: "('d, 'v, 'o) ck_storage"
  ceSink :: "('b, 'r, 'm) sink_config"
  ceNow :: "nat \<Rightarrow> gotime"
  ceCommitOffsets :: "('o \<Rightarrow> ('b, unit) op) option"

definition on_disk :: "('d, 'a) op \<Rightarrow> (('d, 'b, 'v, 'o) cworld, 'a) op" where
  "on_disk m = zoom cwDisk (\<lambda>d w. w\<lparr>cwDisk := d\<rparr>) m"

definition on_sink :: "('b txn_sink, 'a) op \<Rightarrow> (('d, 'b, 'v, 'o) cworld, 'a) op" where
  "on_sink m = zoom cwSink (\<lambda>s w. w\<lparr>cwSink := s\<rparr>) m"

definition on_coord :: "(('v, 'o) coordinator \<Rightarrow> ('v, 'o) coordinator) \<Rightarrow> (('d, 'b, 'v, 'o) cworld, unit) op" where
  "on_coord f = modify (\<lambda>w. w\<lparr>cwCoord := f (cwCoord w)\<rparr>)"

definition now :: "('d, 'b, 'r, 'm, 'v, 'o) cenv \<Rightarrow> (('d, 'b, 'v, 'o) cworld, gotime) op" where
  "now ce = andThen (gets cwTick) (\<lambda>n. andThen (modify (\<lambda>w. w\<lparr>cwTick := Suc n\<rparr>)) (\<lambda>_. ret (ceNow ce n)))"

section \<open>Callbacks\<close>

definition ensure :: "string \<Rightarrow> ('v, 'o) coordinator \<Rightarrow> ('v, 'o) pending_ckpt" where
  "ensure i c = (case map_of (coPending c) i of Some p \<Rightarrow> p
     | None \<Rightarrow> \<lparr>pOffsets = None, pState = [], pStateDirs = [], pPrepared = False, pSinkErr = None\<rparr>)"

definition put_pending :: "string \<Rightarrow> ('v, 'o) pending_ckpt \<Rightarrow> ('v, 'o) coordinator \<Rightarrow> ('v, 'o) coordinator" where
  "put_pending i p c = c\<lparr>coPending := AList.update i p (coPending c)\<rparr>"

definition on_barrier_injected :: "string \<Rightarrow> 'o \<Rightarrow> ('v, 'o) coordinator \<Rightarrow> ('v, 'o) coordinator" where
  "on_barrier_injected i offs c = put_pending i ((ensure i c)\<lparr>pOffsets := Some offs\<rparr>) c"

definition on_state_snapshot :: "string \<Rightarrow> (string \<times> 'v) list \<Rightarrow> (string \<times> string) list \<Rightarrow> ('v, 'o) coordinator \<Rightarrow> ('v, 'o) coordinator" where
  "on_state_snapshot i st dirs c = put_pending i ((ensure i c)\<lparr>pState := st, pStateDirs := dirs\<rparr>) c"

definition on_sink_prepared :: "string \<Rightarrow> string option \<Rightarrow> ('v, 'o) coordinator \<Rightarrow> ('v, 'o) coordinator" where
  "on_sink_prepared i e c =
     (let c' = put_pending i ((ensure i c)\<lparr>pPrepared := True, pSinkErr := e\<rparr>) c
      in if coHalted c' then c' else c'\<lparr>coEvents := coEvents c' @ [i]\<rparr>)"

definition report_fatal :: "string \<Rightarrow> ('v, 'o) coordinator \<Rightarrow> ('v, 'o) coordinator" where
  "report_fatal e c = (case coFatal c of None \<Rightarrow> c\<lparr>coFatal := Some e\<rparr> | Some _ \<Rightarrow> c)"

definition stop :: "('v, 'o) coordinator \<Rightarrow> ('v, 'o) coordinator" where
  "stop c = c\<lparr>coHalted := True\<rparr>"

section \<open>Finalization\<close>

definition abort_fatal :: "('d, 'b, 'r, 'm, 'v, 'o) cenv \<Rightarrow> string \<Rightarrow> string \<Rightarrow> (('d, 'b, 'v, 'o) cworld, unit) op" where
  "abort_fatal ce i e =
     andThen (unless_err (on_sink (abort (ceSink ce) i))) (\<lambda>_.
     andThen (unless_err (on_disk (stCleanup (ceStorage ce) i))) (\<lambda>_.
     on_coord (report_fatal e)))"

definition finalize_take :: "string \<Rightarrow> (('d, 'b, 'v, 'o) cworld, ('v, 'o) pending_ckpt option) op" where
  "finalize_take i = andThen (gets cwCoord) (\<lambda>c.
     if coHalted c then ret None
     else andThen (on_coord (\<lambda>c. c\<lparr>coPending := AList.delete i (coPending c)\<rparr>)) (\<lambda>_. ret (map_of (coPending c) i)))"

definition prepared_ckpt :: "string \<Rightarrow> string \<Rightarrow> gotime \<Rightarrow> ('v, 'o) pending_ckpt \<Rightarrow> ('v, 'o) ckpt" where
  "prepared_ckpt txn i t p = \<lparr>ckID = i, ckTimestamp = t, ckOperators = pState p,
     ckSource = (case pOffsets p of None \<Rightarrow> [] | Some offs \<Rightarrow> [(''offset'', offs)]),
     ckStatus = StatusPrepared, ckTxnID = txn, ckStateDirs = pStateDirs p\<rparr>"

text \<open>The result says whether the protocol goes on.\<close>

definition finalize_persist :: "('d, 'b, 'r, 'm, 'v, 'o) cenv \<Rightarrow> string \<Rightarrow> ('v, 'o) pending_ckpt \<Rightarrow> (('d, 'b, 'v, 'o) cworld, bool) op" where
  "finalize_persist ce i p = (case pSinkErr p of
     Some e \<Rightarrow> andThen (abort_fatal ce i (''checkpoint '' @ i @ '': sink prepare failed: '' @ e)) (\<lambda>_. ret False)
   | None \<Rightarrow> andThen (now ce) (\<lambda>t.
       andThen (attempt (on_disk (stSave (ceStorage ce) (prepared_ckpt (scTxnID (ceSink ce)) i t p)))) (\<lambda>r. case r of
         Inl e \<Rightarrow> andThen (abort_fatal ce i (''checkpoint '' @ i @ '': persist prepared: '' @ e)) (\<lambda>_. ret False)
       | Inr _ \<Rightarrow> ret True)))"

definition finalize_commit :: "('d, 'b, 'r, 'm, 'v, 'o) cenv \<Rightarrow> string \<Rightarrow> (('d, 'b, 'v, 'o) cworld, bool) op" where
  "finalize_commit ce i = andThen (attempt (on_sink (commit (ceSink ce) i))) (\<lambda>r. case r of
     Inl e \<Rightarrow> andThen (on_coord (report_fatal (''checkpoint '' @ i @ '': sink commit: '' @ e))) (\<lambda>_. ret False)
   | Inr _ \<Rightarrow> ret True)"

definition finalize_promote :: "('d, 'b, 'r, 'm, 'v, 'o) cenv \<Rightarrow> string \<Rightarrow> (('d, 'b, 'v, 'o) cworld, bool) op" where
  "finalize_promote ce i = andThen (attempt (on_disk (stUpdateStatus (ceStorage ce) i StatusCompleted))) (\<lambda>r. case r of
     Inl e \<Rightarrow> andThen (on_coord (report_fatal (''checkpoint '' @ i @ '': persist completed: '' @ e))) (\<lambda>_. ret False)
   | Inr _ \<Rightarrow> ret True)"

definition finalize_offsets :: "('d, 'b, 'r, 'm, 'v, 'o) cenv \<Rightarrow> ('v, 'o) pending_ckpt \<Rightarrow> (('d, 'b, 'v, 'o) cworld, unit) op" where
  "finalize_offsets ce p = (case (ceCommitOffsets ce, pOffsets p) of
     (Some commit_offsets, Some offs) \<Rightarrow> unless_err (on_sink (broker (commit_offsets offs)))
   | _ \<Rightarrow> ret ())"

definition finalize :: "('d, 'b, 'r, 'm, 'v, 'o) cenv \<Rightarrow> string \<Rightarrow> (('d, 'b, 'v, 'o) cworld, unit) op" where
  "finalize ce i = andThen (finalize_take i) (\<lambda>p. case p of None \<Rightarrow> ret ()
     | Some p \<Rightarrow> andThen (finalize_persist ce i p) (\<lambda>persisted. if \<not> persisted then ret () else
         andThen (finalize_commit ce i) (\<lambda>committed. if \<not> committed then ret () else
         andThen (finalize_promote ce i) (\<lambda>completed. if \<not> completed then ret () else finalize_offsets ce p))))"

section \<open>Recovery\<close>

definition resolve_coordinated_recovery :: "('d, 'b, 'r, 'm, 'v, 'o) cenv \<Rightarrow> (('d, 'b, 'v, 'o) cworld, ('v, 'o) ckpt option) op" where
  "resolve_coordinated_recovery ce =
     andThen (wrap ''load latest checkpoint: '' (on_disk (stLoad (ceStorage ce)))) (\<lambda>l. case l of
       None \<Rightarrow> ret None
     | Some latest \<Rightarrow>
         if is_completed latest then ret (Some latest)
         else andThen (wrap (''cannot resolve prepared checkpoint '' @ ckID latest @ '': '') (on_sink (was_committed (ceSink ce) (ckID latest))))
           (\<lambda>committed. if committed
              then andThen (wrap (''promote checkpoint '' @ ckID latest @ '': '') (on_disk (stUpdateStatus (ceStorage ce) (ckID latest) StatusCompleted)))
                     (\<lambda>_. ret (Some (latest\<lparr>ckStatus := StatusCompleted\<rparr>)))
              else andThen (unless_err (on_sink (abort (ceSink ce) (ckID latest))))
                     (\<lambda>_. on_disk (stLoadLatestCompleted (ceStorage ce)))))"

end
