(* ===== verification/Coordinated_Run.thy ===== *)
theory Coordinated_Run
  imports Coordinator
begin

text \<open>
  A job in exactly-once mode, across crashes (\<^verbatim>\<open>engine.go\<close>, with the per-partition Kafka reader of
  \<^verbatim>\<open>source/kafka_partition_manager.go\<close>). A run is the volatile state of one process: the reader's
  positions, the barrier injector, the records between injector and sink, the finalize worker. The
  system is a world (disk, broker, clock) and perhaps a run. Steps are the actions of the goroutines
  in any order, and a crash, which drops the run and keeps the world.

  The operators between injector and sink are a parameter (\<open>pipeline\<close>): which outputs and which
  state a stretch of input between two barriers may lead to.
\<close>

section \<open>The barrier injector\<close>

datatype ('k, 'x) item = Elem 'k nat 'x | Mark gotime

definition mk_id :: "gotime \<Rightarrow> nat \<Rightarrow> string \<Rightarrow> string" where
  "mk_id nonce n suffix = ''cp-'' @ itoa (unix_nano nonce) @ ''-'' @ dec n @ suffix"

definition barrier_suffixes :: "string list" where
  "barrier_suffixes = [[], ''-shutdown'', ''-final'']"

type_synonym 'k offsets = "('k \<times> nat) list"

definition track_offset :: "('k, 'x) item \<Rightarrow> 'k offsets \<Rightarrow> 'k offsets" where
  "track_offset i offs = (case i of Elem k n _ \<Rightarrow> AList.update k (n + 1) offs | Mark _ \<Rightarrow> offs)"

section \<open>Runs\<close>

record ('p, 'i, 'r, 'v) pipeline =
  piInit :: 'p
  piRuns :: "'p \<Rightarrow> 'i list \<Rightarrow> 'r list \<Rightarrow> 'p \<Rightarrow> bool"
  piSnapshot :: "'p \<Rightarrow> (string \<times> 'v) list"
  piRestore :: "(string \<times> 'v) list \<Rightarrow> string + 'p"

datatype ('v, 'o) worker = Idle | Persisted string "('v, 'o) pending_ckpt" | Committed string "('v, 'o) pending_ckpt"

record ('k, 'x, 'p, 'r, 'v) run =
  rnNonce :: gotime
  rnCheckpointID :: nat
  rnPos :: "'k \<Rightarrow> nat" \<comment> \<open>next offset of every partition's reader\<close>
  rnOffsets :: "'k offsets" \<comment> \<open>the injector's map\<close>
  rnSegment :: "('k, 'x) item list" \<comment> \<open>forwarded since the last barrier\<close>
  rnQueue :: "(string \<times> ('k, 'x) item list) list" \<comment> \<open>barriers that have not reached the sink, with what precedes them\<close>
  rnPipe :: 'p \<comment> \<open>the operators, as the last barrier left them\<close>
  rnOut :: "'r list" \<comment> \<open>written to the sink since that barrier\<close>
  rnWorker :: "('v, 'k offsets) worker"

record ('d, 'b, 'k, 'x, 'p, 'r, 'v) system =
  syWorld :: "('d, 'b, 'v, 'k offsets) cworld"
  syRun :: "('k, 'x, 'p, 'r, 'v) run option"

record ('d, 'b, 'r, 'm, 'v, 'k, 'x, 'p) job =
  jbEnv :: "('d, 'b, 'r, 'm, 'v, 'k offsets) cenv"
  jbPipe :: "('p, ('k, 'x) item, 'r, 'v) pipeline"
  jbTopic :: "'k \<Rightarrow> nat \<Rightarrow> 'x" \<comment> \<open>the input, by partition and offset\<close>
  jbStart :: "'k \<Rightarrow> nat" \<comment> \<open>the configured start offset\<close>

definition offset_at :: "('k \<Rightarrow> nat) \<Rightarrow> 'k offsets \<Rightarrow> 'k \<Rightarrow> nat" where
  "offset_at start offs k = (case map_of offs k of Some n \<Rightarrow> n | None \<Rightarrow> start k)"

text \<open>
  \<^verbatim>\<open>restoreSourceOffset\<close>, and the reader's choice between a restored and the configured offset. A position
  that \<^verbatim>\<open>RestoreOffset\<close> cannot decode is only logged, and the reader starts at its configured offset; positions
  are kept decoded here, as \<^verbatim>\<open>CheckpointOffset\<close> wrote them, so this branch does not arise.
\<close>

definition restore_source_offset :: "('k \<Rightarrow> nat) \<Rightarrow> ('v, 'k offsets) ckpt option \<Rightarrow> 'k \<Rightarrow> nat" where
  "restore_source_offset start ck = (case ck of None \<Rightarrow> start
     | Some c \<Rightarrow> (case map_of (ckSource c) ''offset'' of None \<Rightarrow> start | Some offs \<Rightarrow> offset_at start offs))"

text \<open>\<^verbatim>\<open>restoreWorkersFromCheckpoint\<close> or \<^verbatim>\<open>resetWorkingState\<close>.\<close>

definition restore_workers :: "('p, 'i, 'r, 'v) pipeline \<Rightarrow> ('v, 'o) ckpt option \<Rightarrow> ('w, 'p) op" where
  "restore_workers pl ck = (case ck of None \<Rightarrow> ret (piInit pl)
     | Some c \<Rightarrow> (case piRestore pl (ckOperators c) of Inl e \<Rightarrow> fail (''weibo: restore operator state: '' @ e) | Inr p \<Rightarrow> ret p))"

text \<open>A new process: the client of the sink is nil, the coordinator new.\<close>

definition new_process :: "('d, 'b, 'v, 'o) cworld \<Rightarrow> ('d, 'b, 'v, 'o) cworld" where
  "new_process w = w\<lparr>cwSink := (cwSink w)\<lparr>tsRunning := False, tsWaiters := [], tsProduceErr := None\<rparr>, cwCoord := new_coordinator\<rparr>"

definition start_run :: "('d, 'b, 'r, 'm, 'v, 'k, 'x, 'p) job \<Rightarrow>
    (('d, 'b, 'v, 'k offsets) cworld, ('k, 'x, 'p, 'r, 'v) run) op" where
  "start_run jb =
     andThen (modify new_process) (\<lambda>_.
     andThen (on_disk (stOpen (ceStorage (jbEnv jb)))) (\<lambda>_.
     andThen (wrap ''weibo: recovery: '' (resolve_coordinated_recovery (jbEnv jb))) (\<lambda>ck.
     andThen (restore_workers (jbPipe jb) ck) (\<lambda>p.
     andThen (on_sink (write_open (ceSink (jbEnv jb)))) (\<lambda>_.
     andThen (now (jbEnv jb)) (\<lambda>nonce.
     ret \<lparr>rnNonce = nonce, rnCheckpointID = 0, rnPos = restore_source_offset (jbStart jb) ck, rnOffsets = [],
          rnSegment = [], rnQueue = [], rnPipe = p, rnOut = [], rnWorker = Idle\<rparr>))))))"

section \<open>Steps\<close>

text \<open>A record, or a watermark, from the source passes the injector.\<close>

definition forward :: "('k, 'x) item \<Rightarrow> ('k, 'x, 'p, 'r, 'v) run \<Rightarrow> ('k, 'x, 'p, 'r, 'v) run" where
  "forward i r = r\<lparr>rnOffsets := track_offset i (rnOffsets r), rnSegment := rnSegment r @ [i]\<rparr>"

definition read_record :: "('d, 'b, 'r, 'm, 'v, 'k, 'x, 'p) job \<Rightarrow> 'k \<Rightarrow> ('k, 'x, 'p, 'r, 'v) run \<Rightarrow> ('k, 'x, 'p, 'r, 'v) run" where
  "read_record jb k r = (forward (Elem k (rnPos r k) (jbTopic jb k (rnPos r k))) r)\<lparr>rnPos := (rnPos r)(k := rnPos r k + 1)\<rparr>"

text \<open>\<^verbatim>\<open>barrier\<close> in \<^verbatim>\<open>injectBarriers\<close>, with \<^verbatim>\<open>registerAlignedOffsets\<close>.\<close>

definition inject_barrier :: "string \<Rightarrow> ('k, 'x, 'p, 'r, 'v) run \<Rightarrow> ('d, 'b, 'v, 'k offsets) cworld \<Rightarrow>
    ('d, 'b, 'v, 'k offsets) cworld \<times> ('k, 'x, 'p, 'r, 'v) run" where
  "inject_barrier suffix r w =
     (let n = Suc (rnCheckpointID r); i = mk_id (rnNonce r) n suffix
      in (w\<lparr>cwCoord := on_barrier_injected i (rnOffsets r) (cwCoord w)\<rparr>,
          r\<lparr>rnCheckpointID := n, rnQueue := rnQueue r @ [(i, rnSegment r)], rnSegment := []\<rparr>))"

text \<open>A barrier reaches \<^verbatim>\<open>barrierDetect\<close> and then the sink.\<close>

definition sink_barrier :: "('d, 'b, 'r, 'm, 'v, 'o) cenv \<Rightarrow> string \<Rightarrow> (string \<times> 'v) list \<Rightarrow> (('d, 'b, 'v, 'o) cworld, unit) op" where
  "sink_barrier ce i snaps =
     andThen (on_coord (on_state_snapshot i snaps [])) (\<lambda>_.
     andThen (on_sink (write_barrier (ceSink ce) i)) (\<lambda>e.
     on_coord (on_sink_prepared i e)))"

text \<open>The deferred function of \<^verbatim>\<open>Write\<close>.\<close>

definition write_close :: "('b, 'r, 'm) sink_config \<Rightarrow> ('b txn_sink, unit) op" where
  "write_close sc = andThen (unless_err (broker (kAbortBuffered (scClient sc)))) (\<lambda>_. unless_err (broker (kEnd (scClient sc) False)))"

definition take_event :: "('d, 'b, 'v, 'o) cworld \<Rightarrow> ('d, 'b, 'v, 'o) cworld" where
  "take_event w = w\<lparr>cwCoord := (cwCoord w)\<lparr>coEvents := tl (coEvents (cwCoord w))\<rparr>\<rparr>"

text \<open>
  What may go wrong is switched off by three conditions: \<open>prompt\<close>, that the unwinding after a fatal
  coordination error precedes the finalization of another checkpoint; \<open>whole\<close>, that no fault falls
  between the two writes of a promotion; \<open>lively\<close>, that a partition that was read at all was read in this
  run before the first barrier.
\<close>

record conditions =
  prompt :: bool
  whole :: bool
  lively :: bool

inductive job_step :: "conditions \<Rightarrow> ('d \<Rightarrow> bool) \<Rightarrow> ('d, 'b, 'r, 'm, 'v, 'k, 'x, 'p) job \<Rightarrow>
    ('d, 'b, 'k, 'x, 'p, 'r, 'v) system \<Rightarrow> ('d, 'b, 'k, 'x, 'p, 'r, 'v) system \<Rightarrow> bool" for cs sound jb where
  start: "start_run jb w = (Inr r, w') \<Longrightarrow> (whole cs \<longrightarrow> sound (cwDisk w')) \<Longrightarrow>
    job_step cs sound jb \<lparr>syWorld = w, syRun = None\<rparr> \<lparr>syWorld = w', syRun = Some r\<rparr>"
| start_fails: "start_run jb w = (Inl e, w') \<Longrightarrow> (whole cs \<longrightarrow> sound (cwDisk w')) \<Longrightarrow>
    job_step cs sound jb \<lparr>syWorld = w, syRun = None\<rparr> \<lparr>syWorld = w', syRun = None\<rparr>"
| crash: "job_step cs sound jb \<lparr>syWorld = w, syRun = Some r\<rparr> \<lparr>syWorld = w, syRun = None\<rparr>"
| shutdown: "on_sink (write_close (ceSink (jbEnv jb))) w = (x, w') \<Longrightarrow>
    job_step cs sound jb \<lparr>syWorld = w, syRun = Some r\<rparr> \<lparr>syWorld = w', syRun = None\<rparr>"
| read: "job_step cs sound jb \<lparr>syWorld = w, syRun = Some r\<rparr> \<lparr>syWorld = w, syRun = Some (read_record jb k r)\<rparr>"
| watermark: "job_step cs sound jb \<lparr>syWorld = w, syRun = Some r\<rparr> \<lparr>syWorld = w, syRun = Some (forward (Mark t) r)\<rparr>"
| barrier: "inject_barrier suffix r w = (w', r') \<Longrightarrow> suffix \<in> set barrier_suffixes \<Longrightarrow>
    (lively cs \<longrightarrow> (\<forall>k. rnPos r k \<noteq> jbStart jb k \<longrightarrow> k \<in> fst ` set (rnOffsets r))) \<Longrightarrow>
    job_step cs sound jb \<lparr>syWorld = w, syRun = Some r\<rparr> \<lparr>syWorld = w', syRun = Some r'\<rparr>"
| deliver: "tsWaiters (cwSink w) = [] \<Longrightarrow> on_sink (write_record (ceSink (jbEnv jb)) y) w = (x, w') \<Longrightarrow>
    job_step cs sound jb \<lparr>syWorld = w, syRun = Some r\<rparr> \<lparr>syWorld = w', syRun = Some (r\<lparr>rnOut := rnOut r @ [y]\<rparr>)\<rparr>"
| align: "tsWaiters (cwSink w) = [] \<Longrightarrow> rnQueue r = (i, seg) # q \<Longrightarrow> piRuns (jbPipe jb) (rnPipe r) seg (rnOut r) p \<Longrightarrow>
    sink_barrier (jbEnv jb) i (piSnapshot (jbPipe jb) p) w = (x, w') \<Longrightarrow>
    job_step cs sound jb \<lparr>syWorld = w, syRun = Some r\<rparr> \<lparr>syWorld = w', syRun = Some (r\<lparr>rnQueue := q, rnPipe := p, rnOut := []\<rparr>)\<rparr>"
| skip: "rnWorker r = Idle \<Longrightarrow> coEvents (cwCoord w) = i # es \<Longrightarrow> finalize_take i (take_event w) = (Inr None, w') \<Longrightarrow>
    job_step cs sound jb \<lparr>syWorld = w, syRun = Some r\<rparr> \<lparr>syWorld = w', syRun = Some r\<rparr>"
| persist: "rnWorker r = Idle \<Longrightarrow> coEvents (cwCoord w) = i # es \<Longrightarrow> (prompt cs \<longrightarrow> coFatal (cwCoord w) = None) \<Longrightarrow>
    finalize_take i (take_event w) = (Inr (Some p), w1) \<Longrightarrow> finalize_persist (jbEnv jb) i p w1 = (Inr ok, w') \<Longrightarrow>
    job_step cs sound jb \<lparr>syWorld = w, syRun = Some r\<rparr>
      \<lparr>syWorld = w', syRun = Some (r\<lparr>rnWorker := if ok then Persisted i p else Idle\<rparr>)\<rparr>"
| commit: "rnWorker r = Persisted i p \<Longrightarrow> finalize_commit (jbEnv jb) i w = (Inr ok, w') \<Longrightarrow>
    job_step cs sound jb \<lparr>syWorld = w, syRun = Some r\<rparr>
      \<lparr>syWorld = w', syRun = Some (r\<lparr>rnWorker := if ok then Committed i p else Idle\<rparr>)\<rparr>"
| promote: "rnWorker r = Committed i p \<Longrightarrow> finalize_promote (jbEnv jb) i w = (Inr ok, w1) \<Longrightarrow> (whole cs \<longrightarrow> sound (cwDisk w1)) \<Longrightarrow>
    (if ok then finalize_offsets (jbEnv jb) p w1 = (x, w') else w' = w1) \<Longrightarrow>
    job_step cs sound jb \<lparr>syWorld = w, syRun = Some r\<rparr> \<lparr>syWorld = w', syRun = Some (r\<lparr>rnWorker := Idle\<rparr>)\<rparr>"

text \<open>The steps of the worker are \<^const>\<open>finalize\<close> cut at its durable effects.\<close>

lemma finalize_steps:
  "finalize ce i w = (case finalize_take i w of (Inl e, w') \<Rightarrow> (Inl e, w') | (Inr None, w') \<Rightarrow> (Inr (), w')
     | (Inr (Some p), w1) \<Rightarrow> (case finalize_persist ce i p w1 of (Inl e, w') \<Rightarrow> (Inl e, w') | (Inr False, w') \<Rightarrow> (Inr (), w')
     | (Inr True, w2) \<Rightarrow> (case finalize_commit ce i w2 of (Inl e, w') \<Rightarrow> (Inl e, w') | (Inr False, w') \<Rightarrow> (Inr (), w')
     | (Inr True, w3) \<Rightarrow> (case finalize_promote ce i w3 of (Inl e, w') \<Rightarrow> (Inl e, w') | (Inr False, w') \<Rightarrow> (Inr (), w')
     | (Inr True, w4) \<Rightarrow> finalize_offsets ce p w4))))"
  by (simp add: finalize_def andThen_def ret_def split: prod.splits sum.splits option.splits bool.splits)

definition job_reach :: "conditions \<Rightarrow> ('d \<Rightarrow> bool) \<Rightarrow> ('d, 'b, 'r, 'm, 'v, 'k, 'x, 'p) job \<Rightarrow>
    ('d, 'b, 'k, 'x, 'p, 'r, 'v) system \<Rightarrow> ('d, 'b, 'k, 'x, 'p, 'r, 'v) system \<Rightarrow> bool" where
  "job_reach cs sound jb = (job_step cs sound jb)\<^sup>*\<^sup>*"

end
