(* ===== verification/Exactly_Once.thy ===== *)
theory Exactly_Once
  imports Coordinated_Run
begin

text \<open>
  Exactly-once delivery across crashes, proved against the contracts of storage and broker: what a
  read-committed consumer of the output topic sees is the output of one uninterrupted run of the
  pipeline over a prefix of every input partition. The proof is an invariant of the job's steps
  under the conditions \<open>prompt\<close>, \<open>whole\<close> and \<open>lively\<close>.
\<close>

section \<open>Checkpoint identifiers\<close>

lemma dec_suffix:
  assumes "s \<in> set barrier_suffixes" and "s' \<in> set barrier_suffixes" and "dec m @ s = dec m' @ s'"
  shows "m = m'" and "s = s'"
proof -
  have tw: "takeWhile is_digit (dec k @ t) = dec k" if "t \<in> set barrier_suffixes" for k t
  proof -
    have d: "\<forall>c \<in> set (dec k). is_digit c" using dec_digits by blast
    from that show ?thesis
      using takeWhile_append_stop [OF d, of "CHR ''-''"] d by (auto simp: barrier_suffixes_def takeWhile_eq_all_conv)
  qed
  have "dec m = dec m'" using tw [OF assms(1), of m] tw [OF assms(2), of m'] assms(3) by simp
  then show "m = m'" and "s = s'" using assms(3) by simp_all
qed

lemma mk_id_inject:
  assumes "0 \<le> unix_nano a" "0 \<le> unix_nano b" "s \<in> set barrier_suffixes" "s' \<in> set barrier_suffixes"
    and eq: "mk_id a m s = mk_id b m' s'"
  shows "unix_nano a = unix_nano b \<and> m = m' \<and> s = s'"
proof -
  have tw: "takeWhile is_digit (dec k @ CHR ''-'' # t) = dec k" for k t
    using takeWhile_append_stop [of "dec k" is_digit "CHR ''-''" t] dec_digits by simp
  have e: "dec (nat (unix_nano a)) @ CHR ''-'' # dec m @ s = dec (nat (unix_nano b)) @ CHR ''-'' # dec m' @ s'"
    using eq assms(1,2) by (simp add: mk_id_def itoa_def)
  have d: "dec (nat (unix_nano a)) = dec (nat (unix_nano b))"
    using tw [of "nat (unix_nano a)" "dec m @ s"] tw [of "nat (unix_nano b)" "dec m' @ s'"] unfolding e by simp
  then have "unix_nano a = unix_nano b" using assms(1,2) by (simp add: eq_nat_nat_iff)
  moreover have "dec m @ s = dec m' @ s'" using e unfolding d by simp
  from dec_suffix [OF assms(3,4) this] have "m = m' \<and> s = s'" by simp
  ultimately show ?thesis by simp
qed

section \<open>Histories\<close>

inductive hist :: "('p, 'i, 'r, 'v) pipeline \<Rightarrow> 'i list list \<Rightarrow> 'r list \<Rightarrow> 'p \<Rightarrow> bool" for pl where
  hist_Nil: "hist pl [] [] (piInit pl)"
| hist_snoc: "hist pl segs ys p \<Longrightarrow> piRuns pl p seg zs q \<Longrightarrow> hist pl (segs @ [seg]) (ys @ zs) q"

text \<open>The records of one partition in a stretch of input, with their offsets.\<close>

definition elems :: "'k \<Rightarrow> ('k, 'x) item list \<Rightarrow> (nat \<times> 'x) list" where
  "elems k is = concat (map (\<lambda>i. case i of Elem k' n x \<Rightarrow> if k' = k then [(n, x)] else [] | Mark _ \<Rightarrow> []) is)"

definition pos :: "('k \<Rightarrow> nat) \<Rightarrow> ('k, 'x) item list \<Rightarrow> 'k \<Rightarrow> nat" where
  "pos start is k = start k + length (elems k is)"

definition reads :: "('k \<Rightarrow> nat) \<Rightarrow> ('k \<Rightarrow> nat \<Rightarrow> 'x) \<Rightarrow> ('k, 'x) item list \<Rightarrow> bool" where
  "reads start topic is \<longleftrightarrow> (\<forall>k. elems k is = map (\<lambda>n. (n, topic k n)) [start k ..< pos start is k])"

definition records :: "'m kmsg list \<Rightarrow> 'm list" where
  "records v = concat (map (\<lambda>m. case m of KRecord x \<Rightarrow> [x] | KMarker _ _ \<Rightarrow> []) v)"

definition sent :: "('b, 'r, 'm) sink_config \<Rightarrow> 'r list \<Rightarrow> 'm list \<Rightarrow> bool" where
  "sent sc ys ms \<longleftrightarrow> map (scSerialize sc) ys = map Inr ms"

lemma elems_simps [simp]:
  "elems k [] = []" "elems k (xs @ ys) = elems k xs @ elems k ys"
  "elems k [Elem k' n x] = (if k' = k then [(n, x)] else [])" "elems k [Mark t] = []"
  by (simp_all add: elems_def)

lemma records_simps [simp]:
  "records [] = []" "records (v @ v') = records v @ records v'" "records (map KRecord ms) = ms" "records [KMarker t i] = []"
proof -
  show "records (map KRecord ms) = ms" by (induction ms) (simp_all add: records_def)
qed (simp_all add: records_def)

lemma sent_simps [simp]: "sent sc [] ms = (ms = [])"
  by (auto simp: sent_def)

lemma sent_append: "sent sc ys ms \<Longrightarrow> sent sc zs ns \<Longrightarrow> sent sc (ys @ zs) (ms @ ns)"
  by (simp add: sent_def)

lemma pos_Nil [simp]: "pos start [] = start"
  by (simp add: pos_def fun_eq_iff)

lemma reads_Nil [simp]: "reads start topic []"
  by (simp add: reads_def)

lemma reads_mark: "reads start topic (is @ [Mark t]) = reads start topic is" "pos start (is @ [Mark t]) = pos start is"
  by (simp_all add: reads_def pos_def fun_eq_iff)

lemma reads_elem:
  assumes "reads start topic is"
  shows "reads start topic (is @ [Elem k (pos start is k) (topic k (pos start is k))])"
    and "pos start (is @ [Elem k n x]) = (pos start is)(k := pos start is k + 1)"
  using assms by (auto simp: reads_def pos_def fun_eq_iff upt_Suc_append)

lemma reads_prefix: "reads start topic (is @ js) \<Longrightarrow> reads start topic is"
  unfolding reads_def pos_def
proof
  fix k assume a: "\<forall>k. elems k (is @ js) = map (\<lambda>n. (n, topic k n)) [start k ..< start k + length (elems k (is @ js))]"
  have "elems k is = take (length (elems k is)) (elems k (is @ js))" by simp
  also have "\<dots> = take (length (elems k is)) (map (\<lambda>n. (n, topic k n)) [start k ..< start k + length (elems k (is @ js))])"
    using a by metis
  also have "\<dots> = map (\<lambda>n. (n, topic k n)) [start k ..< start k + length (elems k is)]"
    by (simp add: take_map take_upt)
  finally show "elems k is = map (\<lambda>n. (n, topic k n)) [start k ..< start k + length (elems k is)]" .
qed

definition from_topic :: "('k \<Rightarrow> nat \<Rightarrow> 'x) \<Rightarrow> ('k, 'x) item \<Rightarrow> bool" where
  "from_topic topic i = (case i of Elem k n x \<Rightarrow> x = topic k n | Mark _ \<Rightarrow> True)"

lemma elems_mem: "Elem k n x \<in> set is \<Longrightarrow> (n, x) \<in> set (elems k is)"
  by (force simp: elems_def)

lemma reads_from:
  assumes "reads start topic is" and "i \<in> set is"
  shows "from_topic topic i"
proof (cases i)
  case (Elem k n x)
  then show ?thesis using elems_mem [of k n x "is"] assms by (auto simp: from_topic_def reads_def)
qed (simp add: from_topic_def)

text \<open>Every barrier on its way to the sink has its aligned offsets registered.\<close>

fun queue_ok :: "('k \<Rightarrow> nat) \<Rightarrow> (string \<times> ('v, 'k offsets) pending_ckpt) list \<Rightarrow> ('k, 'x) item list \<Rightarrow>
    (string \<times> ('k, 'x) item list) list \<Rightarrow> bool" where
  "queue_ok start pend is [] = True"
| "queue_ok start pend is ((i, seg) # q) =
     ((\<exists>p offs. map_of pend i = Some p \<and> pOffsets p = Some offs \<and> offset_at start offs = pos start (is @ seg)) \<and>
      queue_ok start pend (is @ seg) q)"

lemma queue_ok_append:
  "queue_ok start pend is (q @ q') = (queue_ok start pend is q \<and> queue_ok start pend (is @ concat (map snd q)) q')"
  by (induction start pend "is" q rule: queue_ok.induct) simp_all

lemma queue_ok_cong:
  "(\<And>i. i \<in> fst ` set q \<Longrightarrow> map_of pend' i = map_of pend i) \<Longrightarrow> queue_ok start pend is q \<Longrightarrow> queue_ok start pend' is q"
  by (induction start pend "is" q rule: queue_ok.induct) auto

section \<open>Running one part of the world\<close>

lemma on_disk_run: "on_disk m w = (r, w') \<longleftrightarrow> (\<exists>d. m (cwDisk w) = (r, d) \<and> w' = w\<lparr>cwDisk := d\<rparr>)"
  by (auto simp: on_disk_def zoom_def split: prod.splits)

lemma on_sink_run: "on_sink m w = (r, w') \<longleftrightarrow> (\<exists>s. m (cwSink w) = (r, s) \<and> w' = w\<lparr>cwSink := s\<rparr>)"
  by (auto simp: on_sink_def zoom_def split: prod.splits)

lemma broker_run: "broker m s = (r, s') \<longleftrightarrow> (\<exists>b. m (tsBroker s) = (r, b) \<and> s' = s\<lparr>tsBroker := b\<rparr>)"
  by (auto simp: broker_def zoom_def split: prod.splits)

lemma now_run: "now ce w = (r, w') \<longleftrightarrow> r = Inr (ceNow ce (cwTick w)) \<and> w' = w\<lparr>cwTick := Suc (cwTick w)\<rparr>"
  by (auto simp: now_def op_defs)

lemma unless_err_run: "unless_err m w = (r, w') \<longleftrightarrow> r = Inr () \<and> (\<exists>x. m w = (x, w'))"
  by (auto simp: op_defs split: prod.splits)

lemma on_coord_run: "on_coord f w = (r, w') \<longleftrightarrow> r = Inr () \<and> w' = w\<lparr>cwCoord := f (cwCoord w)\<rparr>"
  by (auto simp: on_coord_def modify_def)

lemma andThen_Inr: "andThen m f w = (Inr y, w') \<longleftrightarrow> (\<exists>x w1. m w = (Inr x, w1) \<and> f x w1 = (Inr y, w'))"
  by (auto simp: andThen_def split: prod.splits sum.splits)

lemma attempt_run: "attempt m w = (r, w') \<longleftrightarrow> (\<exists>x. r = Inr x \<and> m w = (x, w'))"
  by (auto simp: attempt_def split: prod.splits)

lemma wrap_Inr: "wrap p m w = (Inr y, w') \<longleftrightarrow> m w = (Inr y, w')"
  by (auto simp: wrap_def split: prod.splits sum.splits)

text \<open>The clock's counter only grows.\<close>

abbreviation from_tick :: "nat \<Rightarrow> ('d, 'b, 'v, 'o) cworld \<Rightarrow> bool" where
  "from_tick n w \<equiv> n \<le> cwTick w"

lemma keeps_tick_parts:
  "keeps (from_tick n) (on_disk m)" "keeps (from_tick n) (on_sink m')" "keeps (from_tick n) (on_coord f)" "keeps (from_tick n) (now ce)"
  by (auto simp: triple_def on_disk_def on_sink_def on_coord_def now_def op_defs split: prod.splits sum.splits)

lemmas keeps_tick = keeps_rules keeps_tick_parts

lemma keeps_tick_finalize:
  "keeps (from_tick n) (finalize_take i)" "keeps (from_tick n) (finalize_persist ce i p)" "keeps (from_tick n) (finalize_commit ce i)"
  "keeps (from_tick n) (finalize_promote ce i)" "keeps (from_tick n) (finalize_offsets ce p)" "keeps (from_tick n) (sink_barrier ce i snaps)"
  unfolding finalize_take_def finalize_persist_def finalize_commit_def finalize_promote_def finalize_offsets_def sink_barrier_def abort_fatal_def
  by (auto intro!: keeps_tick split: option.splits prod.splits)

lemma keeps_tick_start: "keeps (from_tick n) (start_run jb)"
proof -
  have "keeps (from_tick n) (restore_workers pl ck)" for pl ck
    unfolding restore_workers_def by (intro keeps_tick)
  moreover have "keeps (from_tick n) (modify new_process)" by (rule triple_modify) (simp add: new_process_def)
  ultimately show ?thesis unfolding start_run_def resolve_coordinated_recovery_def by (intro keeps_tick)
qed

lemma tick_run: "keeps (from_tick (cwTick w)) m \<Longrightarrow> m w = (x, w') \<Longrightarrow> cwTick w \<le> cwTick w'"
  using keeps_run [of "from_tick (cwTick w)" m w] by simp

lemmas tick_runs = keeps_tick_finalize [THEN tick_run] keeps_tick_start [THEN tick_run]

lemma tick_mono:
  assumes "job_step cs sound jb s s'"
  shows "cwTick (syWorld s) \<le> cwTick (syWorld s')"
  using assms
proof cases
  case (start w r w')
  then show ?thesis using tick_runs(7) by simp
next
  case (start_fails w e w')
  then show ?thesis using tick_runs(7) by simp
next
  case (persist r w i es p w1 ok w')
  then show ?thesis using tick_runs(1) [of i "take_event w"] tick_runs(2) [of _ i p w1] le_trans by (fastforce simp: take_event_def)
next
  case (skip r w i es w')
  then show ?thesis using tick_runs(1) [of i "take_event w"] by (simp add: take_event_def)
next
  case (commit r i p w ok w')
  then show ?thesis using tick_runs(3) by simp
next
  case (promote r i p w ok w1 x w')
  then have "cwTick w \<le> cwTick w1" "cwTick w1 \<le> cwTick w'"
    using tick_runs(4) [of "jbEnv jb" i w] tick_runs(5) [of "jbEnv jb" p w1 x w'] by (simp_all split: if_splits)
  then show ?thesis using promote by simp
next
  case (align w r i seg q p x w')
  then show ?thesis using tick_runs(6) by simp
next
  case (barrier suffix r w w' r')
  then show ?thesis by (auto simp: inject_barrier_def Let_def)
qed (auto simp: on_sink_run)

section \<open>The contract of a job\<close>

locale exactly_once =
  checkpoint_store "ceStorage (jbEnv jb)" sound holds + txn_sink_ops "ceSink (jbEnv jb)" vis opn
  for jb :: "('d, 'b, 'r, 'm, 'v, 'k, 'x, 'p) job" and sound holds vis opn +
  fixes peq :: "'p \<Rightarrow> 'p \<Rightarrow> bool" \<comment> \<open>operators that behave alike\<close>
    and horizon :: nat \<comment> \<open>the number of clock readings considered\<close>
  assumes peq_init: "peq (piInit (jbPipe jb)) (piInit (jbPipe jb))"
    and peq_runs: "peq p p' \<Longrightarrow> \<forall>i \<in> set xs. from_topic (jbTopic jb) i \<Longrightarrow> piRuns (jbPipe jb) p' xs ys q' \<Longrightarrow> \<exists>q. piRuns (jbPipe jb) p xs ys q \<and> peq q q'"
    and peq_restores: "peq p q \<Longrightarrow> piRestore (jbPipe jb) (piSnapshot (jbPipe jb) q) = Inr p' \<Longrightarrow> peq p p'"
    and clock: "n \<le> horizon \<Longrightarrow> 0 \<le> ceNow (jbEnv jb) n \<and> in_int64 (ceNow (jbEnv jb) n)"
    and clock_mono: "m < n \<Longrightarrow> n \<le> horizon \<Longrightarrow> ceNow (jbEnv jb) m < ceNow (jbEnv jb) n"
    and advisory: "ceCommitOffsets (jbEnv jb) = Some f \<Longrightarrow> keeps (\<lambda>b. vis b = v \<and> opn b = o') (f offs)"
begin

abbreviation pl where "pl \<equiv> jbPipe jb"
abbreviation sk where "sk \<equiv> ceSink (jbEnv jb)"
abbreviation txn where "txn \<equiv> scTxnID sk"
abbreviation clk where "clk \<equiv> ceNow (jbEnv jb)"

text \<open>Identifiers that runs to come, or the run itself, may still use; the checkpoints that may be saved.\<close>

definition coming :: "nat \<Rightarrow> string set" where
  "coming t = {mk_id (clk n) m s | n m s. t \<le> n \<and> n \<le> horizon \<and> s \<in> set barrier_suffixes}"

definition next_ids :: "('k, 'x, 'p, 'r, 'v) run \<Rightarrow> string set" where
  "next_ids r = {mk_id (rnNonce r) m s | m s. rnCheckpointID r < m \<and> s \<in> set barrier_suffixes}"

definition flight :: "('d, 'b, 'v, 'k offsets) cworld \<Rightarrow> ('k, 'x, 'p, 'r, 'v) run \<Rightarrow> string list" where
  "flight w r = coEvents (cwCoord w) @ map fst (rnQueue r)"

definition fresh :: "('d, 'b, 'k, 'x, 'p, 'r, 'v) system \<Rightarrow> string set" where
  "fresh s = coming (cwTick (syWorld s)) \<union> (case syRun s of None \<Rightarrow> {} | Some r \<Rightarrow> next_ids r \<union> set (flight (syWorld s) r))"

definition savable :: "nat \<Rightarrow> string set \<Rightarrow> ('v, 'k offsets) ckpt set" where
  "savable t F = {c. (\<exists>n. t \<le> n \<and> n \<le> horizon \<and> ckTimestamp c = clk n) \<and> ckID c \<in> F}"

lemma savable_mono: "t \<le> t' \<Longrightarrow> F' \<subseteq> F \<Longrightarrow> savable t' F' \<subseteq> savable t F"
  unfolding savable_def by (auto intro: le_trans)

lemma coming_mono: "t \<le> t' \<Longrightarrow> coming t' \<subseteq> coming t"
  unfolding coming_def by (auto intro: le_trans)

lemma clock_nano: "n \<le> horizon \<Longrightarrow> unix_nano (clk n) = clk n \<and> 0 \<le> unix_nano (clk n)"
  using clock [of n] by simp

lemma clock_inj: "m \<le> horizon \<Longrightarrow> n \<le> horizon \<Longrightarrow> clk m = clk n \<Longrightarrow> m = n"
  using clock_mono [of m n] clock_mono [of n m] by (metis less_irrefl linorder_neqE_nat)

lemma mk_id_clock:
  assumes "n \<le> horizon" "n' \<le> horizon" "s \<in> set barrier_suffixes" "s' \<in> set barrier_suffixes" "mk_id (clk n) m s = mk_id (clk n') m' s'"
  shows "n = n' \<and> m = m' \<and> s = s'"
  using mk_id_inject [OF _ _ assms(3-5)] clock_nano [OF assms(1)] clock_nano [OF assms(2)] clock_inj [OF assms(1,2)] by metis

text \<open>What recovery resumes from.\<close>

definition target :: "('v, 'k offsets) ckpt option \<Rightarrow> ('v, 'k offsets) ckpt option \<Rightarrow> 'm kmsg list \<Rightarrow> ('v, 'k offsets) ckpt option" where
  "target l k v = (case l of None \<Rightarrow> None | Some c \<Rightarrow> if is_completed c \<or> KMarker txn (ckID c) \<in> set v then Some c else k)"

definition snapshot_of :: "('k, 'x) item list \<Rightarrow> 'p \<Rightarrow> ('v, 'k offsets) ckpt \<Rightarrow> bool" where
  "snapshot_of is p c \<longleftrightarrow> (\<exists>q. peq p q \<and> ckOperators c = piSnapshot pl q) \<and>
     restore_source_offset (jbStart jb) (Some c) = pos (jbStart jb) is"

definition durable where
  "durable l k v segs ys p \<longleftrightarrow> hist pl segs ys p \<and> sent sk ys (records v) \<and> reads (jbStart jb) (jbTopic jb) (concat segs) \<and>
     (l = None \<longrightarrow> k = None) \<and>
     (case target l k v of None \<Rightarrow> segs = [] | Some c \<Rightarrow> snapshot_of (concat segs) p c)"

lemma snapshot_of_completed [simp]: "snapshot_of is p (completed_of c) = snapshot_of is p c"
  by (simp add: snapshot_of_def restore_source_offset_def)

lemma durable_Nil: "durable None k v segs ys p \<Longrightarrow> segs = [] \<and> p = piInit pl"
  unfolding durable_def target_def by (auto elim: hist.cases)

lemma durable_None: "durable l k v segs ys p \<Longrightarrow> target l k v = None \<Longrightarrow> segs = [] \<and> p = piInit pl"
  unfolding durable_def by (auto elim: hist.cases)

definition filling where
  "filling v rs (s :: 'b txn_sink) \<longleftrightarrow> vis (tsBroker s) = v \<and>
     (tsProduceErr s = None \<longrightarrow> (\<exists>ms. sent sk rs ms \<and> opn (tsBroker s) = map KRecord ms))"

text \<open>A barrier has passed the sink: operators and offsets of checkpoint \<open>i\<close> are those after \<open>segs\<close> and \<open>seg\<close>, its output is in the open transaction.\<close>

definition staged where
  "staged segs p v seg i pd (w :: ('d, 'b, 'v, 'k offsets) cworld) (r :: ('k, 'x, 'p, 'r, 'v) run) \<longleftrightarrow>
     (\<exists>ys q. piRuns pl p seg ys q \<and> peq q (rnPipe r) \<and>
        (pSinkErr pd = None \<longrightarrow> (\<exists>ms. sent sk ys ms \<and> opn (tsBroker (cwSink w)) = map KRecord ms @ [KMarker txn i]))) \<and>
     pState pd = piSnapshot pl (rnPipe r) \<and> rnOut r = [] \<and> tsWaiters (cwSink w) \<noteq> [] \<and>
     (\<exists>offs. pOffsets pd = Some offs \<and> offset_at (jbStart jb) offs = pos (jbStart jb) (concat segs @ seg))"

definition marked where
  "marked l v \<longleftrightarrow> (\<exists>c. l = Some c \<and> \<not> is_completed c \<and> KMarker txn (ckID c) \<in> set v)"

definition progress where
  "progress l v segs p is w r \<longleftrightarrow>
     (case rnWorker r of
        Persisted i pd \<Rightarrow> coEvents (cwCoord w) = [] \<and> pSinkErr pd = None \<and> KMarker txn i \<notin> set v \<and>
          i \<notin> fresh \<lparr>syWorld = w, syRun = Some r\<rparr> \<and>
          (\<exists>seg t. is = concat segs @ seg \<and> staged segs p v seg i pd w r \<and> l = Some (prepared_ckpt txn i t pd))
      | wk \<Rightarrow>
          (case wk of Committed i pd \<Rightarrow> \<exists>c. l = Some c \<and> ckStatus c = StatusPrepared \<and> ckID c = i \<and> KMarker txn i \<in> set v
           | _ \<Rightarrow> \<not> marked l v) \<and>
          (coEvents (cwCoord w) = [] \<and> is = concat segs \<and> peq p (rnPipe r) \<and> filling v (rnOut r) (cwSink w) \<or>
           (\<exists>i seg pd. coEvents (cwCoord w) = [i] \<and> map_of (coPending (cwCoord w)) i = Some pd \<and>
              is = concat segs @ seg \<and> staged segs p v seg i pd w r)))"

text \<open>Reading, the injector's map and the barriers under way agree on one history of the input.\<close>

definition calm where
  "calm l v segs p w r \<longleftrightarrow> (\<exists>is all. all = is @ concat (map snd (rnQueue r)) @ rnSegment r \<and>
     reads (jbStart jb) (jbTopic jb) all \<and> rnPos r = pos (jbStart jb) all \<and>
     (\<forall>k n. map_of (rnOffsets r) k = Some n \<longrightarrow> n = rnPos r k) \<and>
     queue_ok (jbStart jb) (coPending (cwCoord w)) is (rnQueue r) \<and> progress l v segs p is w r)"

lemma calmE:
  assumes "calm l v segs p w r"
  obtains "is" all where "all = is @ concat (map snd (rnQueue r)) @ rnSegment r"
    "reads (jbStart jb) (jbTopic jb) all" "rnPos r = pos (jbStart jb) all"
    "\<And>k n. map_of (rnOffsets r) k = Some n \<Longrightarrow> n = rnPos r k" "queue_ok (jbStart jb) (coPending (cwCoord w)) is (rnQueue r)"
    "progress l v segs p is w r"
  using assms unfolding calm_def by blast

definition tracked where
  "tracked w r \<longleftrightarrow> (\<exists>n. n < cwTick w \<and> rnNonce r = clk n) \<and> distinct (flight w r) \<and> \<not> coHalted (cwCoord w) \<and>
     (\<forall>i \<in> set (flight w r). \<exists>m s. i = mk_id (rnNonce r) m s \<and> m \<le> rnCheckpointID r \<and> s \<in> set barrier_suffixes)"

definition run_inv where
  "run_inv l v segs p w r \<longleftrightarrow> tracked w r \<and> (coFatal (cwCoord w) \<noteq> None \<longrightarrow> rnWorker r = Idle) \<and>
     (coFatal (cwCoord w) = None \<longrightarrow> calm l v segs p w r)"

definition stored where
  "stored l k segs ys p s \<longleftrightarrow> holds l k (savable (cwTick (syWorld s)) (fresh s)) (cwDisk (syWorld s)) \<and>
     durable l k (vis (tsBroker (cwSink (syWorld s)))) segs ys p \<and>
     (\<forall>i \<in> fresh s. KMarker txn i \<notin> set (vis (tsBroker (cwSink (syWorld s)))))"

definition job_inv where
  "job_inv s \<longleftrightarrow> (\<exists>l k segs ys p. stored l k segs ys p s \<and>
     (case syRun s of None \<Rightarrow> True | Some r \<Rightarrow> run_inv l (vis (tsBroker (cwSink (syWorld s)))) segs p (syWorld s) r))"

text \<open>Identifiers and times only get used up.\<close>

lemma stored_mono:
  assumes "stored l k segs ys p s" and "fresh s' \<subseteq> fresh s" and "cwTick (syWorld s) \<le> cwTick (syWorld s')"
    and "cwDisk (syWorld s') = cwDisk (syWorld s)" and "vis (tsBroker (cwSink (syWorld s'))) = vis (tsBroker (cwSink (syWorld s)))"
  shows "stored l k segs ys p s'"
  using assms holds_mono [OF _ savable_mono [OF assms(3,2)]] unfolding stored_def by auto

lemma fresh_None: "fresh \<lparr>syWorld = w, syRun = None\<rparr> = coming (cwTick w)"
  by (simp add: fresh_def)

lemma fresh_Some: "fresh \<lparr>syWorld = w, syRun = Some r\<rparr> = coming (cwTick w) \<union> next_ids r \<union> set (flight w r)"
  by (auto simp: fresh_def)

lemma job_inv_stopped: "job_inv \<lparr>syWorld = w, syRun = None\<rparr> \<longleftrightarrow> (\<exists>l k segs ys p. stored l k segs ys p \<lparr>syWorld = w, syRun = None\<rparr>)"
  by (simp add: job_inv_def)

lemma job_inv_running: "job_inv \<lparr>syWorld = w, syRun = Some r\<rparr> \<longleftrightarrow> (\<exists>l k segs ys p. stored l k segs ys p \<lparr>syWorld = w, syRun = Some r\<rparr> \<and>
    run_inv l (vis (tsBroker (cwSink w))) segs p w r)"
  by (simp add: job_inv_def)

lemma inv_crash:
  assumes "job_inv \<lparr>syWorld = w, syRun = Some r\<rparr>"
  shows "job_inv \<lparr>syWorld = w, syRun = None\<rparr>"
  using assms stored_mono [of _ _ _ _ _ "\<lparr>syWorld = w, syRun = Some r\<rparr>" "\<lparr>syWorld = w, syRun = None\<rparr>"]
  unfolding job_inv_stopped job_inv_running fresh_None fresh_Some by auto blast

lemma inv_shutdown:
  assumes "job_inv \<lparr>syWorld = w, syRun = Some r\<rparr>" and run: "on_sink (write_close sk) w = (x, w')"
  shows "job_inv \<lparr>syWorld = w', syRun = None\<rparr>"
proof -
  obtain s' where s': "write_close sk (cwSink w) = (x, s')" "w' = w\<lparr>cwSink := s'\<rparr>" using run by (auto simp: on_sink_run)
  have k: "keeps (shows_only (vis (tsBroker (cwSink w)))) (write_close sk)"
    unfolding write_close_def by (intro keeps_rules keeps_shows_broker abort_buffered abort_txn)
  have v: "vis (tsBroker s') = vis (tsBroker (cwSink w))"
    using keeps_run [OF k, of "cwSink w"] s'(1) by (simp add: shows_only_def)
  from inv_crash [OF assms(1)] obtain l k segs ys p where "stored l k segs ys p \<lparr>syWorld = w, syRun = None\<rparr>"
    by (auto simp: job_inv_stopped)
  then have "stored l k segs ys p \<lparr>syWorld = w', syRun = None\<rparr>"
    by (rule stored_mono) (simp_all add: fresh_None s'(2) v)
  then show ?thesis unfolding job_inv_stopped by blast
qed

text \<open>Reading.\<close>

lemma tracked_later:
  assumes tr: "tracked w r" and fl: "flight w r = is @ flight w' r'" and r': "rnNonce r' = rnNonce r" "rnCheckpointID r' = rnCheckpointID r"
    and t: "cwTick w \<le> cwTick w'" and c: "\<not> coHalted (cwCoord w')"
  shows "tracked w' r'"
proof -
  obtain n where "n < cwTick w" "rnNonce r = clk n" using tr unfolding tracked_def by blast
  then have "\<exists>n. n < cwTick w' \<and> rnNonce r' = clk n" using t r' by (intro exI [of _ n]) simp
  then show ?thesis using tr fl c unfolding tracked_def r' by auto
qed

lemma forward_simps [simp]:
  "rnNonce (forward i r) = rnNonce r" "rnCheckpointID (forward i r) = rnCheckpointID r" "rnQueue (forward i r) = rnQueue r"
  "rnPipe (forward i r) = rnPipe r" "rnOut (forward i r) = rnOut r" "rnWorker (forward i r) = rnWorker r" "rnPos (forward i r) = rnPos r"
  "rnSegment (forward i r) = rnSegment r @ [i]" "rnOffsets (forward i r) = track_offset i (rnOffsets r)"
  by (simp_all add: forward_def)

text \<open>A change of a run that keeps everything \<^const>\<open>progress\<close> speaks about.\<close>

lemma progress_run_cong:
  assumes "rnNonce r' = rnNonce r" "rnCheckpointID r' = rnCheckpointID r" "rnQueue r' = rnQueue r"
    "rnPipe r' = rnPipe r" "rnOut r' = rnOut r" "rnWorker r' = rnWorker r"
  shows "progress l v segs p is w r' = progress l v segs p is w r"
proof -
  have f: "fresh \<lparr>syWorld = w, syRun = Some r'\<rparr> = fresh \<lparr>syWorld = w, syRun = Some r\<rparr>"
    using assms by (simp add: fresh_Some next_ids_def flight_def)
  show ?thesis unfolding progress_def staged_def f assms(4-6) by (rule refl)
qed

lemma inv_advance:
  assumes inv: "job_inv \<lparr>syWorld = w, syRun = Some r\<rparr>"
    and same: "rnNonce r' = rnNonce r" "rnCheckpointID r' = rnCheckpointID r" "rnQueue r' = rnQueue r"
      "rnPipe r' = rnPipe r" "rnOut r' = rnOut r" "rnWorker r' = rnWorker r"
    and seg: "rnSegment r' = rnSegment r @ [i]"
    and reads: "\<And>all. reads (jbStart jb) (jbTopic jb) all \<Longrightarrow> rnPos r = pos (jbStart jb) all \<Longrightarrow>
      reads (jbStart jb) (jbTopic jb) (all @ [i]) \<and> rnPos r' = pos (jbStart jb) (all @ [i])"
    and offs: "\<And>k n. (\<And>k n. map_of (rnOffsets r) k = Some n \<Longrightarrow> n = rnPos r k) \<Longrightarrow> map_of (rnOffsets r') k = Some n \<Longrightarrow> n = rnPos r' k"
  shows "job_inv \<lparr>syWorld = w, syRun = Some r'\<rparr>"
proof -
  have fr: "fresh \<lparr>syWorld = w, syRun = Some r'\<rparr> = fresh \<lparr>syWorld = w, syRun = Some r\<rparr>"
    using same by (simp add: fresh_Some next_ids_def flight_def)
  obtain l k segs ys p where st: "stored l k segs ys p \<lparr>syWorld = w, syRun = Some r\<rparr>" and ri: "run_inv l (vis (tsBroker (cwSink w))) segs p w r"
    using inv unfolding job_inv_running by blast
  have fl: "flight w r' = flight w r" using same by (simp add: flight_def)
  have "tracked w r'" by (rule tracked_later [of w r "[]"]) (use ri same fl in \<open>simp_all add: run_inv_def tracked_def\<close>)
  then have "run_inv l (vis (tsBroker (cwSink w))) segs p w r'"
    unfolding run_inv_def same
  proof (intro conjI impI)
    assume "coFatal (cwCoord w) = None"
    then have "calm l (vis (tsBroker (cwSink w))) segs p w r" using ri by (simp add: run_inv_def)
    then obtain "is" all where a: "all = is @ concat (map snd (rnQueue r)) @ rnSegment r"
      "reads (jbStart jb) (jbTopic jb) all" "rnPos r = pos (jbStart jb) all"
      "\<And>k n. map_of (rnOffsets r) k = Some n \<Longrightarrow> n = rnPos r k" "queue_ok (jbStart jb) (coPending (cwCoord w)) is (rnQueue r)"
      "progress l (vis (tsBroker (cwSink w))) segs p is w r" by (rule calmE) blast
    show "calm l (vis (tsBroker (cwSink w))) segs p w r'" unfolding calm_def
      using a reads [OF a(2,3)] offs [OF a(4)] progress_run_cong [OF same]
      by (intro exI [of _ "is"] exI [of _ "all @ [i]"] conjI) (auto simp: seg same)
  qed (use ri in \<open>simp_all add: run_inv_def\<close>)
  moreover have "stored l k segs ys p \<lparr>syWorld = w, syRun = Some r'\<rparr>"
    by (rule stored_mono [OF st]) (simp_all add: fr)
  ultimately show ?thesis unfolding job_inv_running by blast
qed

lemma inv_watermark:
  assumes "job_inv \<lparr>syWorld = w, syRun = Some r\<rparr>"
  shows "job_inv \<lparr>syWorld = w, syRun = Some (forward (Mark t) r)\<rparr>"
  by (rule inv_advance [OF assms, where i = "Mark t"]) (simp_all add: reads_mark track_offset_def)

lemma inv_read:
  assumes "job_inv \<lparr>syWorld = w, syRun = Some r\<rparr>"
  shows "job_inv \<lparr>syWorld = w, syRun = Some (read_record jb k r)\<rparr>"
  by (rule inv_advance [OF assms, where i = "Elem k (rnPos r k) (jbTopic jb k (rnPos r k))"])
    (auto simp: read_record_def reads_elem track_offset_def update_conv' split: if_splits)

text \<open>Injecting a barrier.\<close>

lemma nonce_bounded: "tracked w r \<Longrightarrow> cwTick w \<le> horizon \<Longrightarrow> \<exists>n. n < cwTick w \<and> n \<le> horizon \<and> rnNonce r = clk n"
  unfolding tracked_def by auto

lemma old_id_not_fresh:
  assumes "n < t" "t \<le> horizon" "rnNonce r = clk n" "m \<le> rnCheckpointID r" "s \<in> set barrier_suffixes"
  shows "mk_id (rnNonce r) m s \<notin> coming t \<union> next_ids r"
proof -
  have n: "n \<le> horizon" using assms by simp
  have "m = m'" if "mk_id (clk n) m s = mk_id (clk n) m' s'" "s' \<in> set barrier_suffixes" for m' s'
    using mk_id_clock [OF n n assms(5) that(2,1)] by simp
  moreover have "n = n'" if "mk_id (clk n) m s = mk_id (clk n') m' s'" "s' \<in> set barrier_suffixes" "n' \<le> horizon" for n' m' s'
    using mk_id_clock [OF n that(3) assms(5) that(2,1)] by simp
  ultimately show ?thesis using assms unfolding coming_def next_ids_def by fastforce
qed

lemma flight_not_fresh:
  assumes tr: "tracked w r" and t: "cwTick w \<le> horizon" and j: "j \<in> set (flight w r)"
  shows "j \<notin> coming (cwTick w) \<union> next_ids r"
proof -
  obtain n where n: "n < cwTick w" "rnNonce r = clk n" using nonce_bounded [OF tr t] by blast
  obtain m s where "j = mk_id (rnNonce r) m s" "m \<le> rnCheckpointID r" "s \<in> set barrier_suffixes"
    using tr j unfolding tracked_def by blast
  then show ?thesis using old_id_not_fresh [OF n(1) t n(2)] by simp
qed

lemma tracked_inject:
  assumes tr: "tracked w r" and fl: "flight w' r' = flight w r @ [i]" and new: "i \<notin> set (flight w r)"
    and i: "i = mk_id (rnNonce r) (Suc (rnCheckpointID r)) suffix" "suffix \<in> set barrier_suffixes"
    and r': "rnNonce r' = rnNonce r" "rnCheckpointID r' = Suc (rnCheckpointID r)"
    and c: "cwTick w' = cwTick w" "coHalted (cwCoord w') = coHalted (cwCoord w)"
  shows "tracked w' r'"
proof -
  have "\<exists>m s. j = mk_id (rnNonce r) m s \<and> m \<le> Suc (rnCheckpointID r) \<and> s \<in> set barrier_suffixes" if "j \<in> set (flight w r @ [i])" for j
  proof (cases "j = i")
    case False
    then have "j \<in> set (flight w r)" using that by simp
    then obtain m s where "j = mk_id (rnNonce r) m s" "m \<le> rnCheckpointID r" "s \<in> set barrier_suffixes"
      using tr unfolding tracked_def by blast
    then show ?thesis by (intro exI [of _ m] exI [of _ s]) simp
  qed (use i in auto)
  then show ?thesis using tr new unfolding tracked_def fl r' c by simp
qed

lemma staged_coord: "staged segs p v seg i pd (w\<lparr>cwCoord := c\<rparr>) r = staged segs p v seg i pd w r"
  by (simp add: staged_def)

lemma staged_run: "rnPipe r' = rnPipe r \<Longrightarrow> rnOut r' = rnOut r \<Longrightarrow> staged segs p v seg i pd w r' = staged segs p v seg i pd w r"
  by (simp add: staged_def)

lemma progress_inject:
  assumes pr: "progress l v segs p is w r" and w': "w' = w\<lparr>cwCoord := c\<rparr>"
    and c: "coEvents c = coEvents (cwCoord w)" "\<And>i. i \<in> set (coEvents (cwCoord w)) \<Longrightarrow> map_of (coPending c) i = map_of (coPending (cwCoord w)) i"
    and r: "rnPipe r' = rnPipe r" "rnOut r' = rnOut r" "rnWorker r' = rnWorker r"
    and f: "fresh \<lparr>syWorld = w', syRun = Some r'\<rparr> \<subseteq> fresh \<lparr>syWorld = w, syRun = Some r\<rparr>"
  shows "progress l v segs p is w' r'"
proof (cases "rnWorker r")
  case (Persisted i pd)
  then show ?thesis using pr f c unfolding progress_def r w' staged_coord
    by (simp add: staged_run [OF r(1,2)]) blast
next
  case Idle
  then show ?thesis using pr c unfolding progress_def r w' staged_coord
    by (auto simp: staged_run [OF r(1,2)])
next
  case (Committed i pd)
  then show ?thesis using pr c unfolding progress_def r w' staged_coord
    by (auto simp: staged_run [OF r(1,2)])
qed

lemma inv_barrier:
  assumes inv: "job_inv \<lparr>syWorld = w, syRun = Some r\<rparr>" and t: "cwTick w \<le> horizon"
    and step: "inject_barrier suffix r w = (w', r')" and suffix: "suffix \<in> set barrier_suffixes"
    and lively: "\<And>k. rnPos r k \<noteq> jbStart jb k \<Longrightarrow> k \<in> fst ` set (rnOffsets r)"
  shows "job_inv \<lparr>syWorld = w', syRun = Some r'\<rparr>"
proof -
  obtain l k segs ys p where st: "stored l k segs ys p \<lparr>syWorld = w, syRun = Some r\<rparr>" and ri: "run_inv l (vis (tsBroker (cwSink w))) segs p w r"
    using inv unfolding job_inv_running by blast
  have tr: "tracked w r" using ri by (simp add: run_inv_def)
  define i where "i = mk_id (rnNonce r) (Suc (rnCheckpointID r)) suffix"
  define c where "c = on_barrier_injected i (rnOffsets r) (cwCoord w)"
  have w': "w' = w\<lparr>cwCoord := c\<rparr>" and r': "r' = r\<lparr>rnCheckpointID := Suc (rnCheckpointID r), rnQueue := rnQueue r @ [(i, rnSegment r)], rnSegment := []\<rparr>"
    using step by (simp_all add: inject_barrier_def Let_def i_def c_def)
  have c': "coEvents c = coEvents (cwCoord w)" "coFatal c = coFatal (cwCoord w)" "coHalted c = coHalted (cwCoord w)"
    and pend: "map_of (coPending c) j = (if j = i then Some ((ensure i (cwCoord w))\<lparr>pOffsets := Some (rnOffsets r)\<rparr>) else map_of (coPending (cwCoord w)) j)" for j
    by (simp_all add: c_def on_barrier_injected_def put_pending_def update_conv')
  have new: "i \<in> next_ids r" unfolding i_def next_ids_def using suffix by blast
  have old: "j \<notin> next_ids r" if "j \<in> set (flight w r)" for j
    using flight_not_fresh [OF tr t that] by simp
  then have notin: "i \<notin> set (flight w r)" using new by blast
  have fl: "flight w' r' = flight w r @ [i]" by (simp add: flight_def w' r' c')
  have "next_ids r' \<subseteq> next_ids r" unfolding next_ids_def r' using Suc_lessD by (simp, blast)
  then have fr: "fresh \<lparr>syWorld = w', syRun = Some r'\<rparr> \<subseteq> fresh \<lparr>syWorld = w, syRun = Some r\<rparr>"
    unfolding fresh_Some fl using new by (auto simp: w')
  have tr': "tracked w' r'"
    by (rule tracked_inject [OF tr fl notin i_def suffix]) (simp_all add: w' r' c')
  have "run_inv l (vis (tsBroker (cwSink w'))) segs p w' r'"
    unfolding run_inv_def
  proof (intro conjI impI tr')
    show "coFatal (cwCoord w') \<noteq> None \<Longrightarrow> rnWorker r' = Idle" using ri by (simp add: run_inv_def w' c' r')
    assume "coFatal (cwCoord w') = None"
    then have "calm l (vis (tsBroker (cwSink w))) segs p w r" using ri by (simp add: run_inv_def w' c')
    then obtain "is" all where a: "all = is @ concat (map snd (rnQueue r)) @ rnSegment r"
      "reads (jbStart jb) (jbTopic jb) all" "rnPos r = pos (jbStart jb) all"
      "\<And>k n. map_of (rnOffsets r) k = Some n \<Longrightarrow> n = rnPos r k" "queue_ok (jbStart jb) (coPending (cwCoord w)) is (rnQueue r)"
      "progress l (vis (tsBroker (cwSink w))) segs p is w r" by (rule calmE) blast
    have at: "offset_at (jbStart jb) (rnOffsets r) = pos (jbStart jb) all"
    proof
      fix k
      show "offset_at (jbStart jb) (rnOffsets r) k = pos (jbStart jb) all k"
      proof (cases "map_of (rnOffsets r) k")
        case None
        then have "rnPos r k = jbStart jb k" using lively [of k] by (auto simp: map_of_eq_None_iff)
        then show ?thesis using None by (simp add: offset_at_def a(3))
      next
        case (Some n)
        then show ?thesis using a(4) [OF Some] by (simp add: offset_at_def a(3))
      qed
    qed
    have "queue_ok (jbStart jb) (coPending c) is (rnQueue r)"
    proof (rule queue_ok_cong [OF _ a(5)])
      fix j assume "j \<in> fst ` set (rnQueue r)"
      then have "j \<noteq> i" using notin by (auto simp: flight_def)
      then show "map_of (coPending c) j = map_of (coPending (cwCoord w)) j" by (simp add: pend)
    qed
    then have q: "queue_ok (jbStart jb) (coPending c) is (rnQueue r @ [(i, rnSegment r)])"
      using at by (simp add: queue_ok_append pend a(1))
    have "progress l (vis (tsBroker (cwSink w))) segs p is w' r'"
      by (rule progress_inject [OF a(6) w' c'(1) _ _ _ _ fr]) (use notin in \<open>auto simp: r' pend flight_def\<close>)
    then show "calm l (vis (tsBroker (cwSink w'))) segs p w' r'" unfolding calm_def
      using a(1-4) q by (intro exI [of _ "is"] exI [of _ all] conjI) (auto simp: r' w')
  qed
  moreover have "stored l k segs ys p \<lparr>syWorld = w', syRun = Some r'\<rparr>"
    by (rule stored_mono [OF st fr]) (simp_all add: w')
  ultimately show ?thesis unfolding job_inv_running by blast
qed

text \<open>Records and barriers reaching the sink.\<close>

lemma writes_filling: "triple (filling v rs) (write_record sk y) (\<lambda>_. filling v (rs @ [y])) (\<lambda>_. False)"
proof (rule tripleI)
  fix s e t assume f: "filling v rs s" and run: "write_record sk y s = (Inl e, t)"
  have "holding v (opn (tsBroker s)) s" using f by (simp add: filling_def holding_def)
  then show False using tripleD(1) [OF writes_record _ run] by blast
next
  fix s x t assume f: "filling v rs s" and run: "write_record sk y s = (Inr x, t)"
  have h: "holding v (opn (tsBroker s)) s" using f by (simp add: filling_def holding_def)
  have h': "holding v (opn (tsBroker s) @ (case scSerialize sk y of Inr m \<Rightarrow> [KRecord m] | Inl _ \<Rightarrow> [])) t"
    using tripleD(2) [OF writes_record h run] .
  have err: "tsProduceErr t = None \<Longrightarrow> tsProduceErr s = None \<and> (\<exists>m. scSerialize sk y = Inr m)"
    using run by (auto simp: write_record_def set_produce_err_def produce_def broker_def op_defs
        split: sum.splits option.splits prod.splits)
  show "filling v (rs @ [y]) t"
    unfolding filling_def
  proof (intro conjI impI)
    show "vis (tsBroker t) = v" using h' by (simp add: holding_def)
    assume n: "tsProduceErr t = None"
    then obtain m where m: "scSerialize sk y = Inr m" and s: "tsProduceErr s = None" using err by blast
    obtain ms where ms: "sent sk rs ms" "opn (tsBroker s) = map KRecord ms" using f s by (auto simp: filling_def)
    then show "\<exists>ms. sent sk (rs @ [y]) ms \<and> opn (tsBroker t) = map KRecord ms"
      using h' n m by (intro exI [of _ "ms @ [m]"]) (simp add: sent_def holding_def)
  qed
qed

lemma write_record_shows: "keeps (shows_only v) (write_record sk y)"
proof (rule tripleI)
  fix s e t assume f: "shows_only v s"
  have h: "holding v (opn (tsBroker s)) s" using f by (simp add: shows_only_def holding_def)
  show "write_record sk y s = (Inl e, t) \<Longrightarrow> shows_only v t" using tripleD(1) [OF writes_record h] by blast
  show "write_record sk y s = (Inr x, t) \<Longrightarrow> shows_only v t" for x
    using tripleD(2) [OF writes_record h] holding_shows by blast
qed

lemma progress_open:
  assumes "progress l v segs p is w r" and "tsWaiters (cwSink w) = []"
  shows "coEvents (cwCoord w) = [] \<and> is = concat segs \<and> peq p (rnPipe r) \<and> filling v (rnOut r) (cwSink w) \<and> (\<forall>i pd. rnWorker r \<noteq> Persisted i pd)"
  using assms unfolding progress_def staged_def by (auto split: worker.splits)

lemma inv_deliver:
  assumes inv: "job_inv \<lparr>syWorld = w, syRun = Some r\<rparr>" and wt: "tsWaiters (cwSink w) = []"
    and step: "on_sink (write_record sk y) w = (x, w')"
  shows "job_inv \<lparr>syWorld = w', syRun = Some (r\<lparr>rnOut := rnOut r @ [y]\<rparr>)\<rparr>"
proof -
  obtain l k segs ys p where st: "stored l k segs ys p \<lparr>syWorld = w, syRun = Some r\<rparr>" and ri: "run_inv l (vis (tsBroker (cwSink w))) segs p w r"
    using inv unfolding job_inv_running by blast
  obtain s where s: "write_record sk y (cwSink w) = (x, s)" and w': "w' = w\<lparr>cwSink := s\<rparr>" using step by (auto simp: on_sink_run)
  have v: "vis (tsBroker s) = vis (tsBroker (cwSink w))"
    using keeps_run [OF write_record_shows [of "vis (tsBroker (cwSink w))" y], of "cwSink w"] s by (simp add: shows_only_def)
  let ?r = "r\<lparr>rnOut := rnOut r @ [y]\<rparr>"
  have fl: "flight w' ?r = flight w r" by (simp add: flight_def w')
  have fr: "fresh \<lparr>syWorld = w', syRun = Some ?r\<rparr> = fresh \<lparr>syWorld = w, syRun = Some r\<rparr>"
    by (simp add: fresh_Some fl next_ids_def) (simp add: w')
  have pr: "progress l (vis (tsBroker (cwSink w))) segs p is w' ?r" if a: "progress l (vis (tsBroker (cwSink w))) segs p is w r" for "is"
  proof -
    have f: "filling (vis (tsBroker (cwSink w))) (rnOut r) (cwSink w)" using progress_open [OF a wt] by simp
    have "filling (vis (tsBroker (cwSink w))) (rnOut r @ [y]) s"
      using tripleD [OF writes_filling f, of y] s by (cases x) blast+
    then show ?thesis using a progress_open [OF a wt] unfolding progress_def w' by (auto split: worker.splits)
  qed
  have "tracked w' ?r" by (rule tracked_later [of w r "[]"]) (use ri fl in \<open>simp_all add: run_inv_def tracked_def w'\<close>)
  then have "run_inv l (vis (tsBroker (cwSink w'))) segs p w' ?r"
    using ri pr unfolding run_inv_def calm_def by (simp add: w' v) blast
  moreover have "stored l k segs ys p \<lparr>syWorld = w', syRun = Some ?r\<rparr>"
    by (rule stored_mono [OF st]) (simp only: fr order_refl, simp_all add: w' v)
  ultimately show ?thesis unfolding job_inv_running by blast
qed

lemma write_barrier_shows: "keeps (shows_only v) (write_barrier sk i)"
proof (rule tripleI)
  fix s e t assume f: "shows_only v s"
  have h: "holding v (opn (tsBroker s)) s" using f by (simp add: shows_only_def holding_def)
  show "write_barrier sk i s = (Inl e, t) \<Longrightarrow> shows_only v t" using tripleD(1) [OF writes_barrier h] by blast
  show "write_barrier sk i s = (Inr x, t) \<Longrightarrow> shows_only v t" for x
    using tripleD(2) [OF writes_barrier h] by blast
qed

lemma write_barrier_total: "\<exists>e t. write_barrier sk i s = (Inr e, t) \<and> tsWaiters t \<noteq> [] \<and> (e = None \<longrightarrow> tsProduceErr s = None)"
  by (auto simp: write_barrier_def produce_def set_produce_err_def broker_def op_defs split: sum.splits option.splits prod.splits)

lemma inv_align:
  assumes inv: "job_inv \<lparr>syWorld = w, syRun = Some r\<rparr>" and wt: "tsWaiters (cwSink w) = []"
    and q: "rnQueue r = (i, seg) # q" and runs: "piRuns pl (rnPipe r) seg (rnOut r) p'"
    and step: "sink_barrier (jbEnv jb) i (piSnapshot pl p') w = (x, w')"
  shows "job_inv \<lparr>syWorld = w', syRun = Some (r\<lparr>rnQueue := q, rnPipe := p', rnOut := []\<rparr>)\<rparr>"
proof -
  obtain l k segs ys p where st: "stored l k segs ys p \<lparr>syWorld = w, syRun = Some r\<rparr>" and ri: "run_inv l (vis (tsBroker (cwSink w))) segs p w r"
    using inv unfolding job_inv_running by blast
  let ?v = "vis (tsBroker (cwSink w))"
  let ?r = "r\<lparr>rnQueue := q, rnPipe := p', rnOut := []\<rparr>"
  obtain e s where s: "write_barrier sk i (cwSink w) = (Inr e, s)" "tsWaiters s \<noteq> []" "e = None \<Longrightarrow> tsProduceErr (cwSink w) = None"
    using write_barrier_total by blast
  have v: "vis (tsBroker s) = ?v"
    using keeps_run [OF write_barrier_shows [of ?v i], of "cwSink w"] s(1) by (simp add: shows_only_def)
  define c1 where "c1 = on_state_snapshot i (piSnapshot pl p') [] (cwCoord w)"
  define c where "c = on_sink_prepared i e c1"
  have w': "w' = w\<lparr>cwSink := s, cwCoord := c\<rparr>"
    using step s(1) by (auto simp: sink_barrier_def on_coord_def on_sink_def op_defs c_def c1_def)
  have nh: "\<not> coHalted (cwCoord w)" using ri by (simp add: run_inv_def tracked_def)
  have c': "coEvents c = coEvents (cwCoord w) @ [i]" "coFatal c = coFatal (cwCoord w)" "coHalted c = coHalted (cwCoord w)"
    using nh by (simp_all add: c_def c1_def on_sink_prepared_def on_state_snapshot_def put_pending_def Let_def)
  have pend: "map_of (coPending c) j = (if j = i then Some ((ensure i (cwCoord w))\<lparr>pState := piSnapshot pl p', pStateDirs := [], pPrepared := True, pSinkErr := e\<rparr>)
      else map_of (coPending (cwCoord w)) j)" for j
    by (simp add: c_def c1_def on_sink_prepared_def on_state_snapshot_def put_pending_def Let_def update_conv' ensure_def)
  have fl: "flight w' ?r = flight w r" by (simp add: flight_def w' c' q)
  have fr: "fresh \<lparr>syWorld = w', syRun = Some ?r\<rparr> = fresh \<lparr>syWorld = w, syRun = Some r\<rparr>"
    by (simp add: fresh_Some fl next_ids_def) (simp add: w')
  have tr': "tracked w' ?r" by (rule tracked_later [of w r "[]"]) (use ri nh in \<open>simp_all add: run_inv_def fl, simp_all add: w' c'\<close>)
  have "run_inv l ?v segs p w' ?r"
    unfolding run_inv_def
  proof (intro conjI impI tr')
    show "coFatal (cwCoord w') \<noteq> None \<Longrightarrow> rnWorker ?r = Idle" using ri by (simp add: run_inv_def w' c')
    assume "coFatal (cwCoord w') = None"
    then have "calm l (vis (tsBroker (cwSink w))) segs p w r" using ri by (simp add: run_inv_def w' c')
    then obtain "is" all where a: "all = is @ concat (map snd (rnQueue r)) @ rnSegment r"
      "reads (jbStart jb) (jbTopic jb) all" "rnPos r = pos (jbStart jb) all"
      "\<And>k n. map_of (rnOffsets r) k = Some n \<Longrightarrow> n = rnPos r k" "queue_ok (jbStart jb) (coPending (cwCoord w)) is (rnQueue r)"
      "progress l (vis (tsBroker (cwSink w))) segs p is w r" by (rule calmE) blast
    note o = progress_open [OF a(6) wt]
    obtain pd0 offs where pd0: "map_of (coPending (cwCoord w)) i = Some pd0" "pOffsets pd0 = Some offs"
      "offset_at (jbStart jb) offs = pos (jbStart jb) (concat segs @ seg)"
      using a(5) o by (auto simp: q)
    define pd where "pd = pd0\<lparr>pState := piSnapshot pl p', pStateDirs := [], pPrepared := True, pSinkErr := e\<rparr>"
    have pd: "map_of (coPending c) i = Some pd" using pd0 by (simp add: pend ensure_def pd_def)
    have "distinct (i # map fst q)" using ri by (simp add: run_inv_def tracked_def flight_def q)
    then have queue: "queue_ok (jbStart jb) (coPending c) (is @ seg) q"
      using a(5) by (intro queue_ok_cong [of q "coPending c" "coPending (cwCoord w)"]) (auto simp: q pend)
    obtain q' where q': "piRuns pl p seg (rnOut r) q'" "peq q' p'" using peq_runs [OF _ _ runs] o reads_from [OF a(2)] by (force simp: a(1) q)
    have opn: "\<exists>ms. sent sk (rnOut r) ms \<and> opn (tsBroker s) = map KRecord ms @ [KMarker txn i]" if en: "e = None"
    proof -
      obtain ms where ms: "sent sk (rnOut r) ms" "opn (tsBroker (cwSink w)) = map KRecord ms"
        using o s(3) [OF en] by (auto simp: filling_def)
      then have "holding ?v (map KRecord ms) (cwSink w)" by (simp add: holding_def)
      from tripleD(2) [OF writes_barrier this s(1)] en ms show ?thesis by auto
    qed
    have "staged segs p ?v seg i pd w' ?r"
      unfolding staged_def
    proof (intro conjI)
      show "\<exists>ys q. piRuns pl p seg ys q \<and> peq q (rnPipe ?r) \<and>
          (pSinkErr pd = None \<longrightarrow> (\<exists>ms. sent sk ys ms \<and> opn (tsBroker (cwSink w')) = map KRecord ms @ [KMarker txn i]))"
        using q' opn by (intro exI [of _ "rnOut r"] exI [of _ q']) (simp add: pd_def w')
      show "\<exists>offs. pOffsets pd = Some offs \<and> offset_at (jbStart jb) offs = pos (jbStart jb) (concat segs @ seg)"
        using pd0 by (simp add: pd_def)
    qed (use s(2) in \<open>simp_all add: pd_def w'\<close>)
    then have "progress l ?v segs p (is @ seg) w' ?r"
      using a(6) o pd c'(1) unfolding progress_def by (auto simp: w' split: worker.splits)
    then show "calm l ?v segs p w' ?r" unfolding calm_def
      using a(1-4) queue by (intro exI [of _ "is @ seg"] exI [of _ all] conjI) (auto simp: w' q)
  qed
  moreover have "stored l k segs ys p \<lparr>syWorld = w', syRun = Some ?r\<rparr>"
    by (rule stored_mono [OF st]) (simp only: fr order_refl, simp_all add: w' v)
  ultimately show ?thesis unfolding job_inv_running by (simp add: w' v) blast
qed

text \<open>The worker.\<close>

lemma fresh_shrinks:
  assumes "flight w r = is @ flight w' r'" "rnNonce r' = rnNonce r" "rnCheckpointID r' = rnCheckpointID r" "cwTick w \<le> cwTick w'"
  shows "fresh \<lparr>syWorld = w', syRun = Some r'\<rparr> \<subseteq> fresh \<lparr>syWorld = w, syRun = Some r\<rparr>"
  using coming_mono [OF assms(4)] unfolding fresh_Some next_ids_def assms(1-3) by auto

lemma finalize_take_run:
  "\<not> coHalted (cwCoord w) \<Longrightarrow> finalize_take i (take_event w) =
    (Inr (map_of (coPending (cwCoord w)) i), w\<lparr>cwCoord := (cwCoord w)\<lparr>coEvents := tl (coEvents (cwCoord w)), coPending := AList.delete i (coPending (cwCoord w))\<rparr>\<rparr>)"
  by (simp add: finalize_take_def take_event_def on_coord_def op_defs)

lemma abort_fatal_run:
  "\<exists>d s. abort_fatal (jbEnv jb) i e w = (Inr (), w\<lparr>cwDisk := d, cwSink := s, cwCoord := report_fatal e (cwCoord w)\<rparr>) \<and>
     vis (tsBroker s) = vis (tsBroker (cwSink w)) \<and> (\<forall>l k U. holds l k U (cwDisk w) \<longrightarrow> holds l k U d)"
proof -
  obtain x s where s: "abort sk i (cwSink w) = (x, s)" by fastforce
  obtain y d where d: "stCleanup (ceStorage (jbEnv jb)) i (cwDisk w) = (y, d)" by fastforce
  have "vis (tsBroker s) = vis (tsBroker (cwSink w))"
    using keeps_run [OF aborts [of "vis (tsBroker (cwSink w))" i], of "cwSink w"] s by (simp add: shows_only_def)
  moreover have "holds l k U d" if "holds l k U (cwDisk w)" for l k U
    using keeps_run [OF cleans [where i = i] that] d by simp
  moreover have "abort_fatal (jbEnv jb) i e w = (Inr (), w\<lparr>cwDisk := d, cwSink := s, cwCoord := report_fatal e (cwCoord w)\<rparr>)"
    using s d by (simp add: abort_fatal_def on_sink_def on_disk_def on_coord_def op_defs)
  ultimately show ?thesis by blast
qed

lemma report_fatal_simps [simp]:
  "coFatal (report_fatal e c) \<noteq> None" "coHalted (report_fatal e c) = coHalted c" "coEvents (report_fatal e c) = coEvents c"
  by (auto simp: report_fatal_def split: option.splits)

text \<open>A state that stopped with a fatal error.\<close>

lemma inv_fatal:
  assumes tr: "tracked w' r'"
    and st: "holds l k (savable (cwTick w') (fresh \<lparr>syWorld = w', syRun = Some r'\<rparr>)) (cwDisk w')"
      "durable l k (vis (tsBroker (cwSink w'))) segs ys p"
      "\<And>i. i \<in> fresh \<lparr>syWorld = w', syRun = Some r'\<rparr> \<Longrightarrow> KMarker txn i \<notin> set (vis (tsBroker (cwSink w')))"
    and c: "coFatal (cwCoord w') \<noteq> None" "rnWorker r' = Idle"
  shows "job_inv \<lparr>syWorld = w', syRun = Some r'\<rparr>"
proof -
  have "run_inv l (vis (tsBroker (cwSink w'))) segs p w' r'" using tr c by (auto simp: run_inv_def)
  moreover have "stored l k segs ys p \<lparr>syWorld = w', syRun = Some r'\<rparr>" unfolding stored_def using st by simp
  ultimately show ?thesis unfolding job_inv_running by blast
qed

lemma inv_skip:
  assumes inv: "job_inv \<lparr>syWorld = w, syRun = Some r\<rparr>" and idle: "rnWorker r = Idle" and ev: "coEvents (cwCoord w) = i # es"
    and step: "finalize_take i (take_event w) = (Inr None, w')"
  shows "job_inv \<lparr>syWorld = w', syRun = Some r\<rparr>"
proof -
  obtain l k segs ys p where st: "stored l k segs ys p \<lparr>syWorld = w, syRun = Some r\<rparr>" and ri: "run_inv l (vis (tsBroker (cwSink w))) segs p w r"
    using inv unfolding job_inv_running by blast
  have nh: "\<not> coHalted (cwCoord w)" using ri by (simp add: run_inv_def tracked_def)
  have none: "map_of (coPending (cwCoord w)) i = None" and
    w': "w' = w\<lparr>cwCoord := (cwCoord w)\<lparr>coEvents := es, coPending := AList.delete i (coPending (cwCoord w))\<rparr>\<rparr>"
    using step finalize_take_run [OF nh, of i] ev by simp_all
  have "coFatal (cwCoord w) \<noteq> None"
  proof
    assume "coFatal (cwCoord w) = None"
    then have "calm l (vis (tsBroker (cwSink w))) segs p w r" using ri by (simp add: run_inv_def)
    then show False by (rule calmE) (use idle ev none in \<open>auto simp: progress_def\<close>)
  qed
  moreover have fl: "flight w r = [i] @ flight w' r" by (simp add: flight_def ev w')
  moreover have fr: "fresh \<lparr>syWorld = w', syRun = Some r\<rparr> \<subseteq> fresh \<lparr>syWorld = w, syRun = Some r\<rparr>"
    by (rule fresh_shrinks [OF fl]) (simp_all add: w')
  moreover have "tracked w' r"
    by (rule tracked_later [OF _ fl]) (use ri nh in \<open>simp_all add: run_inv_def w'\<close>)
  ultimately show ?thesis
    using stored_mono [OF st fr] idle unfolding stored_def by (intro inv_fatal) (auto simp: w')
qed

lemma unmarked_target:
  "holds l k U d \<Longrightarrow> durable l k v segs ys p \<Longrightarrow> \<not> marked l v \<Longrightarrow> target l k v = k"
  using latest_completed_is [of _ k U d] unfolding durable_def target_def marked_def by (auto split: option.splits)

lemma durable_prepared:
  "durable l k v segs ys p \<Longrightarrow> target l k v = k \<Longrightarrow> \<not> is_completed c \<Longrightarrow> KMarker txn (ckID c) \<notin> set v \<Longrightarrow> durable (Some c) k v segs ys p"
  unfolding durable_def by (simp add: target_def)

lemma prepared_ckpt_simps [simp]:
  "ckID (prepared_ckpt x i t pd) = i" "ckTimestamp (prepared_ckpt x i t pd) = t" "ckStatus (prepared_ckpt x i t pd) = StatusPrepared"
  "\<not> is_completed (prepared_ckpt x i t pd)" "ckOperators (prepared_ckpt x i t pd) = pState pd"
  by (simp_all add: prepared_ckpt_def is_completed_def)

text \<open>Saving uses up one identifier and one time.\<close>

lemma saves_prepared:
  assumes h: "holds l k (savable t F) d" and t: "Suc t \<le> horizon" and F: "i \<in> F" "F' \<subseteq> F" "i \<notin> F'"
  shows "stSave (ceStorage (jbEnv jb)) (prepared_ckpt txn i (clk t) pd) d = (Inl e, d') \<Longrightarrow>
      holds l k (savable (Suc t) F') d' \<or> holds (Some (prepared_ckpt txn i (clk t) pd)) k (savable (Suc t) F') d'"
    and "stSave (ceStorage (jbEnv jb)) (prepared_ckpt txn i (clk t) pd) d = (Inr u, d') \<Longrightarrow>
      holds (Some (prepared_ckpt txn i (clk t) pd)) k (savable (Suc t) F') d'"
proof -
  let ?c = "prepared_ckpt txn i (clk t) pd"
  have "insert ?c (savable (Suc t) F') \<subseteq> savable t F"
    using F t savable_mono [of t "Suc t" F' F] by (auto simp: savable_def intro: exI [of _ t])
  then have h': "holds l k (insert ?c (savable (Suc t) F')) d" by (rule holds_mono [OF h])
  have "ckTimestamp ?c < ckTimestamp c' \<and> ckID ?c \<noteq> ckID c'" if "c' \<in> savable (Suc t) F'" for c'
    using that F(3) clock_mono [of t] unfolding savable_def by (auto simp: Suc_le_eq)
  note law = saves [of ?c "savable (Suc t) F'", OF _ this]
  show "stSave (ceStorage (jbEnv jb)) ?c d = (Inl e, d') \<Longrightarrow> holds l k (savable (Suc t) F') d' \<or> holds (Some ?c) k (savable (Suc t) F') d'"
    and "stSave (ceStorage (jbEnv jb)) ?c d = (Inr u, d') \<Longrightarrow> holds (Some ?c) k (savable (Suc t) F') d'"
    using tripleD [OF law h'] by simp_all
qed

text \<open>
  Checkpoint \<open>i\<close> is taken from the queue and not yet persisted, or persisted and not yet committed: its
  output is in the open transaction, its identifier is used up.
\<close>

definition ready where
  "ready i pd segs p seg w r \<longleftrightarrow> tracked w r \<and> coEvents (cwCoord w) = [] \<and> coFatal (cwCoord w) = None \<and>
     i \<notin> fresh \<lparr>syWorld = w, syRun = Some r\<rparr> \<and>
     (\<exists>all. all = (concat segs @ seg) @ concat (map snd (rnQueue r)) @ rnSegment r \<and>
        reads (jbStart jb) (jbTopic jb) all \<and> rnPos r = pos (jbStart jb) all \<and>
        (\<forall>k n. map_of (rnOffsets r) k = Some n \<longrightarrow> n = rnPos r k) \<and>
        queue_ok (jbStart jb) (coPending (cwCoord w)) (concat segs @ seg) (rnQueue r)) \<and>
     staged segs p (vis (tsBroker (cwSink w))) seg i pd w r \<and> KMarker txn i \<notin> set (vis (tsBroker (cwSink w)))"

lemma ready_persisted:
  assumes rd: "ready i pd segs p seg w r" and e: "pSinkErr pd = None"
    and st: "stored (Some (prepared_ckpt txn i t pd)) k segs ys p \<lparr>syWorld = w, syRun = Some r\<rparr>"
  shows "job_inv \<lparr>syWorld = w, syRun = Some (r\<lparr>rnWorker := Persisted i pd\<rparr>)\<rparr>"
proof -
  let ?r = "r\<lparr>rnWorker := Persisted i pd\<rparr>"
  have fr: "fresh \<lparr>syWorld = w, syRun = Some ?r\<rparr> = fresh \<lparr>syWorld = w, syRun = Some r\<rparr>"
    by (simp add: fresh_Some flight_def next_ids_def)
  have tr: "tracked w ?r" using rd by (simp add: ready_def tracked_def flight_def)
  have pr: "progress (Some (prepared_ckpt txn i t pd)) (vis (tsBroker (cwSink w))) segs p (concat segs @ seg) w ?r"
    using rd e unfolding progress_def ready_def by (auto simp: fr staged_def)
  obtain all where al: "all = (concat segs @ seg) @ concat (map snd (rnQueue r)) @ rnSegment r"
    "reads (jbStart jb) (jbTopic jb) all" "rnPos r = pos (jbStart jb) all"
    "\<forall>k n. map_of (rnOffsets r) k = Some n \<longrightarrow> n = rnPos r k" "queue_ok (jbStart jb) (coPending (cwCoord w)) (concat segs @ seg) (rnQueue r)"
    using rd unfolding ready_def by blast
  have "calm (Some (prepared_ckpt txn i t pd)) (vis (tsBroker (cwSink w))) segs p w ?r"
    unfolding calm_def
    by (rule exI [of _ "concat segs @ seg"], rule exI [of _ all], intro conjI pr) (use al in auto)
  then have "run_inv (Some (prepared_ckpt txn i t pd)) (vis (tsBroker (cwSink w))) segs p w ?r"
    using rd tr by (simp add: run_inv_def ready_def)
  moreover have "stored (Some (prepared_ckpt txn i t pd)) k segs ys p \<lparr>syWorld = w, syRun = Some ?r\<rparr>"
    by (rule stored_mono [OF st]) (simp_all add: fr)
  ultimately show ?thesis unfolding job_inv_running by blast
qed

lemma ready_taken:
  assumes inv: "job_inv \<lparr>syWorld = w, syRun = Some r\<rparr>" and idle: "rnWorker r = Idle" and ev: "coEvents (cwCoord w) = i # es"
    and fatal: "coFatal (cwCoord w) = None" and take_ev: "finalize_take i (take_event w) = (Inr (Some pd), w1)" and t: "cwTick w \<le> horizon"
  shows "\<exists>l k segs ys p seg. ready i pd segs p seg w1 r \<and> target l k (vis (tsBroker (cwSink w1))) = k \<and> durable l k (vis (tsBroker (cwSink w1))) segs ys p \<and>
    (\<forall>j \<in> fresh \<lparr>syWorld = w1, syRun = Some r\<rparr>. KMarker txn j \<notin> set (vis (tsBroker (cwSink w1)))) \<and>
    holds l k (savable (cwTick w1) (insert i (fresh \<lparr>syWorld = w1, syRun = Some r\<rparr>))) (cwDisk w1)"
proof -
  obtain l k segs ys p where st: "stored l k segs ys p \<lparr>syWorld = w, syRun = Some r\<rparr>" and ri: "run_inv l (vis (tsBroker (cwSink w))) segs p w r"
    using inv unfolding job_inv_running by blast
  let ?v = "vis (tsBroker (cwSink w))"
  let ?F = "fresh \<lparr>syWorld = w, syRun = Some r\<rparr>"
  have tr: "tracked w r" using ri by (simp add: run_inv_def)
  then have nh: "\<not> coHalted (cwCoord w)" by (simp add: tracked_def)
  have "calm l ?v segs p w r" using ri fatal by (simp add: run_inv_def)
  then obtain "is" all where a: "all = is @ concat (map snd (rnQueue r)) @ rnSegment r"
    "reads (jbStart jb) (jbTopic jb) all" "rnPos r = pos (jbStart jb) all"
    "\<And>k n. map_of (rnOffsets r) k = Some n \<Longrightarrow> n = rnPos r k" "queue_ok (jbStart jb) (coPending (cwCoord w)) is (rnQueue r)"
    "progress l ?v segs p is w r" by (rule calmE) blast
  have pd: "map_of (coPending (cwCoord w)) i = Some pd" and
    w1: "w1 = w\<lparr>cwCoord := (cwCoord w)\<lparr>coEvents := es, coPending := AList.delete i (coPending (cwCoord w))\<rparr>\<rparr>"
    using take_ev finalize_take_run [OF nh, of i] ev by simp_all
  obtain seg where es: "es = []" and nm: "\<not> marked l ?v" and seg: "is = concat segs @ seg" "staged segs p ?v seg i pd w r"
    using a(6) idle ev pd by (auto simp: progress_def)
  have fl: "flight w r = [i] @ flight w1 r" by (simp add: flight_def ev w1)
  then have d: "i \<notin> set (flight w1 r)" using tr by (simp add: tracked_def)
  have old: "i \<notin> coming (cwTick w) \<union> next_ids r" by (rule flight_not_fresh [OF tr t]) (simp add: fl)
  have F: "?F = insert i (fresh \<lparr>syWorld = w1, syRun = Some r\<rparr>)" by (simp add: fresh_Some fl) (simp add: w1)
  have iF: "i \<notin> fresh \<lparr>syWorld = w1, syRun = Some r\<rparr>" using old d by (simp add: fresh_Some) (simp add: w1)
  have tr1: "tracked w1 r" by (rule tracked_later [OF tr fl]) (simp_all add: w1 nh)
  have "queue_ok (jbStart jb) (coPending (cwCoord w1)) is (rnQueue r)"
    by (rule queue_ok_cong [OF _ a(5)]) (use d in \<open>auto simp: w1 flight_def\<close>)
  moreover have h: "holds l k (savable (cwTick w) ?F) (cwDisk w)" and dur: "durable l k ?v segs ys p"
    and mk: "\<forall>j \<in> ?F. KMarker txn j \<notin> set ?v"
    using st by (simp_all add: stored_def)
  ultimately have "ready i pd segs p seg w1 r"
    using tr1 iF a(1-4) seg fatal es unfolding ready_def F by (simp add: w1 staged_coord)
  moreover have "target l k ?v = k" by (rule unmarked_target [OF h dur nm])
  moreover have v1: "vis (tsBroker (cwSink w1)) = ?v" "cwTick w1 = cwTick w" "cwDisk w1 = cwDisk w" by (simp_all add: w1)
  ultimately show ?thesis using h dur mk unfolding F v1 by blast
qed

lemma fresh_Idle: "fresh \<lparr>syWorld = w, syRun = Some (r\<lparr>rnWorker := x\<rparr>)\<rparr> = fresh \<lparr>syWorld = w, syRun = Some r\<rparr>"
  by (simp add: fresh_Some flight_def next_ids_def)

lemma ready_later:
  assumes rd: "ready i pd segs p seg w r" and w': "w' = w\<lparr>cwTick := t, cwDisk := d\<rparr>" and t: "cwTick w \<le> t"
  shows "ready i pd segs p seg w' r"
proof -
  have fl: "flight w' r = flight w r" by (simp add: flight_def w')
  have fr: "fresh \<lparr>syWorld = w', syRun = Some r\<rparr> \<subseteq> fresh \<lparr>syWorld = w, syRun = Some r\<rparr>"
    by (rule fresh_shrinks [of w r "[]"]) (use fl t in \<open>simp_all add: w'\<close>)
  have tr: "tracked w' r"
    by (rule tracked_later [of w r "[]"]) (use fl t rd in \<open>simp_all add: ready_def tracked_def w'\<close>)
  have sg: "staged segs p (vis (tsBroker (cwSink w))) seg i pd w' r = staged segs p (vis (tsBroker (cwSink w))) seg i pd w r"
    by (simp add: staged_def w')
  show ?thesis using rd tr fr sg unfolding ready_def by (auto simp: w')
qed

lemma ready_fatal:
  assumes rd: "ready i pd segs0 p0 seg w r" and w': "w' = w\<lparr>cwDisk := d, cwSink := s, cwCoord := report_fatal e (cwCoord w)\<rparr>"
    and st: "holds l k (savable (cwTick w) (fresh \<lparr>syWorld = w, syRun = Some r\<rparr>)) d" "durable l k (vis (tsBroker s)) segs ys p"
      "\<forall>j \<in> fresh \<lparr>syWorld = w, syRun = Some r\<rparr>. KMarker txn j \<notin> set (vis (tsBroker s))"
  shows "job_inv \<lparr>syWorld = w', syRun = Some (r\<lparr>rnWorker := Idle\<rparr>)\<rparr>"
proof -
  let ?r = "r\<lparr>rnWorker := Idle\<rparr>"
  have fl: "flight w r = [] @ flight w' ?r" by (simp add: flight_def w')
  have tr: "tracked w' ?r"
    by (rule tracked_later [OF _ fl]) (use rd in \<open>simp_all add: ready_def tracked_def w'\<close>)
  have fr: "fresh \<lparr>syWorld = w', syRun = Some ?r\<rparr> = fresh \<lparr>syWorld = w, syRun = Some r\<rparr>"
    by (simp add: fresh_Some fl next_ids_def) (simp add: w')
  show ?thesis
    by (rule inv_fatal [OF tr]) (use st in \<open>simp_all only: fr\<close>, simp_all add: w')
qed

lemma inv_persist:
  assumes inv: "job_inv \<lparr>syWorld = w, syRun = Some r\<rparr>" and idle: "rnWorker r = Idle" and ev: "coEvents (cwCoord w) = i # es"
    and fatal: "coFatal (cwCoord w) = None" and take_ev: "finalize_take i (take_event w) = (Inr (Some pd), w1)"
    and step: "finalize_persist (jbEnv jb) i pd w1 = (Inr ok, w')" and t: "cwTick w' \<le> horizon" "cwTick w \<le> horizon"
  shows "job_inv \<lparr>syWorld = w', syRun = Some (r\<lparr>rnWorker := if ok then Persisted i pd else Idle\<rparr>)\<rparr>"
proof -
  let ?F = "fresh \<lparr>syWorld = w1, syRun = Some r\<rparr>"
  obtain l k segs ys p seg where rd: "ready i pd segs p seg w1 r" and tk: "target l k (vis (tsBroker (cwSink w1))) = k"
    and dur: "durable l k (vis (tsBroker (cwSink w1))) segs ys p" and mk: "\<forall>j \<in> ?F. KMarker txn j \<notin> set (vis (tsBroker (cwSink w1)))"
    and hl: "holds l k (savable (cwTick w1) (insert i ?F)) (cwDisk w1)"
    using ready_taken [OF inv idle ev fatal take_ev t(2)] by blast
  show ?thesis
  proof (cases "pSinkErr pd")
    case (Some e)
    obtain d s where ab: "abort_fatal (jbEnv jb) i (''checkpoint '' @ i @ '': sink prepare failed: '' @ e) w1 =
        (Inr (), w1\<lparr>cwDisk := d, cwSink := s, cwCoord := report_fatal (''checkpoint '' @ i @ '': sink prepare failed: '' @ e) (cwCoord w1)\<rparr>)"
      "vis (tsBroker s) = vis (tsBroker (cwSink w1))" "\<forall>l k U. holds l k U (cwDisk w1) \<longrightarrow> holds l k U d"
      using abort_fatal_run by blast
    have w': "w' = w1\<lparr>cwDisk := d, cwSink := s, cwCoord := report_fatal (''checkpoint '' @ i @ '': sink prepare failed: '' @ e) (cwCoord w1)\<rparr>" "\<not> ok"
      using step Some ab(1) by (auto simp: finalize_persist_def andThen_def ret_def)
    have "holds l k (savable (cwTick w1) ?F) d"
      using ab(3) hl holds_mono [OF _ savable_mono [OF order_refl subset_insertI]] by blast
    then show ?thesis using ready_fatal [OF rd w'(1)] dur mk ab(2) w'(2) by simp
  next
    case None
    define c where "c = prepared_ckpt txn i (clk (cwTick w1)) pd"
    obtain x d where sv: "stSave (ceStorage (jbEnv jb)) c (cwDisk w1) = (x, d)" by fastforce
    define w2 where "w2 = w1\<lparr>cwTick := Suc (cwTick w1), cwDisk := d\<rparr>"
    let ?F2 = "fresh \<lparr>syWorld = w2, syRun = Some r\<rparr>"
    have rd2: "ready i pd segs p seg w2 r" by (rule ready_later [OF rd w2_def]) simp
    have F2: "?F2 \<subseteq> ?F" by (rule fresh_shrinks [of w1 r "[]"]) (simp_all add: w2_def flight_def)
    have F: "i \<in> insert i ?F" "?F2 \<subseteq> insert i ?F" "i \<notin> ?F2" using F2 rd2 by (auto simp: ready_def)
    have step2: "(case x of Inl e \<Rightarrow> andThen (abort_fatal (jbEnv jb) i (''checkpoint '' @ i @ '': persist prepared: '' @ e)) (\<lambda>_. ret False) w2
        | Inr _ \<Rightarrow> (Inr True, w2)) = (Inr ok, w')"
      using step None sv by (cases x) (simp_all add: finalize_persist_def now_def on_disk_def op_defs c_def w2_def)
    have cm: "KMarker txn (ckID c) \<notin> set (vis (tsBroker (cwSink w1)))" "\<not> is_completed c" using rd by (simp_all add: c_def ready_def)
    have dc: "durable (Some c) k (vis (tsBroker (cwSink w1))) segs ys p" by (rule durable_prepared [OF dur tk cm(2,1)])
    have v2: "vis (tsBroker (cwSink w2)) = vis (tsBroker (cwSink w1))" "cwTick w2 = Suc (cwTick w1)" "cwDisk w2 = d" by (simp_all add: w2_def)
    show ?thesis
    proof (cases x)
      case (Inl e)
      obtain d' s where ab: "abort_fatal (jbEnv jb) i (''checkpoint '' @ i @ '': persist prepared: '' @ e) w2 =
          (Inr (), w2\<lparr>cwDisk := d', cwSink := s, cwCoord := report_fatal (''checkpoint '' @ i @ '': persist prepared: '' @ e) (cwCoord w2)\<rparr>)"
        "vis (tsBroker s) = vis (tsBroker (cwSink w2))" "\<forall>l k U. holds l k U (cwDisk w2) \<longrightarrow> holds l k U d'"
        using abort_fatal_run by blast
      have w': "w' = w2\<lparr>cwDisk := d', cwSink := s, cwCoord := report_fatal (''checkpoint '' @ i @ '': persist prepared: '' @ e) (cwCoord w2)\<rparr>" "\<not> ok"
        using step2 Inl ab(1) by (auto simp: andThen_def ret_def)
      have T: "Suc (cwTick w1) \<le> horizon" using t(1) by (simp add: w' v2)
      have vs: "vis (tsBroker s) = vis (tsBroker (cwSink w1))" using ab(2) v2 by simp
      obtain l' where h': "holds l' k (savable (cwTick w2) ?F2) d'" and d': "durable l' k (vis (tsBroker s)) segs ys p"
        using saves_prepared(1) [OF hl T F, of pd e d] sv Inl ab(3) dur dc unfolding c_def v2 vs by blast
      have "\<forall>j \<in> ?F2. KMarker txn j \<notin> set (vis (tsBroker s))" using mk F2 unfolding vs by blast
      from ready_fatal [OF rd2 w'(1) h' d' this] show ?thesis using w'(2) by simp
    next
      case (Inr u)
      then have w': "w' = w2" "ok" using step2 by simp_all
      have T: "Suc (cwTick w1) \<le> horizon" using t(1) by (simp add: w' v2)
      have "stored (Some c) k segs ys p \<lparr>syWorld = w2, syRun = Some r\<rparr>"
        using saves_prepared(2) [OF hl T F, of pd u d] sv Inr dc mk F2 unfolding stored_def c_def by (auto simp: v2)
      then show ?thesis using ready_persisted [OF rd2 None] w' by (simp add: c_def)
    qed
  qed
qed

text \<open>Committing.\<close>

lemma ready_of_persisted:
  assumes tr: "tracked w r" and pr: "calm l (vis (tsBroker (cwSink w))) segs p w r" and fatal: "coFatal (cwCoord w) = None"
    and wk: "rnWorker r = Persisted i pd"
  shows "\<exists>seg t. ready i pd segs p seg w r \<and> l = Some (prepared_ckpt txn i t pd) \<and> pSinkErr pd = None"
proof -
  from pr obtain "is" all where a: "all = is @ concat (map snd (rnQueue r)) @ rnSegment r"
    "reads (jbStart jb) (jbTopic jb) all" "rnPos r = pos (jbStart jb) all"
    "\<And>k n. map_of (rnOffsets r) k = Some n \<Longrightarrow> n = rnPos r k" "queue_ok (jbStart jb) (coPending (cwCoord w)) is (rnQueue r)"
    "progress l (vis (tsBroker (cwSink w))) segs p is w r" by (rule calmE) blast
  obtain seg t where "is = concat segs @ seg" "staged segs p (vis (tsBroker (cwSink w))) seg i pd w r" "l = Some (prepared_ckpt txn i t pd)"
    and rest: "coEvents (cwCoord w) = []" "pSinkErr pd = None" "KMarker txn i \<notin> set (vis (tsBroker (cwSink w)))" "i \<notin> fresh \<lparr>syWorld = w, syRun = Some r\<rparr>"
    using a(6) wk unfolding progress_def by auto
  moreover have "ready i pd segs p seg w r"
    unfolding ready_def using calculation a(1-5) tr fatal rest by auto
  ultimately show ?thesis by blast
qed

text \<open>The transaction of a prepared checkpoint has committed: the history grows by its segment.\<close>

lemma ready_committed:
  assumes rd: "ready i pd segs p seg w r" and e: "pSinkErr pd = None"
    and dur: "durable (Some (prepared_ckpt txn i t pd)) k (vis (tsBroker (cwSink w))) segs ys p"
  shows "\<exists>ms q. opn (tsBroker (cwSink w)) = map KRecord ms @ [KMarker txn i] \<and> peq q (rnPipe r) \<and>
    (\<exists>zs. durable (Some (prepared_ckpt txn i t pd)) k (vis (tsBroker (cwSink w)) @ map KRecord ms @ [KMarker txn i]) (segs @ [seg]) (ys @ zs) q)"
proof -
  let ?c = "prepared_ckpt txn i t pd"
  have sg: "staged segs p (vis (tsBroker (cwSink w))) seg i pd w r" using rd by (simp add: ready_def)
  obtain zs q ms offs where q: "piRuns pl p seg zs q" "peq q (rnPipe r)" "sent sk zs ms" "opn (tsBroker (cwSink w)) = map KRecord ms @ [KMarker txn i]"
    and pd: "pState pd = piSnapshot pl (rnPipe r)" "pOffsets pd = Some offs" "offset_at (jbStart jb) offs = pos (jbStart jb) (concat segs @ seg)"
    using sg e unfolding staged_def by blast
  have h: "hist pl segs ys p" "sent sk ys (records (vis (tsBroker (cwSink w))))" using dur by (simp_all add: durable_def)
  have "reads (jbStart jb) (jbTopic jb) ((concat segs @ seg) @ concat (map snd (rnQueue r)) @ rnSegment r)"
    using rd unfolding ready_def by blast
  then have rs: "reads (jbStart jb) (jbTopic jb) (concat (segs @ [seg]))" using reads_prefix by fastforce
  have "snapshot_of (concat (segs @ [seg])) q ?c"
    unfolding snapshot_of_def using q(2) pd
    by (auto simp: restore_source_offset_def prepared_ckpt_def)
  then have "durable (Some ?c) k (vis (tsBroker (cwSink w)) @ map KRecord ms @ [KMarker txn i]) (segs @ [seg]) (ys @ zs) q"
    unfolding durable_def using hist_snoc [OF h(1) q(1)] sent_append [OF h(2) q(3)] rs by (simp add: target_def)
  then show ?thesis using q(2,4) by blast
qed

lemma committed_running:
  assumes rd: "ready i pd segs0 p0 seg w r" and w': "w' = w\<lparr>cwSink := s\<rparr>" and hl: "holding v' [] s"
    and peq: "peq q (rnPipe r)" and segs: "segs = segs0 @ [seg]" and mi: "KMarker txn i \<in> set v'"
    and st: "stored (Some (prepared_ckpt txn i t pd)) k segs ys q \<lparr>syWorld = w', syRun = Some r\<rparr>"
  shows "job_inv \<lparr>syWorld = w', syRun = Some (r\<lparr>rnWorker := Committed i pd\<rparr>)\<rparr>"
proof -
  let ?r = "r\<lparr>rnWorker := Committed i pd\<rparr>"
  have v: "vis (tsBroker s) = v'" using hl by (simp add: holding_def)
  have ro: "rnOut r = []" using rd by (simp add: ready_def staged_def)
  have "filling v' [] s" using hl by (auto simp: holding_def filling_def)
  then have pr: "progress (Some (prepared_ckpt txn i t pd)) v' segs q (concat segs) w' ?r"
    unfolding progress_def using rd peq mi ro by (simp add: w' ready_def)
  obtain all where al: "all = (concat segs0 @ seg) @ concat (map snd (rnQueue r)) @ rnSegment r"
    "reads (jbStart jb) (jbTopic jb) all" "rnPos r = pos (jbStart jb) all"
    "\<forall>k n. map_of (rnOffsets r) k = Some n \<longrightarrow> n = rnPos r k" "queue_ok (jbStart jb) (coPending (cwCoord w)) (concat segs0 @ seg) (rnQueue r)"
    using rd unfolding ready_def by blast
  have "calm (Some (prepared_ckpt txn i t pd)) v' segs q w' ?r"
    unfolding calm_def
    by (rule exI [of _ "concat segs"], rule exI [of _ all], intro conjI pr) (use al in \<open>auto simp: segs w'\<close>)
  moreover have "tracked w' ?r" using rd by (simp add: ready_def tracked_def flight_def w')
  ultimately have "run_inv (Some (prepared_ckpt txn i t pd)) (vis (tsBroker (cwSink w'))) segs q w' ?r"
    using rd by (simp add: run_inv_def ready_def w' v)
  moreover have "stored (Some (prepared_ckpt txn i t pd)) k segs ys q \<lparr>syWorld = w', syRun = Some ?r\<rparr>"
    by (rule stored_mono [OF st]) (simp_all add: fresh_Idle)
  ultimately show ?thesis unfolding job_inv_running by blast
qed

lemma inv_commit:
  assumes inv: "job_inv \<lparr>syWorld = w, syRun = Some r\<rparr>" and wk: "rnWorker r = Persisted i pd"
    and step: "finalize_commit (jbEnv jb) i w = (Inr ok, w')"
  shows "job_inv \<lparr>syWorld = w', syRun = Some (r\<lparr>rnWorker := if ok then Committed i pd else Idle\<rparr>)\<rparr>"
proof -
  let ?F = "fresh \<lparr>syWorld = w, syRun = Some r\<rparr>" and ?v = "vis (tsBroker (cwSink w))"
  obtain l k segs ys p where st: "stored l k segs ys p \<lparr>syWorld = w, syRun = Some r\<rparr>" and ri: "run_inv l ?v segs p w r"
    using inv unfolding job_inv_running by blast
  have tr: "tracked w r" and fatal: "coFatal (cwCoord w) = None" using ri wk by (auto simp: run_inv_def)
  then obtain seg t where rd: "ready i pd segs p seg w r" and l: "l = Some (prepared_ckpt txn i t pd)" and e: "pSinkErr pd = None"
    using ready_of_persisted [OF tr _ fatal wk] ri unfolding run_inv_def by blast
  have hl: "holds l k (savable (cwTick w) ?F) (cwDisk w)" and dur: "durable l k ?v segs ys p" and mk: "\<forall>j \<in> ?F. KMarker txn j \<notin> set ?v"
    using st by (simp_all add: stored_def)
  obtain ms q zs where o: "opn (tsBroker (cwSink w)) = map KRecord ms @ [KMarker txn i]" "peq q (rnPipe r)"
    "durable l k (?v @ map KRecord ms @ [KMarker txn i]) (segs @ [seg]) (ys @ zs) q"
    using ready_committed [OF rd e dur [unfolded l]] l by blast
  let ?v' = "?v @ map KRecord ms @ [KMarker txn i]"
  have mk': "\<forall>j \<in> ?F. KMarker txn j \<notin> set ?v'" using mk rd by (auto simp: ready_def)
  obtain x s where cm: "commit sk i (cwSink w) = (x, s)" by fastforce
  note law = tripleD [OF commits [of ?v "map KRecord ms @ [KMarker txn i]" i], of "cwSink w"]
  show ?thesis
  proof (cases x)
    case (Inl err)
    then have w': "w' = w\<lparr>cwDisk := cwDisk w, cwSink := s, cwCoord := report_fatal (''checkpoint '' @ i @ '': sink commit: '' @ err) (cwCoord w)\<rparr>" "\<not> ok"
      using step cm by (auto simp: finalize_commit_def on_sink_def on_coord_def op_defs)
    have "vis (tsBroker s) = ?v \<or> vis (tsBroker s) = ?v'"
      using law(1) [of err s] cm Inl o(1) by (simp add: shows_only_def)
    then show ?thesis
      using ready_fatal [OF rd w'(1) hl] dur o(3) mk mk' w'(2) by auto
  next
    case (Inr u)
    then have w': "w' = w\<lparr>cwSink := s\<rparr>" "ok" using step cm by (auto simp: finalize_commit_def on_sink_def op_defs)
    have h: "holding ?v' [] s" using law(2) [of u s] cm Inr o(1) by simp
    have v: "vis (tsBroker s) = ?v'" using h by (simp add: holding_def)
    have fr: "fresh \<lparr>syWorld = w', syRun = Some r\<rparr> = ?F" by (simp add: fresh_Some flight_def w')
    have "stored l k (segs @ [seg]) (ys @ zs) q \<lparr>syWorld = w', syRun = Some r\<rparr>"
      using hl o(3) mk' unfolding stored_def fr by (simp add: w' v)
    then show ?thesis using committed_running [OF rd w'(1) h o(2) refl] w'(2) l by simp
  qed
qed

text \<open>Promoting.\<close>

lemma durable_promoted:
  "durable (Some c) k v segs ys p \<Longrightarrow> KMarker txn (ckID c) \<in> set v \<Longrightarrow> durable (Some (completed_of c)) (Some (completed_of c)) v segs ys p"
  unfolding durable_def by (simp add: target_def)

lemma offsets_advisory:
  assumes "finalize_offsets (jbEnv jb) pd w = (x, w')"
  shows "\<exists>b. w' = w\<lparr>cwSink := (cwSink w)\<lparr>tsBroker := b\<rparr>\<rparr> \<and> vis b = vis (tsBroker (cwSink w)) \<and> opn b = opn (tsBroker (cwSink w))"
proof (cases "ceCommitOffsets (jbEnv jb)")
  case None
  then have "w' = w" using assms by (simp add: finalize_offsets_def ret_def)
  then show ?thesis by (intro exI [of _ "tsBroker (cwSink w)"]) simp
next
  case (Some f)
  show ?thesis
  proof (cases "pOffsets pd")
    case None
    then have "w' = w" using assms Some by (simp add: finalize_offsets_def ret_def)
    then show ?thesis by (intro exI [of _ "tsBroker (cwSink w)"]) simp
  next
    case (Some offs)
    obtain y b where b: "f offs (tsBroker (cwSink w)) = (y, b)" by fastforce
    have "vis b = vis (tsBroker (cwSink w)) \<and> opn b = opn (tsBroker (cwSink w))"
      using keeps_run [OF advisory [OF \<open>ceCommitOffsets (jbEnv jb) = Some f\<close>, where v = "vis (tsBroker (cwSink w))"
          and o' = "opn (tsBroker (cwSink w))" and offs = offs], of "tsBroker (cwSink w)"] b by simp
    moreover have "w' = w\<lparr>cwSink := (cwSink w)\<lparr>tsBroker := b\<rparr>\<rparr>"
      using assms Some \<open>ceCommitOffsets (jbEnv jb) = Some f\<close> b by (auto simp: finalize_offsets_def on_sink_def broker_def op_defs)
    ultimately show ?thesis by blast
  qed
qed

lemma promoted_running:
  assumes ri: "run_inv (Some c) v segs p w r" and wk: "rnWorker r = Committed i pd" and v: "v = vis (tsBroker (cwSink w))"
    and w': "w' = w\<lparr>cwDisk := d, cwSink := (cwSink w)\<lparr>tsBroker := b\<rparr>\<rparr>" and b: "vis b = vis (tsBroker (cwSink w))" "opn b = opn (tsBroker (cwSink w))"
  shows "run_inv (Some (completed_of c)) (vis (tsBroker (cwSink w'))) segs p w' (r\<lparr>rnWorker := Idle\<rparr>)"
proof -
  let ?r = "r\<lparr>rnWorker := Idle\<rparr>"
  have fatal: "coFatal (cwCoord w) = None" and tr: "tracked w r" using ri wk by (auto simp: run_inv_def)
  then have "calm (Some c) v segs p w r" using ri by (simp add: run_inv_def)
  then obtain "is" all where a: "all = is @ concat (map snd (rnQueue r)) @ rnSegment r"
    "reads (jbStart jb) (jbTopic jb) all" "rnPos r = pos (jbStart jb) all"
    "\<And>k n. map_of (rnOffsets r) k = Some n \<Longrightarrow> n = rnPos r k" "queue_ok (jbStart jb) (coPending (cwCoord w)) is (rnQueue r)"
    "progress (Some c) v segs p is w r" by (rule calmE) blast
  have sg: "staged segs p v seg j pd' w' ?r = staged segs p v seg j pd' w r" for seg j pd'
    using b by (simp add: staged_def w')
  have fi: "filling v (rnOut r) (cwSink w') = filling v (rnOut r) (cwSink w)" using b by (simp add: filling_def w')
  have pr: "progress (Some (completed_of c)) v segs p is w' ?r"
    using a(6) wk unfolding progress_def by (auto simp: sg fi marked_def) (auto simp: w')
  have "calm (Some (completed_of c)) v segs p w' ?r"
    unfolding calm_def
    by (rule exI [of _ "is"], rule exI [of _ all], intro conjI pr) (use a(1-5) in \<open>auto simp: w'\<close>)
  moreover have "tracked w' ?r" using tr by (simp add: tracked_def flight_def w')
  ultimately show ?thesis using fatal b v by (simp add: run_inv_def w')
qed

lemma inv_promote:
  assumes inv: "job_inv \<lparr>syWorld = w, syRun = Some r\<rparr>" and wk: "rnWorker r = Committed i pd"
    and step: "finalize_promote (jbEnv jb) i w = (Inr ok, w1)" and snd: "sound (cwDisk w1)"
    and offs: "if ok then finalize_offsets (jbEnv jb) pd w1 = (x, w') else w' = w1"
  shows "job_inv \<lparr>syWorld = w', syRun = Some (r\<lparr>rnWorker := Idle\<rparr>)\<rparr>"
proof -
  let ?F = "fresh \<lparr>syWorld = w, syRun = Some r\<rparr>" and ?v = "vis (tsBroker (cwSink w))" and ?r = "r\<lparr>rnWorker := Idle\<rparr>"
  obtain l k segs ys p where st: "stored l k segs ys p \<lparr>syWorld = w, syRun = Some r\<rparr>" and ri: "run_inv l ?v segs p w r"
    using inv unfolding job_inv_running by blast
  have tr: "tracked w r" and cl: "calm l ?v segs p w r" using ri wk by (auto simp: run_inv_def)
  then obtain c where c: "l = Some c" "ckStatus c = StatusPrepared" "ckID c = i" "KMarker txn (ckID c) \<in> set ?v"
    using wk by (auto elim!: calmE simp: progress_def)
  have hl: "holds (Some c) k (savable (cwTick w) ?F) (cwDisk w)" and dur: "durable (Some c) k ?v segs ys p" and mk: "\<forall>j \<in> ?F. KMarker txn j \<notin> set ?v"
    using st c(1) by (simp_all add: stored_def)
  note dc = durable_promoted [OF dur c(4)]
  obtain y d where up: "stUpdateStatus (ceStorage (jbEnv jb)) i StatusCompleted (cwDisk w) = (y, d)" by fastforce
  note law = tripleD [OF promotes [OF c(2)] hl, unfolded c(3)]
  show ?thesis
  proof (cases y)
    case (Inl err)
    then have w': "w' = w\<lparr>cwDisk := d, cwCoord := report_fatal (''checkpoint '' @ i @ '': persist completed: '' @ err) (cwCoord w)\<rparr>" "w1 = w'"
      using step up offs by (auto simp: finalize_promote_def on_disk_def on_coord_def op_defs)
    have "sound d" using snd w' by simp
    then obtain l' k' where l': "holds l' k' (savable (cwTick w) ?F) d" "durable l' k' ?v segs ys p"
      using law(1) up Inl dur dc by blast
    have fl: "flight w r = [] @ flight w' ?r" by (simp add: flight_def w'(1))
    have fr: "fresh \<lparr>syWorld = w', syRun = Some ?r\<rparr> = ?F" by (simp add: fresh_Some fl next_ids_def) (simp add: w'(1))
    have "tracked w' ?r" by (rule tracked_later [OF tr fl]) (use tr in \<open>simp_all add: tracked_def w'(1)\<close>)
    then show ?thesis by (rule inv_fatal) (use l' mk in \<open>simp_all only: fr\<close>, simp_all add: w'(1))
  next
    case (Inr u)
    then have w1: "w1 = w\<lparr>cwDisk := d\<rparr>" and "ok" using step up by (auto simp: finalize_promote_def on_disk_def op_defs)
    then obtain b where b: "w' = w1\<lparr>cwSink := (cwSink w1)\<lparr>tsBroker := b\<rparr>\<rparr>" "vis b = ?v" "opn b = opn (tsBroker (cwSink w))"
      using offsets_advisory [of pd w1 x w'] offs by auto
    have w': "w' = w\<lparr>cwDisk := d, cwSink := (cwSink w)\<lparr>tsBroker := b\<rparr>\<rparr>" using b(1) by (simp add: w1)
    have h: "holds (Some (completed_of c)) (Some (completed_of c)) (savable (cwTick w) ?F) d" using law(2) up Inr by simp
    have fl: "flight w' ?r = flight w r" by (simp add: flight_def w')
    have fr: "fresh \<lparr>syWorld = w', syRun = Some ?r\<rparr> = ?F" by (simp add: fresh_Some fl next_ids_def) (simp add: w')
    have "stored (Some (completed_of c)) (Some (completed_of c)) segs ys p \<lparr>syWorld = w', syRun = Some ?r\<rparr>"
      unfolding stored_def fr using h dc mk b(2) by (simp add: w')
    moreover have "run_inv (Some (completed_of c)) (vis (tsBroker (cwSink w'))) segs p w' ?r"
      by (rule promoted_running [OF _ wk refl w' b(2,3)]) (use ri c(1) in simp)
    ultimately show ?thesis unfolding job_inv_running by blast
  qed
qed

text \<open>Starting.\<close>

lemma not_completed_prepared: "\<not> is_completed c \<Longrightarrow> ckStatus c = StatusPrepared"
  by (cases "ckStatus c") (simp_all add: is_completed_def)

definition resumed where
  "resumed U segs ys p w x w' \<longleftrightarrow> (\<exists>d b. w' = w\<lparr>cwDisk := d, cwSink := (cwSink w)\<lparr>tsBroker := b\<rparr>\<rparr> \<and> vis b = vis (tsBroker (cwSink w)) \<and>
     (case x of
        Inl e \<Rightarrow> sound d \<longrightarrow> (\<exists>l k. holds l k U d \<and> durable l k (vis b) segs ys p)
      | Inr ck \<Rightarrow> (\<exists>l k. holds l k U d \<and> durable l k (vis b) segs ys p \<and> \<not> marked l (vis b) \<and> ck = target l k (vis b))))"

lemma resumedI:
  assumes "w' = w\<lparr>cwDisk := d, cwSink := (cwSink w)\<lparr>tsBroker := b\<rparr>\<rparr>" "vis b = vis (tsBroker (cwSink w))"
    and "holds l k U d" "durable l k (vis b) segs ys p" "\<And>ck. x = Inr ck \<Longrightarrow> \<not> marked l (vis b) \<and> ck = target l k (vis b)"
  shows "resumed U segs ys p w x w'"
  unfolding resumed_def using assms by (intro exI [of _ d] exI [of _ b] conjI) (auto split: sum.splits)

lemma resumed_errI:
  assumes "w' = w\<lparr>cwDisk := d, cwSink := (cwSink w)\<lparr>tsBroker := b\<rparr>\<rparr>" "vis b = vis (tsBroker (cwSink w))" "x = Inl e"
    and "sound d \<longrightarrow> (\<exists>l k. holds l k U d \<and> durable l k (vis b) segs ys p)"
  shows "resumed U segs ys p w x w'"
  unfolding resumed_def assms(3) sum.case by (rule exI [of _ d], rule exI [of _ b], intro conjI assms)

lemma resumedE:
  assumes "resumed U segs ys p w x w'" and v: "vis (tsBroker (cwSink w)) = v"
  obtains d b where "w' = w\<lparr>cwDisk := d, cwSink := (cwSink w)\<lparr>tsBroker := b\<rparr>\<rparr>" "vis b = v"
    "case x of Inl e \<Rightarrow> sound d \<longrightarrow> (\<exists>l k. holds l k U d \<and> durable l k v segs ys p)
     | Inr ck \<Rightarrow> (\<exists>l k. holds l k U d \<and> durable l k v segs ys p \<and> \<not> marked l v \<and> ck = target l k v)"
proof -
  obtain d b where r: "w' = w\<lparr>cwDisk := d, cwSink := (cwSink w)\<lparr>tsBroker := b\<rparr>\<rparr>" "vis b = vis (tsBroker (cwSink w))"
    "case x of Inl e \<Rightarrow> sound d \<longrightarrow> (\<exists>l k. holds l k U d \<and> durable l k (vis b) segs ys p)
     | Inr ck \<Rightarrow> (\<exists>l k. holds l k U d \<and> durable l k (vis b) segs ys p \<and> \<not> marked l (vis b) \<and> ck = target l k (vis b))"
    using assms(1) unfolding resumed_def by blast
  have vb: "vis b = v" using r(2) v by simp
  show thesis by (rule that [OF r(1) vb r(3) [unfolded vb]])
qed

text \<open>A prepared checkpoint: the marker decides.\<close>

lemma resolve_prepared:
  assumes h: "holds (Some c) k U (cwDisk w)" and dur: "durable (Some c) k (vis (tsBroker (cwSink w))) segs ys p"
    and nr: "\<not> tsRunning (cwSink w)" and nc: "\<not> is_completed c"
    and run: "andThen (wrap e0 (on_sink (was_committed sk (ckID c))))
        (\<lambda>committed. if committed
          then andThen (wrap e1 (on_disk (stUpdateStatus (ceStorage (jbEnv jb)) (ckID c) StatusCompleted))) (\<lambda>_. ret (Some (c\<lparr>ckStatus := StatusCompleted\<rparr>)))
          else andThen (unless_err (on_sink (abort sk (ckID c)))) (\<lambda>_. on_disk (stLoadLatestCompleted (ceStorage (jbEnv jb))))) w = (x, w')"
  shows "resumed U segs ys p w x w'"
proof -
  let ?v = "vis (tsBroker (cwSink w))"
  obtain y b where pb: "kMarkerVisible (scClient sk) txn (ckID c) (tsBroker (cwSink w)) = (y, b)" by fastforce
  note probe = tripleD [OF marker [of ?v txn "ckID c"] refl]
  have vb: "vis b = ?v" using probe pb by (cases y) blast+
  have ym: "m = (KMarker txn (ckID c) \<in> set ?v)" if "y = Inr m" for m
    using probe(2) [of m b] pb that by simp
  let ?w = "w\<lparr>cwSink := (cwSink w)\<lparr>tsBroker := b\<rparr>\<rparr>"
  show ?thesis
  proof (cases y)
    case (Inl e)
    then have "w' = ?w" "\<exists>e. x = Inl e" using run pb by (auto simp: was_committed_def on_sink_def broker_def op_defs)
    then show ?thesis using h dur vb by (intro resumedI [where d = "cwDisk w" and b = b and l = "Some c" and k = k]) auto
  next
    case (Inr m)
    show ?thesis
    proof (cases m)
      case True
      obtain z d where up: "stUpdateStatus (ceStorage (jbEnv jb)) (ckID c) StatusCompleted (cwDisk w) = (z, d)" by fastforce
      have w': "w' = w\<lparr>cwDisk := d, cwSink := (cwSink w)\<lparr>tsBroker := b\<rparr>\<rparr>" and x: "\<And>u. z = Inr u \<Longrightarrow> x = Inr (Some (completed_of c))" "\<And>e. z = Inl e \<Longrightarrow> \<exists>e. x = Inl e"
        using run pb Inr True up by (cases z; auto simp: was_committed_def on_sink_def on_disk_def broker_def op_defs completed_of_def)+
      have "KMarker txn (ckID c) \<in> set ?v" using ym [OF Inr] True by simp
      note dc = durable_promoted [OF dur this]
      note law = tripleD [OF promotes [OF not_completed_prepared [OF nc]] h]
      show ?thesis
      proof (cases z)
        case (Inl e)
        have "sound d \<longrightarrow> (\<exists>l k. holds l k U d \<and> durable l k (vis b) segs ys p)" using law(1) up Inl dur dc unfolding vb by blast
        moreover obtain e' where "x = Inl e'" using x(2) [OF Inl] by blast
        ultimately show ?thesis using w' vb by (intro resumed_errI)
      next
        case (Inr u)
        have "holds (Some (completed_of c)) (Some (completed_of c)) U d" using law(2) up Inr by simp
        then show ?thesis using w' vb x(1) [OF Inr] dc
          by (intro resumedI [where d = d and b = b and l = "Some (completed_of c)" and k = "Some (completed_of c)"]) (auto simp: marked_def target_def)
      qed
    next
      case False
      obtain z d where ld: "stLoadLatestCompleted (ceStorage (jbEnv jb)) (cwDisk w) = (z, d)" by fastforce
      have w': "w' = w\<lparr>cwDisk := d, cwSink := (cwSink w)\<lparr>tsBroker := b\<rparr>\<rparr>" and x: "x = z"
        using run pb Inr False ld nr by (auto simp: was_committed_def on_sink_def on_disk_def broker_def abort_def op_defs)
      note law = tripleD [OF loads_completed h]
      have nm: "KMarker txn (ckID c) \<notin> set ?v" using ym [OF Inr] False by simp
      have "holds (Some c) k U d \<and> (\<forall>ck. z = Inr ck \<longrightarrow> ck = k)" using law ld by (cases z) auto
      then show ?thesis using w' vb dur nc nm x by (intro resumedI [where d = d and b = b and l = "Some c" and k = k]) (auto simp: marked_def target_def)
    qed
  qed
qed

lemma resolve_run:
  assumes h: "holds l k U (cwDisk w)" and dur: "durable l k (vis (tsBroker (cwSink w))) segs ys p" and nr: "\<not> tsRunning (cwSink w)"
    and run: "resolve_coordinated_recovery (jbEnv jb) w = (x, w')"
  shows "resumed U segs ys p w x w'"
proof -
  obtain y d where ld: "stLoad (ceStorage (jbEnv jb)) (cwDisk w) = (y, d)" by fastforce
  note law = tripleD [OF loads h]
  have hd: "holds l k U d" using law ld by (cases y) blast+
  have yl: "r = l" if "y = Inr r" for r using law(2) [of r d] ld that by simp
  have same: "w\<lparr>cwDisk := d, cwSink := cwSink w\<rparr> = w\<lparr>cwDisk := d\<rparr>" by simp
  show ?thesis
  proof (cases y)
    case (Inl e)
    then have "w' = w\<lparr>cwDisk := d\<rparr>" "\<exists>e. x = Inl e" using run ld by (auto simp: resolve_coordinated_recovery_def on_disk_def op_defs)
    then show ?thesis using hd dur by (intro resumedI [where d = d and b = "tsBroker (cwSink w)" and l = l and k = k]) auto
  next
    case (Inr r)
    then have y: "y = Inr l" using yl by simp
    consider (none) "l = None" | (completed) c where "l = Some c" "is_completed c" | (prepared) c where "l = Some c" "\<not> is_completed c" by (cases l) auto
    then show ?thesis
    proof cases
      case prepared
      have "resumed U segs ys p (w\<lparr>cwDisk := d\<rparr>) x w'"
        by (rule resolve_prepared [of c k U "w\<lparr>cwDisk := d\<rparr>"])
          (use hd dur nr prepared run ld y in \<open>simp_all add: resolve_coordinated_recovery_def on_disk_def andThen_def wrap_def zoom_def\<close>)
      then show ?thesis by (simp add: resumed_def)
    next
      case none
      then have "w' = w\<lparr>cwDisk := d\<rparr>" "x = Inr None" using run ld y by (auto simp: resolve_coordinated_recovery_def on_disk_def op_defs)
      then show ?thesis using hd dur none by (intro resumedI [where d = d and b = "tsBroker (cwSink w)" and l = l and k = k]) (auto simp: marked_def target_def)
    next
      case completed
      then have "w' = w\<lparr>cwDisk := d\<rparr>" "x = Inr l" using run ld y by (auto simp: resolve_coordinated_recovery_def on_disk_def op_defs)
      then show ?thesis using hd dur completed by (intro resumedI [where d = d and b = "tsBroker (cwSink w)" and l = l and k = k]) (auto simp: marked_def target_def)
    qed
  qed
qed

lemma restored:
  assumes dur: "durable l k v segs ys p" and run: "restore_workers pl (target l k v) w = (Inr p', w')"
  shows "peq p p'" and "restore_source_offset (jbStart jb) (target l k v) = pos (jbStart jb) (concat segs)"
proof -
  have "peq p p' \<and> restore_source_offset (jbStart jb) (target l k v) = pos (jbStart jb) (concat segs)"
  proof (cases "target l k v")
    case None
    then show ?thesis using durable_None [OF dur None] run peq_init
      by (simp add: restore_workers_def ret_def restore_source_offset_def)
  next
    case (Some c)
    then have sn: "snapshot_of (concat segs) p c" using dur by (simp add: durable_def)
    then obtain q where q: "peq p q" "ckOperators c = piSnapshot pl q" by (auto simp: snapshot_of_def)
    have "piRestore pl (piSnapshot pl q) = Inr p'"
      using run Some q(2) by (auto simp: restore_workers_def ret_def fail_def split: sum.splits)
    then show ?thesis using peq_restores [OF q(1)] Some sn by (simp add: snapshot_of_def)
  qed
  then show "peq p p'" and "restore_source_offset (jbStart jb) (target l k v) = pos (jbStart jb) (concat segs)" by simp_all
qed

text \<open>A run that has just started.\<close>

lemma started_running:
  assumes r: "r = \<lparr>rnNonce = clk t, rnCheckpointID = 0, rnPos = pos (jbStart jb) (concat segs), rnOffsets = [],
      rnSegment = [], rnQueue = [], rnPipe = p', rnOut = [], rnWorker = Idle\<rparr>"
    and w': "cwTick w' = Suc t" "cwCoord w' = new_coordinator" "holding v [] (cwSink w')" and t: "Suc t \<le> horizon"
    and h: "holds l k (savable t (coming t)) (cwDisk w')" and dur: "durable l k v segs ys p" and nm: "\<not> marked l v"
    and mk: "\<And>i. i \<in> coming t \<Longrightarrow> KMarker txn i \<notin> set v" and peq: "peq p p'"
  shows "job_inv \<lparr>syWorld = w', syRun = Some r\<rparr>"
proof -
  have v: "vis (tsBroker (cwSink w')) = v" using w'(3) by (simp add: holding_def)
  have fl: "flight w' r = []" by (simp add: flight_def w' r new_coordinator_def)
  have "next_ids r \<subseteq> coming t" unfolding next_ids_def coming_def using t by (auto simp: r) (metis Suc_leD order_refl)
  then have fr: "fresh \<lparr>syWorld = w', syRun = Some r\<rparr> \<subseteq> coming t"
    using coming_mono [of t "Suc t"] by (auto simp: fresh_Some fl w')
  have "stored l k segs ys p \<lparr>syWorld = w', syRun = Some r\<rparr>"
    unfolding stored_def using holds_mono [OF h savable_mono [OF _ fr], of "Suc t"] dur mk fr by (auto simp: v w')
  moreover have pr: "progress l v segs p (concat segs) w' r"
    unfolding progress_def using nm peq w'(3) by (auto simp: r w' new_coordinator_def holding_def filling_def)
  have "calm l v segs p w' r"
    unfolding calm_def by (rule exI [of _ "concat segs"], rule exI [of _ "concat segs"], intro conjI pr)
      (use dur in \<open>auto simp: r durable_def\<close>)
  moreover have "tracked w' r" unfolding tracked_def fl by (auto simp: w' r new_coordinator_def)
  ultimately show ?thesis unfolding job_inv_running by (intro exI conjI) (auto simp: run_inv_def w' r v new_coordinator_def)
qed

lemma start_rest:
  assumes "andThen (restore_workers pl ck) (\<lambda>p. andThen (on_sink (write_open sk)) (\<lambda>_. andThen (now (jbEnv jb)) (\<lambda>nonce.
      ret \<lparr>rnNonce = nonce, rnCheckpointID = 0, rnPos = restore_source_offset (jbStart jb) ck, rnOffsets = [],
      rnSegment = [], rnQueue = [], rnPipe = p, rnOut = [], rnWorker = Idle\<rparr>))) w = (x, w')"
    and "tsProduceErr (cwSink w) = None"
  shows "x = Inl e \<Longrightarrow> cwDisk w' = cwDisk w \<and> vis (tsBroker (cwSink w')) = vis (tsBroker (cwSink w)) \<and> cwTick w' = cwTick w"
    and "x = Inr r \<Longrightarrow> \<exists>p. restore_workers pl ck w = (Inr p, w) \<and> r = \<lparr>rnNonce = clk (cwTick w), rnCheckpointID = 0,
      rnPos = restore_source_offset (jbStart jb) ck, rnOffsets = [], rnSegment = [], rnQueue = [], rnPipe = p, rnOut = [], rnWorker = Idle\<rparr> \<and>
      cwDisk w' = cwDisk w \<and> cwTick w' = Suc (cwTick w) \<and> cwCoord w' = cwCoord w \<and> holding (vis (tsBroker (cwSink w))) [] (cwSink w')"
proof -
  let ?v = "vis (tsBroker (cwSink w))"
  obtain y s where op: "write_open sk (cwSink w) = (y, s)" by fastforce
  note law = tripleD [OF opens_txn [of ?v], of "cwSink w"]
  have sh: "shows_only ?v (cwSink w) \<and> tsProduceErr (cwSink w) = None" using assms(2) by (simp add: shows_only_def)
  have ok: "holding ?v [] s" if "y = Inr u" for u using law(2) [OF sh, of u s] op that by simp
  have err: "vis (tsBroker s) = ?v" if "y = Inl u" for u using law(1) [OF sh, of u s] op that by (simp add: shows_only_def)
  have "snd (restore_workers pl ck w) = w"
    by (simp add: restore_workers_def op_defs split: option.splits sum.splits)
  then obtain z where z: "restore_workers pl ck w = (z, w)" by (metis prod.collapse)
  show "x = Inl e \<Longrightarrow> cwDisk w' = cwDisk w \<and> vis (tsBroker (cwSink w')) = ?v \<and> cwTick w' = cwTick w"
    using assms(1) op z err by (cases y; cases z) (auto simp: andThen_def on_sink_def zoom_def now_def op_defs)
  show "x = Inr r \<Longrightarrow> \<exists>p. restore_workers pl ck w = (Inr p, w) \<and> r = \<lparr>rnNonce = clk (cwTick w), rnCheckpointID = 0,
      rnPos = restore_source_offset (jbStart jb) ck, rnOffsets = [], rnSegment = [], rnQueue = [], rnPipe = p, rnOut = [], rnWorker = Idle\<rparr> \<and>
      cwDisk w' = cwDisk w \<and> cwTick w' = Suc (cwTick w) \<and> cwCoord w' = cwCoord w \<and> holding ?v [] (cwSink w')"
    using assms(1) op z ok by (cases y; cases z) (auto simp: andThen_def on_sink_def zoom_def now_def op_defs)
qed

lemma inv_start:
  assumes inv: "job_inv \<lparr>syWorld = w, syRun = None\<rparr>" and run: "start_run jb w = (x, w')"
    and snd: "sound (cwDisk w')" and t: "cwTick w' \<le> horizon"
  shows "job_inv \<lparr>syWorld = w', syRun = (case x of Inr r \<Rightarrow> Some r | Inl _ \<Rightarrow> None)\<rparr>"
proof -
  let ?T = "cwTick w" and ?v = "vis (tsBroker (cwSink w))"
  let ?U = "savable ?T (coming ?T)"
  obtain l k segs ys p where st: "stored l k segs ys p \<lparr>syWorld = w, syRun = None\<rparr>" using inv unfolding job_inv_stopped by blast
  then have h: "holds l k ?U (cwDisk w)" and dur: "durable l k ?v segs ys p" and mk: "\<And>i. i \<in> coming ?T \<Longrightarrow> KMarker txn i \<notin> set ?v"
    by (simp_all add: stored_def fresh_None)
  have stop: "job_inv \<lparr>syWorld = w'', syRun = None\<rparr>"
    if "holds l k ?U (cwDisk w'')" "durable l k ?v segs ys p" "vis (tsBroker (cwSink w'')) = ?v" "cwTick w'' = ?T" for l k w''
    unfolding job_inv_stopped stored_def fresh_None using that mk by (intro exI conjI) (auto simp: fresh_None)
  obtain y1 d1 where op: "stOpen (ceStorage (jbEnv jb)) (cwDisk w) = (y1, d1)" by fastforce
  have h1: "holds l k ?U d1" using keeps_run [OF opens h] op by simp
  define w1 where "w1 = (new_process w)\<lparr>cwDisk := d1\<rparr>"
  have w1: "cwDisk w1 = d1" "vis (tsBroker (cwSink w1)) = ?v" "cwTick w1 = ?T" "cwCoord w1 = new_coordinator"
    "\<not> tsRunning (cwSink w1)" "tsProduceErr (cwSink w1) = None"
    by (simp_all add: w1_def new_process_def)
  obtain y2 w2 where rs: "resolve_coordinated_recovery (jbEnv jb) w1 = (y2, w2)" by fastforce
  have "resumed ?U segs ys p w1 y2 w2" by (rule resolve_run [of l k]) (use h1 dur w1 rs in simp_all)
  then obtain d b where w2: "w2 = w1\<lparr>cwDisk := d, cwSink := (cwSink w1)\<lparr>tsBroker := b\<rparr>\<rparr>" and vb: "vis b = ?v"
    and res: "case y2 of Inl e \<Rightarrow> sound d \<longrightarrow> (\<exists>l k. holds l k ?U d \<and> durable l k ?v segs ys p)
      | Inr ck \<Rightarrow> (\<exists>l k. holds l k ?U d \<and> durable l k ?v segs ys p \<and> \<not> marked l ?v \<and> ck = target l k ?v)"
    by (rule resumedE [OF _ w1(2)])
  have w2': "cwDisk w2 = d" "vis (tsBroker (cwSink w2)) = ?v" "cwTick w2 = ?T" "cwCoord w2 = new_coordinator" "tsProduceErr (cwSink w2) = None"
    using w1 vb by (simp_all add: w2)
  show ?thesis
  proof (cases y1)
    case (Inl e)
    then have "w' = w1" "\<exists>e. x = Inl e" using run op by (auto simp: start_run_def w1_def on_disk_def op_defs new_process_def)
    then show ?thesis using stop [of l k w1] h1 dur w1 by auto
  next
    case (Inr u)
    show ?thesis
    proof (cases y2)
      case (Inl e)
      then have "w' = w2" "\<exists>e. x = Inl e" using run op rs Inr by (auto simp: start_run_def w1_def on_disk_def op_defs new_process_def)
      moreover have "\<exists>l k. holds l k ?U d \<and> durable l k ?v segs ys p" using res Inl snd calculation(1) w2' by simp
      ultimately show ?thesis using stop [of _ _ w2] w2' by auto
    next
      case y2: (Inr ck)
      then obtain l' k' where l': "holds l' k' ?U d" "durable l' k' ?v segs ys p" "\<not> marked l' ?v" "ck = target l' k' ?v" using res by auto
      have rest: "andThen (restore_workers pl ck) (\<lambda>p. andThen (on_sink (write_open sk)) (\<lambda>_. andThen (now (jbEnv jb)) (\<lambda>nonce.
          ret \<lparr>rnNonce = nonce, rnCheckpointID = 0, rnPos = restore_source_offset (jbStart jb) ck, rnOffsets = [],
          rnSegment = [], rnQueue = [], rnPipe = p, rnOut = [], rnWorker = Idle\<rparr>))) w2 = (x, w')"
        using run op rs Inr y2 by (simp add: start_run_def w1_def on_disk_def op_defs new_process_def)
      show ?thesis
      proof (cases "\<exists>e. x = Inl e")
        case True
        then have "cwDisk w' = d" "vis (tsBroker (cwSink w')) = ?v" "cwTick w' = ?T" using start_rest(1) [OF rest w2'(5)] w2' by auto
        then show ?thesis using stop [OF _ l'(2), of w'] l'(1) True by auto
      next
        case False
        then obtain r where x: "x = Inr r" by (cases x) auto
        obtain p' where p': "restore_workers pl ck w2 = (Inr p', w2)" "r = \<lparr>rnNonce = clk ?T, rnCheckpointID = 0, rnPos = restore_source_offset (jbStart jb) ck, rnOffsets = [],
            rnSegment = [], rnQueue = [], rnPipe = p', rnOut = [], rnWorker = Idle\<rparr>"
          and w': "cwDisk w' = d" "cwTick w' = Suc ?T" "cwCoord w' = new_coordinator" "holding ?v [] (cwSink w')"
          using start_rest(2) [OF rest [unfolded x] w2'(5)] unfolding w2' by blast
        note re = restored [OF l'(2) p'(1) [unfolded l'(4)]]
        show ?thesis
          using started_running [OF _ w'(2,3,4) _ _ l'(2,3) mk re(1)] p'(2) re(2) t w' l' x by simp
      qed
    qed
  qed
qed

section \<open>Every step keeps the invariant\<close>

lemma step_inv:
  assumes "job_step \<lparr>prompt = True, whole = True, lively = True\<rparr> sound jb s s'" and "job_inv s" and "cwTick (syWorld s') \<le> horizon"
  shows "job_inv s'"
  using assms(1)
proof cases
  case (start w r w')
  then show ?thesis using inv_start [of w "Inr r" w'] assms by simp
next
  case (start_fails w e w')
  then show ?thesis using inv_start [of w "Inl e" w'] assms by simp
next
  case (crash w r)
  then show ?thesis using inv_crash assms by simp
next
  case (shutdown w x w' r)
  then show ?thesis using inv_shutdown assms by simp
next
  case (read w r k)
  then show ?thesis using inv_read assms by simp
next
  case (watermark w r t)
  then show ?thesis using inv_watermark assms by simp
next
  case (barrier suffix r w w' r')
  have "cwTick w \<le> horizon" using tick_mono [OF assms(1)] assms(3) barrier(1,2) by simp
  note step = inv_barrier [OF _ this barrier(3,4)]
  show ?thesis unfolding barrier(2) by (rule step) (use assms(2) barrier(1,5) in simp_all)
next
  case (deliver w y x w' r)
  then show ?thesis using inv_deliver assms by simp
next
  case (align w r i seg q p x w')
  then show ?thesis using inv_align [of w r i seg q p x w'] assms by simp
next
  case (skip r w i es w')
  then show ?thesis using inv_skip [of w r i es w'] assms by simp
next
  case (persist r w i es p w1 ok w')
  then show ?thesis using inv_persist [of w r i es p w1 ok w'] assms tick_mono [OF assms(1)] by simp
next
  case (commit r i p w ok w')
  then show ?thesis using inv_commit [of w r i p ok w'] assms by simp
next
  case (promote r i p w ok w1 x w')
  then show ?thesis using inv_promote [of w r i p ok w1 x w'] assms by simp
qed

lemma reach_inv:
  assumes "job_reach \<lparr>prompt = True, whole = True, lively = True\<rparr> sound jb s s'" and "job_inv s" and "cwTick (syWorld s') \<le> horizon"
  shows "job_inv s'"
  using assms unfolding job_reach_def
proof (induction rule: rtranclp_induct)
  case (step u s')
  then show ?case using step_inv tick_mono [OF step.hyps(2)] le_trans by blast
qed

lemma fresh_job_inv:
  assumes "holds None None (savable (cwTick w) (coming (cwTick w))) (cwDisk w)" and "vis (tsBroker (cwSink w)) = []"
  shows "job_inv \<lparr>syWorld = w, syRun = None\<rparr>"
proof -
  have "stored None None [] [] (piInit pl) \<lparr>syWorld = w, syRun = None\<rparr>"
    unfolding stored_def durable_def using assms by (simp add: fresh_None target_def hist_Nil)
  then show ?thesis unfolding job_inv_stopped by blast
qed

lemma delivers_exactly_once:
  assumes "job_inv s"
  shows "\<exists>segs ys p. hist pl segs ys p \<and> sent sk ys (records (vis (tsBroker (cwSink (syWorld s))))) \<and> reads (jbStart jb) (jbTopic jb) (concat segs)"
  using assms unfolding job_inv_def stored_def durable_def by blast

lemma savable_named: "c \<in> savable t (coming t) \<Longrightarrow> ckID c \<noteq> []"
  by (auto simp: savable_def coming_def mk_id_def)

lemma reach_delivers:
  assumes "job_reach \<lparr>prompt = True, whole = True, lively = True\<rparr> sound jb \<lparr>syWorld = w, syRun = None\<rparr> s"
    and "\<And>U. (\<And>c. c \<in> U \<Longrightarrow> ckID c \<noteq> []) \<Longrightarrow> holds None None U (cwDisk w)"
    and "vis (tsBroker (cwSink w)) = []" and "cwTick (syWorld s) \<le> horizon"
  shows "\<exists>segs ys p. hist pl segs ys p \<and> sent sk ys (records (vis (tsBroker (cwSink (syWorld s))))) \<and> reads (jbStart jb) (jbTopic jb) (concat segs)"
  using delivers_exactly_once [OF reach_inv [OF assms(1) fresh_job_inv assms(4)]] assms(2,3) savable_named by blast

end

end
