(* ===== verification/Job_Scripts.thy ===== *)
theory Job_Scripts
  imports Coordinated_Run Reduce_Op
begin

text \<open>
  Executions of a job as scripts: a deterministic schedule of the step relation for pipelines whose
  output can be computed, used to exhibit runs.
\<close>

datatype 'k action = Start | Crash | Read 'k | Inject | Deliver | Align | Persist | Commit | Promote

type_synonym ('k, 'x, 'p, 'r) next_fn = "'p \<Rightarrow> ('k, 'x) item list \<Rightarrow> ('r list \<times> 'p) option"

definition guard :: "bool \<Rightarrow> 'a \<Rightarrow> 'a option" where
  "guard b x = (if b then Some x else None)"

definition deliver_all :: "('d, 'b, 'r, 'm, 'v, 'k, 'x, 'p) job \<Rightarrow> 'r list \<Rightarrow> ('d, 'b, 'v, 'k offsets) cworld \<Rightarrow> ('d, 'b, 'v, 'k offsets) cworld" where
  "deliver_all jb ys w = fold (\<lambda>y w. snd (on_sink (write_record (ceSink (jbEnv jb)) y) w)) ys w"

text \<open>\<open>Align\<close> delivers what precedes the barrier, then the barrier.\<close>

fun act_run :: "conditions \<Rightarrow> ('d \<Rightarrow> bool) \<Rightarrow> ('d, 'b, 'r, 'm, 'v, 'k, 'x, 'p) job \<Rightarrow> ('k, 'x, 'p, 'r) next_fn \<Rightarrow> 'k list \<Rightarrow>
    'k action \<Rightarrow> ('d, 'b, 'v, 'k offsets) cworld \<Rightarrow> ('k, 'x, 'p, 'r, 'v) run \<Rightarrow> ('d, 'b, 'k, 'x, 'p, 'r, 'v) system option" where
  "act_run cs sound jb nxt ks Start w r = None"
| "act_run cs sound jb nxt ks Crash w r = Some \<lparr>syWorld = w, syRun = None\<rparr>"
| "act_run cs sound jb nxt ks (Read k) w r = Some \<lparr>syWorld = w, syRun = Some (read_record jb k r)\<rparr>"
| "act_run cs sound jb nxt ks Inject w r =
     (let (w', r') = inject_barrier [] r w
      in guard (lively cs \<longrightarrow> list_all (\<lambda>k. rnPos r k \<noteq> jbStart jb k \<longrightarrow> k \<in> set (map fst (rnOffsets r))) ks)
           \<lparr>syWorld = w', syRun = Some r'\<rparr>)"
| "act_run cs sound jb nxt ks Deliver w r =
     (case rnQueue r of
        [] \<Rightarrow> None
      | (i, seg) # q \<Rightarrow>
          let y = fst (the (nxt (rnPipe r) seg)) ! length (rnOut r); w' = snd (on_sink (write_record (ceSink (jbEnv jb)) y) w)
          in guard (tsWaiters (cwSink w) = []) \<lparr>syWorld = w', syRun = Some (r\<lparr>rnOut := rnOut r @ [y]\<rparr>)\<rparr>)"
| "act_run cs sound jb nxt ks Align w r =
     (case (rnQueue r, rnOut r) of
        ((i, seg) # q, []) \<Rightarrow>
          (case nxt (rnPipe r) seg of
             None \<Rightarrow> None
           | Some (out, p) \<Rightarrow>
               guard (tsWaiters (cwSink w) = [])
                 \<lparr>syWorld = snd (sink_barrier (jbEnv jb) i (piSnapshot (jbPipe jb) p) (deliver_all jb out w)),
                  syRun = Some (r\<lparr>rnQueue := q, rnPipe := p, rnOut := []\<rparr>)\<rparr>)
      | _ \<Rightarrow> None)"
| "act_run cs sound jb nxt ks Persist w r =
     (case (rnWorker r, coEvents (cwCoord w)) of
        (Idle, i # es) \<Rightarrow>
          (case finalize_take i (take_event w) of
             (Inr (Some p), w1) \<Rightarrow>
               (case finalize_persist (jbEnv jb) i p w1 of
                  (Inr ok, w') \<Rightarrow> guard (prompt cs \<longrightarrow> coFatal (cwCoord w) = None)
                     \<lparr>syWorld = w', syRun = Some (r\<lparr>rnWorker := if ok then Persisted i p else Idle\<rparr>)\<rparr>
                | _ \<Rightarrow> None)
           | _ \<Rightarrow> None)
      | _ \<Rightarrow> None)"
| "act_run cs sound jb nxt ks Commit w r =
     (case rnWorker r of
        Persisted i p \<Rightarrow>
          (case finalize_commit (jbEnv jb) i w of
             (Inr ok, w') \<Rightarrow> Some \<lparr>syWorld = w', syRun = Some (r\<lparr>rnWorker := if ok then Committed i p else Idle\<rparr>)\<rparr>
           | _ \<Rightarrow> None)
      | _ \<Rightarrow> None)"
| "act_run cs sound jb nxt ks Promote w r =
     (case rnWorker r of
        Committed i p \<Rightarrow>
          (case finalize_promote (jbEnv jb) i w of
             (Inr ok, w1) \<Rightarrow> guard (whole cs \<longrightarrow> sound (cwDisk w1))
                \<lparr>syWorld = if ok then snd (finalize_offsets (jbEnv jb) p w1) else w1, syRun = Some (r\<lparr>rnWorker := Idle\<rparr>)\<rparr>
           | _ \<Rightarrow> None)
      | _ \<Rightarrow> None)"

definition act :: "conditions \<Rightarrow> ('d \<Rightarrow> bool) \<Rightarrow> ('d, 'b, 'r, 'm, 'v, 'k, 'x, 'p) job \<Rightarrow> ('k, 'x, 'p, 'r) next_fn \<Rightarrow> 'k list \<Rightarrow>
    'k action \<Rightarrow> ('d, 'b, 'k, 'x, 'p, 'r, 'v) system \<Rightarrow> ('d, 'b, 'k, 'x, 'p, 'r, 'v) system option" where
  "act cs sound jb nxt ks a s =
     (case syRun s of
        Some r \<Rightarrow> act_run cs sound jb nxt ks a (syWorld s) r
      | None \<Rightarrow> (case a of
            Start \<Rightarrow> (case start_run jb (syWorld s) of (x, w') \<Rightarrow>
               guard (whole cs \<longrightarrow> sound (cwDisk w')) \<lparr>syWorld = w', syRun = (case x of Inl _ \<Rightarrow> None | Inr r \<Rightarrow> Some r)\<rparr>)
          | _ \<Rightarrow> None))"

fun acts :: "conditions \<Rightarrow> ('d \<Rightarrow> bool) \<Rightarrow> ('d, 'b, 'r, 'm, 'v, 'k, 'x, 'p) job \<Rightarrow> ('k, 'x, 'p, 'r) next_fn \<Rightarrow> 'k list \<Rightarrow>
    'k action list \<Rightarrow> ('d, 'b, 'k, 'x, 'p, 'r, 'v) system \<Rightarrow> ('d, 'b, 'k, 'x, 'p, 'r, 'v) system option" where
  "acts cs sound jb nxt ks [] s = Some s"
| "acts cs sound jb nxt ks (a # as) s =
     (case act cs sound jb nxt ks a s of None \<Rightarrow> None | Some s' \<Rightarrow> acts cs sound jb nxt ks as s')"

lemma guard_Some [simp]: "guard b x = Some y \<longleftrightarrow> b \<and> x = y"
  by (simp add: guard_def)

lemma write_record_waiters: "tsWaiters (snd (write_record sc y s)) = tsWaiters s"
  by (auto simp: write_record_def produce_def set_produce_err_def broker_def op_defs split: sum.split option.split prod.split)

lemma deliver_all_reach:
  assumes "tsWaiters (cwSink w) = []"
  shows "job_reach cs sound jb \<lparr>syWorld = w, syRun = Some r\<rparr> \<lparr>syWorld = deliver_all jb ys w, syRun = Some (r\<lparr>rnOut := rnOut r @ ys\<rparr>)\<rparr> \<and>
    tsWaiters (cwSink (deliver_all jb ys w)) = []"
  using assms
proof (induction ys arbitrary: w r)
  case Nil
  then show ?case by (simp add: deliver_all_def job_reach_def)
next
  case (Cons y ys)
  obtain x w' where y: "on_sink (write_record (ceSink (jbEnv jb)) y) w = (x, w')" by fastforce
  have "job_step cs sound jb \<lparr>syWorld = w, syRun = Some r\<rparr> \<lparr>syWorld = w', syRun = Some (r\<lparr>rnOut := rnOut r @ [y]\<rparr>)\<rparr>"
    using Cons.prems y by (rule job_step.deliver)
  moreover have "tsWaiters (cwSink w') = []"
    using y Cons.prems write_record_waiters [of "ceSink (jbEnv jb)" y "cwSink w"] by (auto simp: on_sink_def zoom_def split: prod.splits)
  ultimately show ?case
    using Cons.IH [of w' "r\<lparr>rnOut := rnOut r @ [y]\<rparr>"] y
    by (auto simp: deliver_all_def job_reach_def intro: converse_rtranclp_into_rtranclp)
qed

lemma act_run_reach:
  assumes run: "act_run cs sound jb nxt ks a w r = Some s'"
    and nxt: "\<And>p seg out q. nxt p seg = Some (out, q) \<Longrightarrow> piRuns (jbPipe jb) p seg out q" and ks: "set ks = UNIV"
  shows "job_reach cs sound jb \<lparr>syWorld = w, syRun = Some r\<rparr> s'"
proof (cases a)
  case Align
  then obtain i seg q out p where q: "rnQueue r = (i, seg) # q" "rnOut r = []" and n: "nxt (rnPipe r) seg = Some (out, p)"
    using run by (auto split: list.splits option.splits)
  have wt: "tsWaiters (cwSink w) = []" and s': "s' = \<lparr>syWorld = snd (sink_barrier (jbEnv jb) i (piSnapshot (jbPipe jb) p) (deliver_all jb out w)),
      syRun = Some (r\<lparr>rnQueue := q, rnPipe := p, rnOut := []\<rparr>)\<rparr>"
    using run Align q n by simp_all
  note d = deliver_all_reach [OF wt, of cs sound jb r out]
  let ?r = "r\<lparr>rnOut := out\<rparr>"
  obtain x w' where sb: "sink_barrier (jbEnv jb) i (piSnapshot (jbPipe jb) p) (deliver_all jb out w) = (x, w')" by fastforce
  have "job_step cs sound jb \<lparr>syWorld = deliver_all jb out w, syRun = Some ?r\<rparr> \<lparr>syWorld = w', syRun = Some (?r\<lparr>rnQueue := q, rnPipe := p, rnOut := []\<rparr>)\<rparr>"
    by (rule job_step.align [OF _ _ _ sb]) (use d q nxt [OF n] in simp_all)
  then show ?thesis using d q by (auto simp: s' sb job_reach_def)
next
  case Inject
  then show ?thesis using run ks unfolding job_reach_def
    by (auto intro!: r_into_rtranclp job_step.barrier simp: barrier_suffixes_def list_all_iff Let_def split: prod.splits)
next
  case Persist
  then show ?thesis using run unfolding job_reach_def
    by (auto intro!: r_into_rtranclp job_step.persist split: prod.splits worker.splits list.splits sum.splits option.splits)
next
  case Commit
  then show ?thesis using run unfolding job_reach_def
    by (auto intro!: r_into_rtranclp job_step.commit split: prod.splits worker.splits sum.splits)
next
  case Promote
  then show ?thesis using run unfolding job_reach_def
    by (auto intro!: r_into_rtranclp job_step.promote prod_eqI split: prod.splits worker.splits sum.splits)
next
  case Deliver
  then show ?thesis using run unfolding job_reach_def
    by (auto intro!: r_into_rtranclp job_step.deliver prod_eqI simp: Let_def split: list.splits)
qed (use run in \<open>auto simp: job_reach_def intro!: r_into_rtranclp job_step.crash job_step.read\<close>)

lemma act_reach:
  assumes run: "act cs sound jb nxt ks a s = Some s'"
    and nxt: "\<And>p seg out q. nxt p seg = Some (out, q) \<Longrightarrow> piRuns (jbPipe jb) p seg out q" and ks: "set ks = UNIV"
  shows "job_reach cs sound jb s s'"
proof (cases "syRun s")
  case None
  obtain x w' where st: "start_run jb (syWorld s) = (x, w')" by fastforce
  have s: "s = \<lparr>syWorld = syWorld s, syRun = None\<rparr>" using None by simp
  have "job_step cs sound jb \<lparr>syWorld = syWorld s, syRun = None\<rparr> s'"
    using run None st by (cases x; cases a) (auto simp: act_def intro: job_step.start job_step.start_fails)
  then show ?thesis using s by (auto simp: job_reach_def)
next
  case (Some r)
  have s: "s = \<lparr>syWorld = syWorld s, syRun = Some r\<rparr>" using Some by simp
  have "act_run cs sound jb nxt ks a (syWorld s) r = Some s'" using run Some by (simp add: act_def)
  from act_run_reach [OF this nxt ks] show ?thesis using s by simp
qed

lemma acts_reach:
  assumes "acts cs sound jb nxt ks as s = Some s'"
    and nxt: "\<And>p seg out q. nxt p seg = Some (out, q) \<Longrightarrow> piRuns (jbPipe jb) p seg out q" and ks: "set ks = UNIV"
  shows "job_reach cs sound jb s s'"
  using assms(1)
proof (induction "as" arbitrary: s)
  case (Cons a "as")
  then obtain u where "act cs sound jb nxt ks a s = Some u" "acts cs sound jb nxt ks as u = Some s'"
    by (auto split: option.splits)
  then have "job_reach cs sound jb s u" "job_reach cs sound jb u s'" using act_reach [OF _ nxt ks] Cons.IH by blast+
  then show ?case unfolding job_reach_def by (rule rtranclp_trans)
qed (simp add: job_reach_def)

end
