(* ===== verification/Exactly_Once_Props.thy ===== *)
theory Exactly_Once_Props
  imports Exactly_Once Job_Scripts
begin

text \<open>
  Exactly-once delivery for a job that reads Kafka partitions, reduces by key on any number of workers
  and writes through the transactional sink, with checkpoints in a directory. The Kafka client stays a
  parameter with the laws of the locale \<open>txn_broker\<close>; a broker that satisfies them shows
  that they can hold, and executions on it show what happens without each of the three
  conditions of the step relation.
\<close>

section \<open>The job\<close>

definition item_record :: "('k, rec) item \<Rightarrow> rec" where
  "item_record i = (case i of Elem k n x \<Rightarrow> x | Mark t \<Rightarrow> new_watermark t)"

definition reduce_pipeline :: "(bytes, 's) value_ops \<Rightarrow> reduce_fn \<Rightarrow> key_by \<Rightarrow> 's \<Rightarrow>
    ('s reduce_op list, ('k, rec) item, rec, op_snapshot) pipeline" where
  "reduce_pipeline V f kb s0 =
     \<lparr>piInit = keyed_workers kb s0, piRuns = (\<lambda>ws seg out ws'. keyed_run V f kb ws (map item_record seg) out ws'),
      piSnapshot = collect_snapshots V s0, piRestore = (\<lambda>snaps. Inr (restore_workers_from V kb s0 snaps))\<rparr>"

type_synonym memory = "(bytes, bytes) mem"

definition reduce_job :: "int \<Rightarrow> ('b, rec, 'm) sink_config \<Rightarrow> (nat \<Rightarrow> gotime) \<Rightarrow> reduce_fn \<Rightarrow> (rec \<Rightarrow> bytes) \<Rightarrow> nat \<Rightarrow>
    ('k \<Rightarrow> nat \<Rightarrow> rec) \<Rightarrow> ('k \<Rightarrow> nat) \<Rightarrow>
    ((op_snapshot, 'k offsets) disk, 'b, rec, 'm, op_snapshot, 'k, rec, memory reduce_op list) job" where
  "reduce_job retain sc clk f sel n topic start =
     \<lparr>jbEnv = \<lparr>ceStorage = file_store retain, ceSink = sc, ceNow = clk, ceCommitOffsets = None\<rparr>,
      jbPipe = reduce_pipeline (mem_values ''reduce'') f (keyed_by sel n) new_mem,
      jbTopic = topic, jbStart = start\<rparr>"

lemma reduce_job_fields [simp]:
  "ceStorage (jbEnv (reduce_job retain sc clk f sel n topic start)) = file_store retain"
  "ceSink (jbEnv (reduce_job retain sc clk f sel n topic start)) = sc"
  "ceNow (jbEnv (reduce_job retain sc clk f sel n topic start)) = clk"
  "ceCommitOffsets (jbEnv (reduce_job retain sc clk f sel n topic start)) = None"
  "jbPipe (reduce_job retain sc clk f sel n topic start) =
     reduce_pipeline (mem_values ''reduce'') f (keyed_by sel n) new_mem"
  "jbTopic (reduce_job retain sc clk f sel n topic start) = topic"
  "jbStart (reduce_job retain sc clk f sel n topic start) = start"
  by (simp_all add: reduce_job_def)

text \<open>A clock that increases, up to a last reading, and stays in the range of \<^verbatim>\<open>UnixNano\<close>.\<close>

definition good_clock :: "(nat \<Rightarrow> gotime) \<Rightarrow> nat \<Rightarrow> bool" where
  "good_clock clk horizon \<longleftrightarrow> (\<forall>n \<le> horizon. 0 \<le> clk n \<and> in_int64 (clk n)) \<and> (\<forall>n \<le> horizon. \<forall>m < n. clk m < clk n)"

text \<open>Input records outside windows, with keys that survive JSON.\<close>

definition plain_topic :: "(rec \<Rightarrow> bytes) \<Rightarrow> ('k \<Rightarrow> nat \<Rightarrow> rec) \<Rightarrow> bool" where
  "plain_topic sel topic \<longleftrightarrow> (\<forall>k n. is_data (topic k n) \<and> unwindowed ((topic k n)\<lparr>rKey := sel (topic k n)\<rparr>))"

lemma plain_items:
  assumes "plain_topic sel topic" and "\<forall>i \<in> set seg. from_topic topic i"
  shows "\<forall>r \<in> set (map item_record seg). is_marker r \<or> unwindowed (r\<lparr>rKey := sel r\<rparr>)"
proof
  fix r assume "r \<in> set (map item_record seg)"
  then obtain i where i: "from_topic topic i" "r = item_record i" using assms(2) by auto
  show "is_marker r \<or> unwindowed (r\<lparr>rKey := sel r\<rparr>)"
    by (cases i) (use assms(1) i in \<open>simp_all add: item_record_def from_topic_def plain_topic_def\<close>)
qed

abbreviation mem_stage_alike :: "nat \<Rightarrow> memory reduce_op list \<Rightarrow> memory reduce_op list \<Rightarrow> bool" where
  "mem_stage_alike n ps qs \<equiv> length ps = Suc n \<and> list_all2 (reduce_alike (mem_values ''reduce'') mem_inv) ps qs"

lemma reduce_job_contract:
  assumes "txn_broker (scClient sc) vis opn" and "good_clock clk horizon" and "plain_topic sel topic"
  shows "exactly_once (reduce_job retain sc clk f sel n topic start) settled viewed vis opn (mem_stage_alike n) horizon"
proof -
  let ?jb = "reduce_job retain sc clk f sel n topic start"
  have "txn_sink_ops sc vis opn" using assms(1) by (simp add: txn_sink_ops_def)
  moreover have "exactly_once_axioms ?jb vis opn (mem_stage_alike n) horizon"
  proof
    show "mem_stage_alike n (piInit (jbPipe ?jb)) (piInit (jbPipe ?jb))"
      using mem_reduce.stage_init [where n = n] by (simp add: reduce_pipeline_def del: of_nat_Suc)
  next
    fix p p' q' :: "memory reduce_op list" and xs ys
    assume p: "mem_stage_alike n p p'" "\<forall>i \<in> set xs. from_topic (jbTopic ?jb) i" "piRuns (jbPipe ?jb) p' xs ys q'"
    show "\<exists>q. piRuns (jbPipe ?jb) p xs ys q \<and> mem_stage_alike n q q'"
      using mem_reduce.stage_run [where n = n and sel = sel and ps = p and qs = p' and rs = "map item_record xs" and f = f and ns = "''reduce''"]
        p plain_items [OF assms(3), of xs] by (simp add: reduce_pipeline_def del: of_nat_Suc set_map)
  next
    fix p q p' :: "memory reduce_op list"
    assume "mem_stage_alike n p q" "piRestore (jbPipe ?jb) (piSnapshot (jbPipe ?jb) q) = Inr p'"
    then show "mem_stage_alike n p p'"
      using mem_reduce.stage_restore [where n = n and sel = sel] by (auto simp: reduce_pipeline_def simp del: of_nat_Suc)
  qed (use assms(2) in \<open>simp_all add: good_clock_def\<close>)
  ultimately show ?thesis
    by (simp add: exactly_once_def file_st.checkpoint_store_axioms)
qed

text \<open>A failure-free run of the stage, cut by barriers in any way, computes the reference for every key.\<close>

lemma hist_running:
  assumes "hist (reduce_pipeline (mem_values ns) f (keyed_by sel n) new_mem) segs ys ws" and "plain_topic sel topic"
    and "\<forall>i \<in> set (concat segs). from_topic topic i"
  shows "mem_reduce.stage_ok sel n ws \<and>
    mem_reduce.accum ns sel n ws key = total f None (key_stream (keyed_by sel n) key (map item_record (concat segs))) \<and>
    filter (\<lambda>r. rKey r = key) ys = running f None (key_stream (keyed_by sel n) key (map item_record (concat segs)))"
  using assms(1,3)
proof induction
  case hist_Nil
  then show ?case
    by (simp add: reduce_pipeline_def key_stream_def mem_reduce.stage_ok_init mem_reduce.accum_init)
next
  case (hist_snoc segs ys ws seg zs ws')
  have run: "keyed_run (mem_values ns) f (keyed_by sel n) ws (map item_record seg) zs ws'"
    using hist_snoc.hyps(2) by (simp add: reduce_pipeline_def)
  have "\<forall>i \<in> set seg. from_topic topic i" using hist_snoc.prems by simp
  then have "\<forall>r \<in> set (map item_record seg). is_marker r \<or> unwindowed (r\<lparr>rKey := kbSelector (keyed_by sel n) r\<rparr>)"
    using plain_items [OF assms(2), of seg] by simp
  note step = mem_reduce.keyed_run_keys [OF _ this run, of key]
  show ?case
    using hist_snoc.IH step hist_snoc.prems
    by (simp add: key_stream_def running_append total_append)
qed

section \<open>A broker\<close>

text \<open>
  A request fails before or after its effect, or not at all, as the script says; the script also stands
  for the errors that fencing an earlier producer causes.
\<close>

datatype fault = Fine | Refused | Lost

record 'm ref_broker =
  rbVisible :: "'m kmsg list"
  rbOpen :: "'m kmsg list"
  rbFaults :: "fault list"

definition rb_request :: "('m ref_broker \<Rightarrow> 'm ref_broker) \<Rightarrow> ('m ref_broker \<Rightarrow> 'a) \<Rightarrow> ('m ref_broker, 'a) op" where
  "rb_request effect answer b =
     (let b' = b\<lparr>rbFaults := tl (rbFaults b)\<rparr>
      in case rbFaults b of
           Refused # _ \<Rightarrow> (Inl ''refused'', b')
         | Lost # _ \<Rightarrow> (Inl ''connection lost'', effect b')
         | _ \<Rightarrow> (Inr (answer b'), effect b'))"

definition ref_client :: "('m ref_broker, 'm) kafka_client" where
  "ref_client =
     \<lparr>kNewClient = (\<lambda>_. rb_request id (\<lambda>_. ())),
      kBegin = rb_request (\<lambda>b. b\<lparr>rbOpen := []\<rparr>) (\<lambda>_. ()),
      kProduce = (\<lambda>m. rb_request (\<lambda>b. b\<lparr>rbOpen := rbOpen b @ [m]\<rparr>) (\<lambda>_. ())),
      kFlush = rb_request id (\<lambda>_. ()),
      kAbortBuffered = rb_request id (\<lambda>_. ()),
      kEnd = (\<lambda>commit. rb_request (\<lambda>b. if commit then b\<lparr>rbVisible := rbVisible b @ rbOpen b, rbOpen := []\<rparr> else b\<lparr>rbOpen := []\<rparr>) (\<lambda>_. ())),
      kMarkerVisible = (\<lambda>t i. rb_request id (\<lambda>b. KMarker t i \<in> set (rbVisible b)))\<rparr>"

lemma triple_rb_request:
  assumes "\<And>b. P b \<Longrightarrow> P (b\<lparr>rbFaults := tl (rbFaults b)\<rparr>)" and "\<And>b. P b \<Longrightarrow> Q (answer b) (effect b)"
    and "\<And>b. P b \<Longrightarrow> E b \<and> E (effect b)"
  shows "triple P (rb_request effect answer) Q E"
proof -
  have "case rb_request effect answer b of (Inl _, t) \<Rightarrow> E t | (Inr x, t) \<Rightarrow> Q x t" if "P b" for b
  proof -
    define b' where "b' = b\<lparr>rbFaults := tl (rbFaults b)\<rparr>"
    have "P b'" using assms(1) [OF that] by (simp only: b'_def)
    then show ?thesis using assms(2,3) by (simp add: rb_request_def b'_def [symmetric] split: list.split fault.split)
  qed
  then show ?thesis by (simp add: triple_def)
qed

interpretation ref: txn_broker ref_client rbVisible rbOpen
  by unfold_locales (auto simp: ref_client_def intro!: triple_rb_request)

interpretation ref_sink: txn_sink_ops "\<lparr>scClient = ref_client, scTxnID = txn, scSerialize = ser\<rparr>" rbVisible rbOpen for txn ser
  by unfold_locales (simp_all add: ref.new_client ref.begin_txn ref.produce_txn ref.flush_txn ref.abort_buffered ref.commit_txn ref.abort_txn ref.marker)

text \<open>Decimal numbers as keys, any reduce function, any number of workers.\<close>

lemma numbered_topic: "plain_topic (\<lambda>r. dec (g r)) (\<lambda>k m. blank\<lparr>rValue := val k m, rOffset := int m\<rparr>)"
proof -
  have "valid_utf8 (dec m)" for m
    by (rule ascii_valid) (auto dest!: dec_digits simp: byte_in_def is_digit_def digit_val_def Let_def split: if_splits)
  then show ?thesis by (simp add: plain_topic_def unwindowed_def blank_def is_marker_def)
qed

lemma integer_clock: "good_clock int (10 ^ 18)"
  unfolding good_clock_def in_int64_def by auto

interpretation ref_job: exactly_once "reduce_job retain \<lparr>scClient = ref_client, scTxnID = txn, scSerialize = ser\<rparr> int f (\<lambda>r. dec (g r)) n
    (\<lambda>k m. blank\<lparr>rValue := val k m, rOffset := int m\<rparr>) start" settled viewed rbVisible rbOpen "mem_stage_alike n" "10 ^ 18"
  for retain txn ser f g n val start
  by (rule reduce_job_contract [OF _ integer_clock numbered_topic]) (simp add: ref.txn_broker_axioms)

section \<open>An executable job\<close>

lemma settled_code [code]:
  "settled d \<longleftrightarrow> distinct (map fst (dFiles d)) \<and>
     list_all (\<lambda>(i, f). case f of None \<Rightarrow> False | Some c \<Rightarrow> ckID c = i \<and> i \<noteq> []) (dFiles d) \<and>
     distinct (map ckTimestamp (remdups (readable d))) \<and> completed_view d = newest LatestCompleted d \<and>
     (case latest_view d of None \<Rightarrow> True
      | Some l \<Rightarrow> list_all (\<lambda>c. is_completed c \<longrightarrow> ckTimestamp c \<le> ckTimestamp l) (readable d))"
  unfolding settled_def tidy_def
  by (auto simp: list_all_iff distinct_map split: option.splits)

text \<open>
  Two partitions with the records a, b, c and A, B, C, all of one key, one worker; the accumulator is what was read so far.
\<close>

definition append_fn :: reduce_fn where
  "append_fn acc r = Some (bytes_of acc @ rValue r)"

definition demo_topic :: "bool \<Rightarrow> nat \<Rightarrow> rec" where
  "demo_topic k n = blank\<lparr>rKey := ''k'', rValue := [(if k then ''ABC'' else ''abc'') ! min n 2], rOffset := int n\<rparr>"

definition demo_sink :: "(string ref_broker, rec, string) sink_config" where
  "demo_sink = \<lparr>scClient = ref_client, scTxnID = ''t'', scSerialize = (\<lambda>r. Inr (rValue r))\<rparr>"

definition demo_job :: "((op_snapshot, bool offsets) disk, string ref_broker, rec, string, op_snapshot, bool, rec, memory reduce_op list) job" where
  "demo_job = reduce_job 3 demo_sink int append_fn rKey 0 demo_topic (\<lambda>_. 0)"

definition demo_next :: "(bool, rec, memory reduce_op list, rec) next_fn" where
  "demo_next ws seg = keyed_next (mem_values ''reduce'') append_fn (keyed_by rKey 0) ws (map item_record seg)"

definition demo_world :: "bool list \<Rightarrow> fault list \<Rightarrow> ((op_snapshot, bool offsets) disk, string ref_broker, op_snapshot, bool offsets) cworld" where
  "demo_world disk_faults broker_faults =
     \<lparr>cwDisk = empty_disk\<lparr>dFaults := disk_faults\<rparr>,
      cwSink = \<lparr>tsBroker = \<lparr>rbVisible = [], rbOpen = [], rbFaults = broker_faults\<rparr>, tsRunning = False, tsWaiters = [], tsProduceErr = None\<rparr>,
      cwCoord = new_coordinator, cwTick = 0\<rparr>"

definition all_conditions :: conditions where
  "all_conditions = \<lparr>prompt = True, whole = True, lively = True\<rparr>"

definition demo_outcome :: "conditions \<Rightarrow> bool list \<Rightarrow> fault list \<Rightarrow> bool action list \<Rightarrow> (string list \<times> nat \<times> bool) option" where
  "demo_outcome cs df bf as =
     map_option (\<lambda>s. (records (rbVisible (tsBroker (cwSink (syWorld s)))), cwTick (syWorld s), syRun s = None))
       (acts cs settled demo_job demo_next [False, True] as \<lparr>syWorld = demo_world df bf, syRun = None\<rparr>)"

lemma demo_next_runs: "demo_next ws seg = Some (out, ws') \<Longrightarrow> piRuns (jbPipe demo_job) ws seg out ws'"
  using keyed_next_run by (simp add: demo_next_def demo_job_def reduce_pipeline_def)

lemma demo_reach:
  assumes "demo_outcome cs df bf as = Some (out, t, idle)"
  shows "\<exists>s. job_reach cs settled demo_job \<lparr>syWorld = demo_world df bf, syRun = None\<rparr> s \<and>
    records (rbVisible (tsBroker (cwSink (syWorld s)))) = out \<and> cwTick (syWorld s) = t"
proof -
  obtain s where s: "acts cs settled demo_job demo_next [False, True] as \<lparr>syWorld = demo_world df bf, syRun = None\<rparr> = Some s"
    "records (rbVisible (tsBroker (cwSink (syWorld s)))) = out" "cwTick (syWorld s) = t"
    using assms by (auto simp: demo_outcome_def)
  have "set [False, True] = UNIV" by auto
  from acts_reach [OF s(1) demo_next_runs this] show ?thesis using s by blast
qed

text \<open>
  A run with a crash after the commit of its first checkpoint and one after the second checkpoint was only prepared;
  the runs that each condition rules out.
\<close>

definition demo_recovery :: "bool action list" where
  "demo_recovery =
     [Start, Read False, Inject, Align, Persist, Commit, Crash,
      Start, Read True, Read False, Inject, Align, Persist, Crash,
      Start, Read False, Read True, Inject, Align, Persist, Commit, Promote]"

lemma demo_recovery_outcome: "demo_outcome all_conditions [] [] demo_recovery = Some ([''a'', ''ab'', ''abA''], 6, False)"
  by code_simp

lemma demo_fatal_outcome:
  "demo_outcome (all_conditions\<lparr>prompt := False\<rparr>) [] [Fine, Fine, Fine, Fine, Refused]
     [Start, Read False, Inject, Align, Persist, Read False, Inject, Align, Persist, Commit] = Some ([''ab''], 2, False)"
  by code_simp

lemma demo_torn_outcome:
  "demo_outcome (all_conditions\<lparr>whole := False\<rparr>) (replicate 23 False @ [True]) []
     [Start, Read False, Inject, Align, Persist, Commit, Promote, Read False, Inject, Align, Persist, Commit, Promote, Crash,
      Start, Read False, Inject, Align, Persist, Crash, Start, Read False, Inject, Align, Persist, Commit] =
   Some ([''a'', ''ab'', ''ab''], 7, False)"
  by code_simp

lemma demo_quiet_outcome:
  "demo_outcome (all_conditions\<lparr>lively := False\<rparr>) [] []
     [Start, Read False, Inject, Align, Persist, Commit, Promote, Crash, Start, Read True, Inject, Align, Persist, Commit, Promote, Crash,
      Start, Read False, Inject, Align, Persist, Commit, Promote] = Some ([''a'', ''aA'', ''aAa''], 6, False)"
  by code_simp

section \<open>Exactly once\<close>

text \<open>
  C1. Exactly-once delivery across crashes. Take a job that reads Kafka partitions of records outside
  windows with keys that are valid UTF-8, reduces them by key on any number of workers, and writes through the transactional
  sink, on a clock whose readings increase, started on an empty checkpoint directory and an
  output topic without committed records. Let it take any steps: reads, watermarks, barriers, deliveries, the
  phases of finalization, crashes at any point, restarts; let any file operation and any broker request fail, before or after its effect. As long
  as no fault falls between the two writes of one promotion, a fatal coordination error stops the run before another
  checkpoint is finalized, and every partition in use was read before a barrier, the committed output is what one failure-free pass over a
  prefix of each partition yields: every record of the prefixes counts once, and for every key the committed
  values are the successive accumulators of that key's records in the order of the pass.
\<close>

theorem exactly_once_delivery:
  assumes "txn_broker (scClient sc) vis opn" and "good_clock clk horizon" and "plain_topic sel topic"
    and "job_reach \<lparr>prompt = True, whole = True, lively = True\<rparr> settled (reduce_job retain sc clk f sel n topic start) \<lparr>syWorld = w, syRun = None\<rparr> s"
    and "cwDisk w = empty_disk\<lparr>dFaults := faults\<rparr>" and "vis (tsBroker (cwSink w)) = []" and "cwTick (syWorld s) \<le> horizon"
  shows "\<exists>is ys. reads start topic is \<and> sent sc ys (records (vis (tsBroker (cwSink (syWorld s))))) \<and>
    (\<forall>key. filter (\<lambda>r. rKey r = key) ys = running f None (key_stream (keyed_by sel n) key (map item_record is)))"
proof -
  note job = reduce_job_contract [OF assms(1-3), of retain f n start]
  have "\<exists>segs ys p. hist (jbPipe (reduce_job retain sc clk f sel n topic start)) segs ys p \<and>
      sent (ceSink (jbEnv (reduce_job retain sc clk f sel n topic start))) ys (records (vis (tsBroker (cwSink (syWorld s))))) \<and>
      reads (jbStart (reduce_job retain sc clk f sel n topic start)) (jbTopic (reduce_job retain sc clk f sel n topic start)) (concat segs)"
    by (rule exactly_once.reach_delivers [OF job assms(4) _ assms(6,7)]) (unfold assms(5), rule empty_disk_viewed)
  then obtain segs ys and p :: "memory reduce_op list" where h: "hist (reduce_pipeline (mem_values ''reduce'') f (keyed_by sel n) new_mem) segs ys p"
    "sent sc ys (records (vis (tsBroker (cwSink (syWorld s)))))" "reads start topic (concat segs)" by auto
  have "filter (\<lambda>r. rKey r = key) ys = running f None (key_stream (keyed_by sel n) key (map item_record (concat segs)))" for key
    using hist_running [OF h(1) assms(3), of key] reads_from [OF h(3)] by blast
  then show ?thesis using h(2,3) by blast
qed

theorem exactly_once_delivery_witness:
  "\<exists>s. job_reach \<lparr>prompt = True, whole = True, lively = True\<rparr> settled demo_job \<lparr>syWorld = demo_world [] [], syRun = None\<rparr> s \<and>
     records (rbVisible (tsBroker (cwSink (syWorld s)))) = [''a'', ''ab'', ''abA''] \<and>
     (\<exists>is ys. reads (\<lambda>_. 0) demo_topic is \<and> sent demo_sink ys (records (rbVisible (tsBroker (cwSink (syWorld s))))) \<and>
        (\<forall>key. filter (\<lambda>r. rKey r = key) ys = running append_fn None (key_stream (keyed_by rKey 0) key (map item_record is))))"
proof -
  obtain s where s: "job_reach \<lparr>prompt = True, whole = True, lively = True\<rparr> settled demo_job \<lparr>syWorld = demo_world [] [], syRun = None\<rparr> s"
    "records (rbVisible (tsBroker (cwSink (syWorld s)))) = [''a'', ''ab'', ''abA'']" "cwTick (syWorld s) = 6"
    using demo_reach [OF demo_recovery_outcome] by (auto simp: all_conditions_def)
  have kafka: "txn_broker (scClient demo_sink) rbVisible rbOpen" using ref.txn_broker_axioms by (simp add: demo_sink_def)
  have clock: "good_clock int 6" by (simp add: good_clock_def in_int64_def)
  have "valid_utf8 ''k''" by (rule ascii_valid) (simp add: byte_in_def)
  then have plain: "plain_topic rKey demo_topic"
    by (simp add: plain_topic_def demo_topic_def unwindowed_def blank_def is_marker_def)
  note claim = exactly_once_delivery [OF kafka clock plain s(1) [unfolded demo_job_def], of "[]"]
  show ?thesis
    by (rule exI [of _ s], intro conjI s(1,2), rule claim) (simp_all add: demo_world_def s(3))
qed

text \<open>
  C37. Each of the three conditions is needed. The job concatenates the records it reads, a, b, c from one partition and A, B, C from another. When the
  coordinator finalizes another checkpoint after a fatal one (a refused flush), the output for a is never
  committed although the committed state contains it; when a fault falls between the rewrite of a promoted checkpoint and the update of the pointer to the
  latest completed one, a later recovery restarts from an older checkpoint and the output for b is committed twice; when a partition is
  quiet between a restart and the next barrier, its position is missing from that checkpoint and a is read and added a second time.
\<close>

theorem exactly_once_conditions:
  "(\<exists>s. job_reach \<lparr>prompt = False, whole = True, lively = True\<rparr> settled demo_job
      \<lparr>syWorld = demo_world [] [Fine, Fine, Fine, Fine, Refused], syRun = None\<rparr> s \<and>
      records (rbVisible (tsBroker (cwSink (syWorld s)))) = [''ab'']) \<and>
   (\<exists>s. job_reach \<lparr>prompt = True, whole = False, lively = True\<rparr> settled demo_job
      \<lparr>syWorld = demo_world (replicate 23 False @ [True]) [], syRun = None\<rparr> s \<and>
      records (rbVisible (tsBroker (cwSink (syWorld s)))) = [''a'', ''ab'', ''ab'']) \<and>
   (\<exists>s. job_reach \<lparr>prompt = True, whole = True, lively = False\<rparr> settled demo_job
      \<lparr>syWorld = demo_world [] [], syRun = None\<rparr> s \<and>
      records (rbVisible (tsBroker (cwSink (syWorld s)))) = [''a'', ''aA'', ''aAa''])"
  using demo_reach [OF demo_fatal_outcome] demo_reach [OF demo_torn_outcome] demo_reach [OF demo_quiet_outcome]
  by (simp only: all_conditions_def conditions.update_convs) blast

end
