(* ===== verification/Join_Op.thy ===== *)
theory Join_Op
  imports Window_Op
begin

text \<open>
  The interval join (\<^verbatim>\<open>operator/join.go\<close>): two logical streams in one channel, told apart by
  \<^verbatim>\<open>Record.Source\<close>; a record is matched with the buffered records of the other side with its key, then
  buffered itself; the slower side's watermark evicts what can no longer match. The function that
  combines a pair is a parameter, as in the code when \<^verbatim>\<open>Fn\<close> is set.
\<close>

section \<open>The operator\<close>

record join_cfg =
  jcLeft :: string
  jcRight :: string
  jcBefore :: duration
  jcAfter :: duration
  jcFn :: "rec \<Rightarrow> rec \<Rightarrow> rec"

definition interval_join :: "string \<Rightarrow> string \<Rightarrow> duration \<Rightarrow> duration \<Rightarrow> (rec \<Rightarrow> rec \<Rightarrow> rec) \<Rightarrow> join_cfg" where
  "interval_join left right before after fn =
     \<lparr>jcLeft = left, jcRight = right, jcBefore = (if before < 0 then 0 else before),
      jcAfter = (if after < 0 then 0 else after), jcFn = fn\<rparr>"

definition join_within :: "string \<Rightarrow> string \<Rightarrow> duration \<Rightarrow> (rec \<Rightarrow> rec \<Rightarrow> rec) \<Rightarrow> join_cfg" where
  "join_within left right d fn = interval_join left right d d fn"

definition join_validate :: "join_cfg \<Rightarrow> string option" where \<comment> \<open>the error, if there is one\<close>
  "join_validate cfg =
     (if jcLeft cfg = [] \<or> jcRight cfg = [] then Some ''join: left and right sources are required''
      else if jcLeft cfg = jcRight cfg then Some ''join: left and right sources must differ''
      else None)"

record 's join_ns = \<comment> \<open>the namespaces \<^verbatim>\<open>join_left\<close>, \<^verbatim>\<open>join_right\<close>, \<^verbatim>\<open>join_watermarks\<close>\<close>
  jnLeft :: "(record_json, 's) list_ops"
  jnRight :: "(record_json, 's) list_ops"
  jnWM :: "(bytes, 's) value_ops"

record join_snapshot =
  jsLeftWM :: int
  jsRightWM :: int
  jsLeft :: "(string \<times> record_json list) list" \<comment> \<open>the JSON object, in document order\<close>
  jsRight :: "(string \<times> record_json list) list"

record 's join_op =
  joBackend :: 's
  joLeftWM :: gotime
  joRightWM :: gotime
  joEmittedWM :: gotime
  joSnapshots :: "(string \<times> join_snapshot) list" \<comment> \<open>handed to the barrier callback\<close>

datatype side = LeftSide | RightSide

definition side_of :: "join_cfg \<Rightarrow> rec \<Rightarrow> side option" where
  "side_of cfg r = (if rSource r = jcLeft cfg then Some LeftSide
     else if rSource r = jcRight cfg then Some RightSide else None)"

definition in_range :: "join_cfg \<Rightarrow> gotime \<Rightarrow> gotime \<Rightarrow> bool" where
  "in_range cfg leftTS rightTS \<longleftrightarrow> \<not> rightTS < leftTS + (- jcBefore cfg) \<and> \<not> leftTS + jcAfter cfg < rightTS"

definition emit_matches :: "join_cfg \<Rightarrow> rec \<Rightarrow> record_json list \<Rightarrow> bool \<Rightarrow> rec list" where
  "emit_matches cfg r others otherIsLeft =
     concat (map (\<lambda>raw. let o' = record_from_json raw; (left, right) = (if otherIsLeft then (o', r) else (r, o'))
       in if in_range cfg (rTimestamp left) (rTimestamp right) then [jcFn cfg left right] else []) others)"

definition handle_record :: "'s join_ns \<Rightarrow> join_cfg \<Rightarrow> rec \<Rightarrow> 's \<Rightarrow> 's \<times> rec list" where
  "handle_record N cfg r s =
     (case side_of cfg r of
        None \<Rightarrow> (s, [])
      | Some LeftSide \<Rightarrow>
          (lAppend (jnLeft N) (rKey r) (record_to_json r) s, emit_matches cfg r (lGetAll (jnRight N) (rKey r) s) False)
      | Some RightSide \<Rightarrow>
          (lAppend (jnRight N) (rKey r) (record_to_json r) s, emit_matches cfg r (lGetAll (jnLeft N) (rKey r) s) True))"

definition aligned_watermark :: "gotime \<Rightarrow> gotime \<Rightarrow> gotime" where
  "aligned_watermark a b = (if is_zero_time a \<or> is_zero_time b then zero_time else if a < b then a else b)"

definition store_side_watermark :: "'s join_ns \<Rightarrow> string \<Rightarrow> gotime \<Rightarrow> 's \<Rightarrow> 's" where
  "store_side_watermark N key ts s =
     (if is_zero_time ts then vClear (jnWM N) key s else vSet (jnWM N) key (put_uint64 (unix_nano ts)) s)"

definition load_side_watermark :: "'s join_ns \<Rightarrow> string \<Rightarrow> 's \<Rightarrow> gotime" where
  "load_side_watermark N key s =
     (case vGet (jnWM N) key s of None \<Rightarrow> zero_time
      | Some raw \<Rightarrow> if length raw \<noteq> 8 then zero_time else get_int64 raw)"

definition evict_key :: "(record_json, 's) list_ops \<Rightarrow> gotime \<Rightarrow> string \<Rightarrow> 's \<Rightarrow> 's" where
  "evict_key L cutoff key s =
     (let keep = filter (\<lambda>r. \<not> rTimestamp r < cutoff) (map record_from_json (lGetAll L key s))
      in fold (lAppend L key) (map record_to_json keep) (lClear L key s))"

definition evict :: "(record_json, 's) list_ops \<Rightarrow> gotime \<Rightarrow> 's \<Rightarrow> 's" where
  "evict L cutoff s = fold (evict_key L cutoff) (lKeys L s) s"

text \<open>The first part of \<^verbatim>\<open>handleWatermark\<close>: which sides a watermark advances.\<close>

definition advances_left :: "join_cfg \<Rightarrow> rec \<Rightarrow> bool" where
  "advances_left cfg r \<longleftrightarrow> rSource r = jcLeft cfg \<or> rSource r \<noteq> jcRight cfg \<and> rSource r = []"

definition advances_right :: "join_cfg \<Rightarrow> rec \<Rightarrow> bool" where
  "advances_right cfg r \<longleftrightarrow> rSource r \<noteq> jcLeft cfg \<and> (rSource r = jcRight cfg \<or> rSource r = [])"

definition advance_left :: "'s join_ns \<Rightarrow> rec \<Rightarrow> 's join_op \<Rightarrow> 's join_op" where
  "advance_left N r op =
     (if joLeftWM op < rTimestamp r
      then op\<lparr>joLeftWM := rTimestamp r, joBackend := store_side_watermark N ''left'' (rTimestamp r) (joBackend op)\<rparr> else op)"

definition advance_right :: "'s join_ns \<Rightarrow> rec \<Rightarrow> 's join_op \<Rightarrow> 's join_op" where
  "advance_right N r op =
     (if joRightWM op < rTimestamp r
      then op\<lparr>joRightWM := rTimestamp r, joBackend := store_side_watermark N ''right'' (rTimestamp r) (joBackend op)\<rparr> else op)"

definition join_watermark :: "'s join_ns \<Rightarrow> join_cfg \<Rightarrow> rec \<Rightarrow> 's join_op \<Rightarrow> 's join_op \<times> rec list" where
  "join_watermark N cfg r op =
     (if \<not> advances_left cfg r \<and> \<not> advances_right cfg r then (op, [])
      else
        let op1 = (if advances_left cfg r then advance_left N r op else op);
            op2 = (if advances_right cfg r then advance_right N r op1 else op1);
            aligned = aligned_watermark (joLeftWM op2) (joRightWM op2)
        in if is_zero_time aligned then (op2, [])
           else
             let op3 = op2\<lparr>joBackend := evict (jnRight N) (aligned + (- jcBefore cfg))
                             (evict (jnLeft N) (aligned + (- jcAfter cfg)) (joBackend op2))\<rparr>
             in if joEmittedWM op3 < aligned then (op3\<lparr>joEmittedWM := aligned\<rparr>, [new_watermark aligned]) else (op3, []))"

section \<open>Checkpoints\<close>

definition unix_nano_or_zero :: "gotime \<Rightarrow> int" where
  "unix_nano_or_zero t = (if is_zero_time t then 0 else unix_nano t)"

definition time_from_unix_nano_or_zero :: "int \<Rightarrow> gotime" where
  "time_from_unix_nano_or_zero n = (if n = 0 then zero_time else n)"

definition snapshot_join_side :: "(record_json, 's) list_ops \<Rightarrow> 's \<Rightarrow> (string \<times> record_json list) list" where
  "snapshot_join_side L s = map (\<lambda>k. (k, lGetAll L k s)) (lKeys L s)"

definition join_snapshot_of :: "'s join_ns \<Rightarrow> 's join_op \<Rightarrow> join_snapshot" where
  "join_snapshot_of N op =
     \<lparr>jsLeftWM = unix_nano_or_zero (joLeftWM op), jsRightWM = unix_nano_or_zero (joRightWM op),
      jsLeft = marshal_map (snapshot_join_side (jnLeft N) (joBackend op)),
      jsRight = marshal_map (snapshot_join_side (jnRight N) (joBackend op))\<rparr>"

definition restore_join_side :: "(record_json, 's) list_ops \<Rightarrow> (string \<times> record_json list) list \<Rightarrow> 's \<Rightarrow> 's" where
  "restore_join_side L entries s =
     fold (\<lambda>(k, recs). fold (lAppend L k) recs) entries (fold (lClear L) (lKeys L s) s)"

definition join_restore :: "'s join_ns \<Rightarrow> join_snapshot \<Rightarrow> 's join_op \<Rightarrow> 's join_op" where
  "join_restore N snap op =
     (let l = time_from_unix_nano_or_zero (jsLeftWM snap); r = time_from_unix_nano_or_zero (jsRightWM snap);
          s1 = store_side_watermark N ''right'' r (store_side_watermark N ''left'' l (joBackend op))
      in op\<lparr>joBackend := restore_join_side (jnRight N) (unmarshal_map (jsRight snap)) (restore_join_side (jnLeft N) (unmarshal_map (jsLeft snap)) s1),
          joLeftWM := l, joRightWM := r, joEmittedWM := aligned_watermark l r\<rparr>)"

section \<open>The processing loop\<close>

definition join_step :: "'s join_ns \<Rightarrow> join_cfg \<Rightarrow> rec \<Rightarrow> 's join_op \<Rightarrow> 's join_op \<times> rec list" where
  "join_step N cfg r op =
     (if isWatermark r then join_watermark N cfg r op
      else if isBarrier r then (op\<lparr>joSnapshots := joSnapshots op @ [(rCheckpointID r, join_snapshot_of N op)]\<rparr>, [r])
      else let (s, out) = handle_record N cfg r (joBackend op) in (op\<lparr>joBackend := s\<rparr>, out))"

definition join_start :: "'s join_ns \<Rightarrow> 's \<Rightarrow> 's join_op" where \<comment> \<open>\<^verbatim>\<open>loadWatermarks\<close>\<close>
  "join_start N s =
     (let l = load_side_watermark N ''left'' s; r = load_side_watermark N ''right'' s
      in \<lparr>joBackend = s, joLeftWM = l, joRightWM = r, joEmittedWM = aligned_watermark l r, joSnapshots = []\<rparr>)"

fun join_process :: "'s join_ns \<Rightarrow> join_cfg \<Rightarrow> rec list \<Rightarrow> 's join_op \<Rightarrow> 's join_op \<times> rec list" where
  "join_process N cfg [] op = (op, [])"
| "join_process N cfg (r # rs) op =
     (let (op1, out1) = join_step N cfg r op; (op2, out2) = join_process N cfg rs op1 in (op2, out1 @ out2))"

section \<open>The reference\<close>

text \<open>
  The join without eviction: every record meets all earlier records of the other side with its key. A
  record that was buffered comes back in its JSON form, without the cached view.
\<close>

definition buffered :: "rec \<Rightarrow> rec" where
  "buffered r = record_from_json (record_to_json r)"

definition pair_up :: "join_cfg \<Rightarrow> rec list \<Rightarrow> rec \<Rightarrow> rec list" where
  "pair_up cfg seen r =
     (case side_of cfg r of
        None \<Rightarrow> []
      | Some LeftSide \<Rightarrow> map (\<lambda>o'. jcFn cfg r (buffered o'))
          (filter (\<lambda>o'. side_of cfg o' = Some RightSide \<and> rKey o' = rKey r \<and> in_range cfg (rTimestamp r) (rTimestamp o')) seen)
      | Some RightSide \<Rightarrow> map (\<lambda>o'. jcFn cfg (buffered o') r)
          (filter (\<lambda>o'. side_of cfg o' = Some LeftSide \<and> rKey o' = rKey r \<and> in_range cfg (rTimestamp o') (rTimestamp r)) seen))"

fun join_reference :: "join_cfg \<Rightarrow> rec list \<Rightarrow> rec list \<Rightarrow> rec list" where
  "join_reference cfg seen [] = []"
| "join_reference cfg seen (r # rs) =
     (if is_marker r then join_reference cfg seen rs
      else pair_up cfg seen r @ join_reference cfg (seen @ [r]) rs)"

text \<open>No record is behind the aligned watermark when it arrives.\<close>

definition left_mark :: "join_cfg \<Rightarrow> rec \<Rightarrow> gotime \<Rightarrow> gotime" where
  "left_mark cfg r lw = (if advances_left cfg r then max lw (rTimestamp r) else lw)"

definition right_mark :: "join_cfg \<Rightarrow> rec \<Rightarrow> gotime \<Rightarrow> gotime" where
  "right_mark cfg r rw = (if advances_right cfg r then max rw (rTimestamp r) else rw)"

fun punctual :: "join_cfg \<Rightarrow> gotime \<Rightarrow> gotime \<Rightarrow> rec list \<Rightarrow> bool" where
  "punctual cfg lw rw [] \<longleftrightarrow> True"
| "punctual cfg lw rw (r # rs) \<longleftrightarrow>
     (if isWatermark r then
        punctual cfg (left_mark cfg r lw) (right_mark cfg r rw) rs
      else if isBarrier r then punctual cfg lw rw rs
      else (side_of cfg r = None \<or> is_zero_time (aligned_watermark lw rw) \<or> aligned_watermark lw rw \<le> rTimestamp r) \<and> punctual cfg lw rw rs)"

end
