(* ===== verification/Join_Correct.thy ===== *)
theory Join_Correct
  imports Join_Op
begin

text \<open>
  The interval join against its reference: evicting buffered records at the aligned watermark loses no
  match of punctual input, across any number of watermarks and across a checkpoint and restore.
\<close>

section \<open>Eviction\<close>

lemma record_json_inverse: "in_int64 (jTimestamp j) \<Longrightarrow> record_to_json (record_from_json j) = j"
  by (simp add: record_from_json_def record_to_json_def blank_def)

lemma jTimestamp_to_json [simp]: "jTimestamp (record_to_json r) = unix_nano (rTimestamp r)"
  by (simp add: record_to_json_def)

lemma rTimestamp_from_json [simp]: "rTimestamp (record_from_json j) = jTimestamp j"
  by (simp add: record_from_json_def blank_def)

abbreviation since :: "int \<Rightarrow> record_json list \<Rightarrow> record_json list" where
  "since c js \<equiv> filter (\<lambda>j. c \<le> jTimestamp j) js"

definition stored :: "(record_json, 's) list_ops \<Rightarrow> 's \<Rightarrow> bool" where \<comment> \<open>every entry came from \<^verbatim>\<open>encodeRecord\<close>\<close>
  "stored L s \<longleftrightarrow> (\<forall>k. \<forall>j \<in> set (lGetAll L k s). in_int64 (jTimestamp j))"

lemma evict_keep:
  assumes "\<forall>j \<in> set js. in_int64 (jTimestamp j)"
  shows "map record_to_json (filter (\<lambda>r. \<not> rTimestamp r < c) (map record_from_json js)) = since c js"
  using assms by (induction js) (auto simp: record_json_inverse not_less)

locale record_lists = list_state_unbounded L inv "\<lambda>_. True" "\<lambda>_ _. True"
  for L :: "(record_json, 's) list_ops" and inv :: "'s \<Rightarrow> bool"
begin

lemma inv_appends: "inv s \<Longrightarrow> inv (fold (lAppend L k) js s)"
  using append_all by blast

lemma inv_evict_key: "inv s \<Longrightarrow> inv (evict_key L c k s)"
  by (simp add: evict_key_def inv_appends inv_lclear)

lemma all_evict_key:
  assumes "inv s" and "\<forall>j \<in> set (lGetAll L k s). in_int64 (jTimestamp j)"
  shows "lGetAll L k' (evict_key L c k s) = (if k' = k then since c (lGetAll L k s) else lGetAll L k' s)"
  using append_all [OF inv_lclear [OF assms(1)], where k = k and k' = k'] assms
  by (simp add: evict_key_def evict_keep all_clear)

lemma evict_keys:
  assumes "inv s" and "stored L s" and "distinct ks"
  shows "inv (fold (evict_key L c) ks s) \<and>
    lGetAll L k (fold (evict_key L c) ks s) = (if k \<in> set ks then since c (lGetAll L k s) else lGetAll L k s)"
  using assms
proof (induction ks arbitrary: s)
  case (Cons k' ks)
  have e: "lGetAll L k (evict_key L c k' s) = (if k = k' then since c (lGetAll L k' s) else lGetAll L k s)" for k
    using Cons.prems by (intro all_evict_key) (auto simp: stored_def)
  then have "stored L (evict_key L c k' s)" using Cons.prems(2) by (auto simp: stored_def)
  with Cons e show ?case by (simp add: inv_evict_key)
qed simp

lemma inv_evict: "inv s \<Longrightarrow> stored L s \<Longrightarrow> inv (evict L c s)"
  unfolding evict_def using evict_keys lkeys by blast

lemma all_evict:
  assumes "inv s" and "stored L s"
  shows "lGetAll L k (evict L c s) = since c (lGetAll L k s)"
proof -
  have "k \<notin> set (lKeys L s) \<Longrightarrow> lGetAll L k s = []" using lkeys [OF assms(1)] by simp
  with evict_keys [OF assms conjunct1 [OF lkeys [OF assms(1)]], of c k] show ?thesis unfolding evict_def by (cases "k \<in> set (lKeys L s)") simp_all
qed

text \<open>Whatever appends and clears do not touch, eviction and restoring do not touch.\<close>

lemma frame_appends:
  assumes "\<And>s k j. inv s \<Longrightarrow> f (lAppend L k j s) = f s" and "inv s"
  shows "f (fold (lAppend L k) js s) = f s"
  using assms(2) by (induction js arbitrary: s) (simp_all add: assms(1) inv_append)

lemma frame_evict:
  assumes "\<And>s k j. inv s \<Longrightarrow> f (lAppend L k j s) = f s" and "\<And>s k. inv s \<Longrightarrow> f (lClear L k s) = f s" and "inv s"
  shows "f (evict L c s) = f s"
proof -
  have "f (fold (evict_key L c) ks s) = f s" for ks
    using assms(3)
  proof (induction ks arbitrary: s)
    case (Cons k ks)
    have "f (evict_key L c k s) = f s"
      using frame_appends [of f, OF assms(1)] Cons.prems by (simp add: evict_key_def inv_lclear assms(2))
    with Cons show ?case by (simp add: inv_evict_key)
  qed simp
  then show ?thesis by (simp add: evict_def)
qed

lemma frame_restore:
  assumes "\<And>s k j. inv s \<Longrightarrow> f (lAppend L k j s) = f s" and "\<And>s k. inv s \<Longrightarrow> f (lClear L k s) = f s" and "inv s"
  shows "f (restore_join_side L es s) = f s"
proof -
  have c: "f (fold (lClear L) ks s) = f s \<and> inv (fold (lClear L) ks s)" for ks
    using assms(3) by (induction ks arbitrary: s) (simp_all add: assms(2) inv_lclear)
  have "f (fold (\<lambda>(k, js). fold (lAppend L k) js) es s) = f s" if "inv s" for s
    using that
  proof (induction es arbitrary: s)
    case (Cons e es)
    then show ?case using frame_appends [of f, OF assms(1)] by (cases e) (simp add: inv_appends)
  qed simp
  with c show ?thesis by (simp add: restore_join_side_def)
qed

lemma restore_entries:
  assumes "inv s" and "distinct (map fst es)"
  shows "inv (fold (\<lambda>(k, js). fold (lAppend L k) js) es s) \<and>
    lGetAll L k (fold (\<lambda>(k, js). fold (lAppend L k) js) es s) =
      lGetAll L k s @ (case map_of es k of None \<Rightarrow> [] | Some js \<Rightarrow> js)"
  using assms
proof (induction es arbitrary: s)
  case (Cons e es)
  obtain k' js where e: "e = (k', js)" by (cases e)
  have "k' \<notin> fst ` set es" using Cons.prems(2) e by simp
  then have "map_of es k' = None" by (simp add: map_of_eq_None_iff)
  then show ?case
    using Cons.IH [OF inv_appends [OF Cons.prems(1)], of k' js] Cons.prems(2) append_all [OF Cons.prems(1), where k = k' and k' = k and vs = js]
    by (simp add: e)
qed simp

lemma restore_side:
  assumes "inv s" and "inv s0" and "\<forall>k. lGetAll L k s \<noteq> [] \<longrightarrow> valid_utf8 k"
  defines "s1 \<equiv> restore_join_side L (unmarshal_map (marshal_map (snapshot_join_side L s))) s0"
  shows "inv s1 \<and> lGetAll L k s1 = lGetAll L k s"
proof -
  let ?snap = "snapshot_join_side L s" and ?clear = "fold (lClear L) (lKeys L s0) s0"
  note ks = lkeys [OF assms(1)]
  have fst: "map fst ?snap = lKeys L s" by (simp add: snapshot_join_side_def o_def)
  have d: "distinct (map fst ?snap)" using ks fst by simp
  have "fst ` set ?snap = set (lKeys L s)" using arg_cong [OF fst, of set] by simp
  then have v: "\<forall>k \<in> fst ` set ?snap. valid_utf8 k" using ks assms(3) by auto
  have m: "map_of ?snap k = (if k \<in> set (lKeys L s) then Some (lGetAll L k s) else None)"
    by (auto simp: snapshot_join_side_def map_of_map_restrict restrict_map_def o_def)
  have c: "inv ?clear \<and> lGetAll L k ?clear = []"
    using all_clear_all [OF assms(2), of "lKeys L s0" k] lkeys [OF assms(2)] by auto
  have r: "inv s1 \<and> lGetAll L k s1 = lGetAll L k ?clear @ (case map_of ?snap k of None \<Rightarrow> [] | Some js \<Rightarrow> js)"
    using restore_entries [OF conjunct1 [OF c] map_roundtrip(1) [OF d v], of k]
    unfolding s1_def restore_join_side_def map_roundtrip(2) [OF d v] .
  have "k \<notin> set (lKeys L s) \<Longrightarrow> lGetAll L k s = []" using ks by simp
  then show ?thesis using r c m by simp
qed

end

section \<open>What the buffers hold\<close>

definition side_entries :: "join_cfg \<Rightarrow> side \<Rightarrow> string \<Rightarrow> rec list \<Rightarrow> rec list" where
  "side_entries cfg sd k seen = filter (\<lambda>r. side_of cfg r = Some sd \<and> rKey r = k) seen"

text \<open>A buffer holds exactly the records of its side from some cutoff on, in arrival order.\<close>

definition holds :: "join_cfg \<Rightarrow> side \<Rightarrow> int \<Rightarrow> (record_json, 's) list_ops \<Rightarrow> 's \<Rightarrow> rec list \<Rightarrow> bool" where
  "holds cfg sd c L s seen \<longleftrightarrow> (\<forall>k. lGetAll L k s = since c (map record_to_json (side_entries cfg sd k seen)))"

text \<open>The cutoff spares what a record at or after the aligned watermark can still match.\<close>

definition spares :: "int \<Rightarrow> duration \<Rightarrow> gotime \<Rightarrow> gotime \<Rightarrow> bool" where
  "spares c off lw rw \<longleftrightarrow> c \<le> - (2 ^ 63) \<or> \<not> is_zero_time (aligned_watermark lw rw) \<and> c \<le> aligned_watermark lw rw - off"

definition join_inv :: "('s \<Rightarrow> bool) \<Rightarrow> 's join_ns \<Rightarrow> join_cfg \<Rightarrow> gotime \<Rightarrow> gotime \<Rightarrow> rec list \<Rightarrow> 's join_op \<Rightarrow> bool" where
  "join_inv ok N cfg lw rw seen op \<longleftrightarrow> ok (joBackend op) \<and>
     zero_time \<le> joLeftWM op \<and> joLeftWM op \<le> lw \<and> zero_time \<le> joRightWM op \<and> joRightWM op \<le> rw \<and>
     (\<exists>cl cr. spares cl (jcAfter cfg) lw rw \<and> spares cr (jcBefore cfg) lw rw \<and>
       holds cfg LeftSide cl (jnLeft N) (joBackend op) seen \<and> holds cfg RightSide cr (jnRight N) (joBackend op) seen)"

definition well_timed :: "rec \<Rightarrow> bool" where \<comment> \<open>the timestamps, other than of barriers, are within nanosecond range\<close>
  "well_timed r \<longleftrightarrow> in_int64 (rTimestamp r) \<or> isBarrier r \<and> \<not> isWatermark r"

lemma pair_up_data:
  assumes "\<forall>l r. is_data (jcFn cfg l r)"
  shows "filter is_data (pair_up cfg seen r) = pair_up cfg seen r"
proof -
  consider "side_of cfg r = None" | "side_of cfg r = Some LeftSide" | "side_of cfg r = Some RightSide"
    by (cases "side_of cfg r") (use side.exhaust in auto)
  then show ?thesis using assms by cases (simp_all add: pair_up_def filter_id_conv)
qed

lemma join_invI:
  assumes "ok (joBackend op)" and "zero_time \<le> joLeftWM op \<and> joLeftWM op \<le> lw" and "zero_time \<le> joRightWM op \<and> joRightWM op \<le> rw"
    and "spares cl (jcAfter cfg) lw rw" and "spares cr (jcBefore cfg) lw rw"
    and "holds cfg LeftSide cl (jnLeft N) (joBackend op) seen" and "holds cfg RightSide cr (jnRight N) (joBackend op) seen"
  shows "join_inv ok N cfg lw rw seen op"
  using assms unfolding join_inv_def by blast

lemma join_inv_other [simp]:
  "join_inv ok N cfg lw rw seen (op\<lparr>joEmittedWM := t\<rparr>) = join_inv ok N cfg lw rw seen op"
  "join_inv ok N cfg lw rw seen (op\<lparr>joSnapshots := ss\<rparr>) = join_inv ok N cfg lw rw seen op"
  by (simp_all add: join_inv_def)

fun marks :: "join_cfg \<Rightarrow> gotime \<times> gotime \<Rightarrow> rec list \<Rightarrow> gotime \<times> gotime" where
  "marks cfg w [] = w"
| "marks cfg w (r # rs) = marks cfg (if isWatermark r then (left_mark cfg r (fst w), right_mark cfg r (snd w)) else w) rs"

lemma left_mark_ge: "lw \<le> left_mark cfg r lw" and right_mark_ge: "rw \<le> right_mark cfg r rw"
  by (simp_all add: left_mark_def right_mark_def)

lemma punctual_append:
  "punctual cfg lw rw (rs @ rs') \<longleftrightarrow> punctual cfg lw rw rs \<and> punctual cfg (fst (marks cfg (lw, rw) rs)) (snd (marks cfg (lw, rw) rs)) rs'"
  by (induction rs arbitrary: lw rw) auto

lemma join_reference_append:
  "join_reference cfg seen (rs @ rs') = join_reference cfg seen rs @ join_reference cfg (seen @ filter is_data rs) rs'"
  by (induction rs arbitrary: seen) auto

lemma aligned_mono:
  assumes "\<not> is_zero_time (aligned_watermark a b)" and "zero_time \<le> a" "a \<le> a'" "zero_time \<le> b" "b \<le> b'"
  shows "\<not> is_zero_time (aligned_watermark a' b') \<and> aligned_watermark a b \<le> aligned_watermark a' b'"
  using assms by (auto simp: aligned_watermark_def is_zero_time_def split: if_splits)

lemma spares_mono:
  assumes "spares c off a b" and "zero_time \<le> a" "a \<le> a'" "zero_time \<le> b" "b \<le> b'"
  shows "spares c off a' b'"
  using assms(1) aligned_mono [OF _ assms(2-5)] unfolding spares_def by (metis diff_right_mono order_trans)

lemma holds_stored: "holds cfg sd c L s seen \<Longrightarrow> stored L s"
  by (auto simp: holds_def stored_def)

lemma holds_evict:
  assumes "holds cfg sd c L s seen" and "\<And>k. lGetAll L k s' = since c' (lGetAll L k s)"
  shows "holds cfg sd (max c c') L s' seen"
  using assms by (auto simp: holds_def intro!: filter_cong)

lemma holds_same: "holds cfg sd c L s seen \<Longrightarrow> (\<And>k. lGetAll L k s' = lGetAll L k s) \<Longrightarrow> holds cfg sd c L s' seen"
  by (simp add: holds_def)

lemma matches_left:
  assumes "\<forall>o' \<in> set xs. in_int64 (rTimestamp o') \<and> (in_range cfg (rTimestamp r) (rTimestamp o') \<longrightarrow> c \<le> rTimestamp o')"
  shows "emit_matches cfg r (since c (map record_to_json xs)) False =
    map (\<lambda>o'. jcFn cfg r (buffered o')) (filter (\<lambda>o'. in_range cfg (rTimestamp r) (rTimestamp o')) xs)"
  using assms by (induction xs) (auto simp: emit_matches_def buffered_def Let_def)

lemma matches_right:
  assumes "\<forall>o' \<in> set xs. in_int64 (rTimestamp o') \<and> (in_range cfg (rTimestamp o') (rTimestamp r) \<longrightarrow> c \<le> rTimestamp o')"
  shows "emit_matches cfg r (since c (map record_to_json xs)) True =
    map (\<lambda>o'. jcFn cfg (buffered o') r) (filter (\<lambda>o'. in_range cfg (rTimestamp o') (rTimestamp r)) xs)"
  using assms by (induction xs) (auto simp: emit_matches_def buffered_def Let_def)

text \<open>A punctual record finds every partner still in the buffer.\<close>

lemma spares_partner:
  assumes "spares c off lw rw" and "is_zero_time (aligned_watermark lw rw) \<or> aligned_watermark lw rw \<le> t" and "t - off \<le> u" and "in_int64 u"
  shows "c \<le> u"
  using assms by (auto simp: spares_def in_int64_def)

lemma pair_up_left:
  assumes "holds cfg RightSide c L s seen" and "spares c (jcBefore cfg) lw rw" and "\<forall>r \<in> set seen. in_int64 (rTimestamp r)"
    and "side_of cfg r = Some LeftSide" and "is_zero_time (aligned_watermark lw rw) \<or> aligned_watermark lw rw \<le> rTimestamp r"
  shows "emit_matches cfg r (lGetAll L (rKey r) s) False = pair_up cfg seen r"
proof -
  have "in_int64 (rTimestamp o') \<and> (in_range cfg (rTimestamp r) (rTimestamp o') \<longrightarrow> c \<le> rTimestamp o')"
    if "o' \<in> set (side_entries cfg RightSide (rKey r) seen)" for o'
    using that assms(3) spares_partner [OF assms(2,5), of "rTimestamp o'"]
    by (auto simp: side_entries_def in_range_def not_less)
  with matches_left [of "side_entries cfg RightSide (rKey r) seen" cfg r c] assms(1,4)
  show ?thesis by (simp add: holds_def pair_up_def side_entries_def conj_ac)
qed

lemma pair_up_right:
  assumes "holds cfg LeftSide c L s seen" and "spares c (jcAfter cfg) lw rw" and "\<forall>r \<in> set seen. in_int64 (rTimestamp r)"
    and "side_of cfg r = Some RightSide" and "is_zero_time (aligned_watermark lw rw) \<or> aligned_watermark lw rw \<le> rTimestamp r"
  shows "emit_matches cfg r (lGetAll L (rKey r) s) True = pair_up cfg seen r"
proof -
  have "in_int64 (rTimestamp o') \<and> (in_range cfg (rTimestamp o') (rTimestamp r) \<longrightarrow> c \<le> rTimestamp o')"
    if "o' \<in> set (side_entries cfg LeftSide (rKey r) seen)" for o'
    using that assms(3) spares_partner [OF assms(2,5), of "rTimestamp o'"]
    by (auto simp: side_entries_def in_range_def not_less)
  with matches_right [of "side_entries cfg LeftSide (rKey r) seen" cfg r c] assms(1,4)
  show ?thesis by (simp add: holds_def pair_up_def side_entries_def conj_ac)
qed

text \<open>A buffered record is at or above every cutoff that spares it, so appending keeps the form.\<close>

lemma holds_append:
  assumes "holds cfg sd c L s seen" and "side_of cfg r = Some sd" and "c \<le> rTimestamp r" and "in_int64 (rTimestamp r)"
    and "\<And>k. lGetAll L k s' = (if k = rKey r then lGetAll L k s @ [record_to_json r] else lGetAll L k s)"
  shows "holds cfg sd c L s' (seen @ [r])"
  using assms by (auto simp: holds_def side_entries_def)

lemma holds_other: "holds cfg sd c L s seen \<Longrightarrow> side_of cfg r \<noteq> Some sd \<Longrightarrow> holds cfg sd c L s (seen @ [r])"
  by (simp add: holds_def side_entries_def)

section \<open>The operator on its backend\<close>

locale join_backend =
  l: record_lists "jnLeft N" inv + r: record_lists "jnRight N" inv + v: value_state "jnWM N" inv "\<lambda>_. True"
  for N :: "'s join_ns" and inv :: "'s \<Rightarrow> bool" +
  assumes left_right: "inv s \<Longrightarrow> lGetAll (jnLeft N) k (lAppend (jnRight N) k' j s) = lGetAll (jnLeft N) k s"
      "inv s \<Longrightarrow> lGetAll (jnLeft N) k (lClear (jnRight N) k' s) = lGetAll (jnLeft N) k s"
    and right_left: "inv s \<Longrightarrow> lGetAll (jnRight N) k (lAppend (jnLeft N) k' j s) = lGetAll (jnRight N) k s"
      "inv s \<Longrightarrow> lGetAll (jnRight N) k (lClear (jnLeft N) k' s) = lGetAll (jnRight N) k s"
    and left_wm: "inv s \<Longrightarrow> lGetAll (jnLeft N) k (vSet (jnWM N) k' x s) = lGetAll (jnLeft N) k s"
      "inv s \<Longrightarrow> lGetAll (jnLeft N) k (vClear (jnWM N) k' s) = lGetAll (jnLeft N) k s"
    and right_wm: "inv s \<Longrightarrow> lGetAll (jnRight N) k (vSet (jnWM N) k' x s) = lGetAll (jnRight N) k s"
      "inv s \<Longrightarrow> lGetAll (jnRight N) k (vClear (jnWM N) k' s) = lGetAll (jnRight N) k s"
    and wm_left: "inv s \<Longrightarrow> vGet (jnWM N) k (lAppend (jnLeft N) k' j s) = vGet (jnWM N) k s"
      "inv s \<Longrightarrow> vGet (jnWM N) k (lClear (jnLeft N) k' s) = vGet (jnWM N) k s"
    and wm_right: "inv s \<Longrightarrow> vGet (jnWM N) k (lAppend (jnRight N) k' j s) = vGet (jnWM N) k s"
      "inv s \<Longrightarrow> vGet (jnWM N) k (lClear (jnRight N) k' s) = vGet (jnWM N) k s"
begin

abbreviation joined :: "join_cfg \<Rightarrow> gotime \<Rightarrow> gotime \<Rightarrow> rec list \<Rightarrow> 's join_op \<Rightarrow> bool" where
  "joined \<equiv> join_inv inv N"

lemma record_step:
  assumes "joined cfg lw rw seen op" and "handle_record N cfg r (joBackend op) = (s, out)"
    and "\<forall>r \<in> set seen. in_int64 (rTimestamp r)" and "in_int64 (rTimestamp r)" and "0 \<le> jcBefore cfg" "0 \<le> jcAfter cfg"
    and "side_of cfg r = None \<or> is_zero_time (aligned_watermark lw rw) \<or> aligned_watermark lw rw \<le> rTimestamp r"
  shows "joined cfg lw rw (seen @ [r]) (op\<lparr>joBackend := s\<rparr>) \<and> out = pair_up cfg seen r"
proof -
  obtain cl cr where c: "spares cl (jcAfter cfg) lw rw" "spares cr (jcBefore cfg) lw rw"
      "holds cfg LeftSide cl (jnLeft N) (joBackend op) seen" "holds cfg RightSide cr (jnRight N) (joBackend op) seen"
    and b: "inv (joBackend op)" using assms(1) by (auto simp: join_inv_def)
  consider "side_of cfg r = None" | "side_of cfg r = Some LeftSide" | "side_of cfg r = Some RightSide"
    by (cases "side_of cfg r") (use side.exhaust in auto)
  then show ?thesis
  proof cases
    case 1
    have h: "holds cfg LeftSide cl (jnLeft N) (joBackend op) (seen @ [r])" "holds cfg RightSide cr (jnRight N) (joBackend op) (seen @ [r])"
      using c(3,4) 1 by (simp_all add: holds_other)
    have "s = joBackend op" "out = pair_up cfg seen r" using 1 assms(2) by (simp_all add: handle_record_def pair_up_def)
    then show ?thesis using assms(1) c(1,2) h by (auto simp: join_inv_def)
  next
    case 2
    have s: "s = lAppend (jnLeft N) (rKey r) (record_to_json r) (joBackend op)" "out = pair_up cfg seen r"
      using 2 assms(2,7) pair_up_left [OF c(4,2) assms(3) 2] by (auto simp: handle_record_def)
    have "cl \<le> rTimestamp r" using spares_partner [OF c(1), of "rTimestamp r" "rTimestamp r"] assms(4,6,7) 2 by simp
    then have "holds cfg LeftSide cl (jnLeft N) s (seen @ [r])"
      using holds_append [OF c(3) 2 _ assms(4)] l.all_append [OF b] by (simp add: s)
    moreover have "holds cfg RightSide cr (jnRight N) s (seen @ [r])"
      by (rule holds_other [OF holds_same [OF c(4)]]) (simp_all add: s right_left b 2)
    ultimately show ?thesis using assms(1) c l.inv_append [OF b] by (auto simp: join_inv_def s)
  next
    case 3
    have s: "s = lAppend (jnRight N) (rKey r) (record_to_json r) (joBackend op)" "out = pair_up cfg seen r"
      using 3 assms(2,7) pair_up_right [OF c(3,1) assms(3) 3] by (auto simp: handle_record_def)
    have "cr \<le> rTimestamp r" using spares_partner [OF c(2), of "rTimestamp r" "rTimestamp r"] assms(4,5,7) 3 by simp
    then have "holds cfg RightSide cr (jnRight N) s (seen @ [r])"
      using holds_append [OF c(4) 3 _ assms(4)] r.all_append [OF b] by (simp add: s)
    moreover have "holds cfg LeftSide cl (jnLeft N) s (seen @ [r])"
      by (rule holds_other [OF holds_same [OF c(3)]]) (simp_all add: s left_right b 3)
    ultimately show ?thesis using assms(1) c r.inv_append [OF b] by (auto simp: join_inv_def s)
  qed
qed

lemma store_side:
  assumes "inv s"
  shows "inv (store_side_watermark N key ts s)"
    and "lGetAll (jnLeft N) k (store_side_watermark N key ts s) = lGetAll (jnLeft N) k s"
    and "lGetAll (jnRight N) k (store_side_watermark N key ts s) = lGetAll (jnRight N) k s"
  using assms by (simp_all add: store_side_watermark_def v.inv_set v.inv_clear left_wm right_wm)

lemma advance_joined:
  assumes "joined cfg lw rw seen op" and "zero_time \<le> lw" "zero_time \<le> rw"
  shows "joined cfg (max lw (rTimestamp r)) rw seen (advance_left N r op)"
    and "joined cfg lw (max rw (rTimestamp r)) seen (advance_right N r op)"
proof -
  obtain cl cr where c: "spares cl (jcAfter cfg) lw rw" "spares cr (jcBefore cfg) lw rw"
      "holds cfg LeftSide cl (jnLeft N) (joBackend op) seen" "holds cfg RightSide cr (jnRight N) (joBackend op) seen"
    and b: "inv (joBackend op)" using assms(1) by (auto simp: join_inv_def)
  let ?st = "\<lambda>key. store_side_watermark N key (rTimestamp r) (joBackend op)"
  have h: "holds cfg LeftSide cl (jnLeft N) (?st key) seen" "holds cfg RightSide cr (jnRight N) (?st key) seen" "inv (?st key)" for key
    using c(3,4) store_side [OF b] by (simp_all add: holds_def)
  have sp: "spares c off lw rw \<Longrightarrow> spares c off (max lw t) rw \<and> spares c off lw (max rw t)" for c off t
    using spares_mono [of c off lw rw] assms(2,3) by simp
  show "joined cfg (max lw (rTimestamp r)) rw seen (advance_left N r op)"
    by (rule join_invI [of _ _ _ _ cl cfg cr]) (use assms(1) sp c h b in \<open>auto simp: advance_left_def join_inv_def\<close>)
  show "joined cfg lw (max rw (rTimestamp r)) seen (advance_right N r op)"
    by (rule join_invI [of _ _ _ _ cl cfg cr]) (use assms(1) sp c h b in \<open>auto simp: advance_right_def join_inv_def\<close>)
qed

lemma evict_joined:
  assumes "joined cfg lw rw seen op" and "a = aligned_watermark (joLeftWM op) (joRightWM op)" and "\<not> is_zero_time a"
  defines "s \<equiv> evict (jnRight N) (a + (- jcBefore cfg)) (evict (jnLeft N) (a + (- jcAfter cfg)) (joBackend op))"
  shows "joined cfg lw rw seen (op\<lparr>joBackend := s\<rparr>)"
proof -
  obtain cl cr where c: "spares cl (jcAfter cfg) lw rw" "spares cr (jcBefore cfg) lw rw"
      "holds cfg LeftSide cl (jnLeft N) (joBackend op) seen" "holds cfg RightSide cr (jnRight N) (joBackend op) seen"
    and b: "inv (joBackend op)" using assms(1) by (auto simp: join_inv_def)
  let ?s1 = "evict (jnLeft N) (a + (- jcAfter cfg)) (joBackend op)"
  have b1: "inv ?s1" by (rule l.inv_evict [OF b holds_stored [OF c(3)]])
  have r1: "lGetAll (jnRight N) k ?s1 = lGetAll (jnRight N) k (joBackend op)" for k
    by (rule l.frame_evict) (simp_all add: right_left b)
  have st: "stored (jnRight N) ?s1" using holds_stored [OF c(4)] unfolding stored_def r1 .
  have l2: "lGetAll (jnLeft N) k s = lGetAll (jnLeft N) k ?s1" for k
    unfolding s_def by (rule r.frame_evict [OF _ _ b1]) (simp_all add: left_right)
  have "holds cfg LeftSide (max cl (a + (- jcAfter cfg))) (jnLeft N) s seen"
    by (rule holds_evict [OF c(3)]) (simp add: l2 l.all_evict [OF b holds_stored [OF c(3)]])
  moreover have "holds cfg RightSide (max cr (a + (- jcBefore cfg))) (jnRight N) s seen"
    by (rule holds_evict [OF c(4)]) (simp only: s_def r.all_evict [OF b1 st] r1)
  moreover have "inv s" unfolding s_def by (rule r.inv_evict [OF b1 st])
  moreover have "\<not> is_zero_time (aligned_watermark lw rw) \<and> a \<le> aligned_watermark lw rw"
    using aligned_mono [of "joLeftWM op" "joRightWM op" lw rw] assms(1-3) by (simp add: join_inv_def)
  then have "spares (max cl (a + (- jcAfter cfg))) (jcAfter cfg) lw rw" "spares (max cr (a + (- jcBefore cfg))) (jcBefore cfg) lw rw"
    using c(1,2) by (auto simp: spares_def max_def)
  ultimately show ?thesis using assms(1) unfolding join_inv_def by auto
qed


lemma watermark_step:
  assumes "joined cfg lw rw seen op" and "zero_time \<le> lw" "zero_time \<le> rw" and "join_watermark N cfg r op = (op', out)"
  shows "joined cfg (left_mark cfg r lw) (right_mark cfg r rw) seen op'" and "filter is_data out = []"
proof -
  define op1 where "op1 = (if advances_left cfg r then advance_left N r op else op)"
  define op2 where "op2 = (if advances_right cfg r then advance_right N r op1 else op1)"
  have 1: "joined cfg (left_mark cfg r lw) rw seen op1"
    using advance_joined(1) [OF assms(1-3)] assms(1) by (simp add: left_mark_def op1_def)
  have "zero_time \<le> left_mark cfg r lw" using assms(2) left_mark_ge order_trans by blast
  from advance_joined(2) [OF 1 this assms(3), of r] 1
  have 2: "joined cfg (left_mark cfg r lw) (right_mark cfg r rw) seen op2" by (simp add: right_mark_def op2_def)
  let ?a = "aligned_watermark (joLeftWM op2) (joRightWM op2)"
  let ?op3 = "op2\<lparr>joBackend := evict (jnRight N) (?a + (- jcBefore cfg)) (evict (jnLeft N) (?a + (- jcAfter cfg)) (joBackend op2))\<rparr>"
  have "op' = op2 \<or> \<not> is_zero_time ?a \<and> op' \<in> {?op3, ?op3\<lparr>joEmittedWM := ?a\<rparr>}" and o: "filter is_data out = []"
    using assms(4) unfolding join_watermark_def Let_def op1_def [symmetric] op2_def [symmetric]
    by (auto simp: op1_def op2_def split: if_splits simp del: add_uminus_conv_diff)
  with 2 evict_joined [OF 2 refl] show "joined cfg (left_mark cfg r lw) (right_mark cfg r rw) seen op'" by auto
  show "filter is_data out = []" by (rule o)
qed

text \<open>Processing punctual input emits the matches of the reference, in its order.\<close>

lemma process_joined:
  assumes "joined cfg lw rw seen op" and "zero_time \<le> lw" "zero_time \<le> rw" and "0 \<le> jcBefore cfg" "0 \<le> jcAfter cfg"
    and "\<forall>l r. is_data (jcFn cfg l r)" and "\<forall>r \<in> set seen. in_int64 (rTimestamp r)" "\<forall>r \<in> set rs. well_timed r" and "punctual cfg lw rw rs"
    and "join_process N cfg rs op = (op', out)"
  shows "joined cfg (fst (marks cfg (lw, rw) rs)) (snd (marks cfg (lw, rw) rs)) (seen @ filter is_data rs) op' \<and>
    filter is_data out = join_reference cfg seen rs"
  using assms(1-3,7-10)
proof (induction rs arbitrary: lw rw seen op out)
  case (Cons r rs)
  obtain op1 out1 out2 where st: "join_step N cfg r op = (op1, out1)" and run: "join_process N cfg rs op1 = (op', out2)"
    and out: "out = out1 @ out2" using Cons.prems(7) by (auto split: prod.splits)
  consider "isWatermark r" | "\<not> isWatermark r" "isBarrier r" | "is_data r" by (auto simp: is_marker_def)
  then show ?case
  proof cases
    case 1
    note ws = watermark_step [OF Cons.prems(1-3), of r op1 out1]
    have "zero_time \<le> left_mark cfg r lw" "zero_time \<le> right_mark cfg r rw"
      using Cons.prems(2,3) left_mark_ge right_mark_ge order_trans by blast+
    with Cons.IH [OF ws(1), of out2] ws st 1 Cons.prems run show ?thesis
      by (simp add: join_step_def out is_marker_def left_mark_def right_mark_def)
  next
    case 2
    then have "joined cfg lw rw seen op1" "filter is_data out1 = []" using st Cons.prems(1) by (auto simp: join_step_def is_marker_def)
    with Cons.IH [of lw rw seen op1 out2] 2 Cons.prems run show ?thesis by (simp add: out is_marker_def)
  next
    case 3
    obtain s where h: "handle_record N cfg r (joBackend op) = (s, out1)" "op1 = op\<lparr>joBackend := s\<rparr>"
      using st 3 by (auto simp: join_step_def is_marker_def split: prod.splits)
    have rs: "joined cfg lw rw (seen @ [r]) op1 \<and> out1 = pair_up cfg seen r"
      using record_step [OF Cons.prems(1) h(1) Cons.prems(4) _ assms(4,5)] Cons.prems(5,6) 3 h(2) by (simp add: is_marker_def well_timed_def)
    have "filter is_data (pair_up cfg seen r) = pair_up cfg seen r" by (rule pair_up_data [OF assms(6)])
    with Cons.IH [of lw rw "seen @ [r]" op1 out2] rs 3 Cons.prems run show ?thesis by (simp add: out is_marker_def well_timed_def)
  qed
qed simp


section \<open>Checkpoints\<close>

lemma load_stored:
  assumes "inv s" and "l = zero_time \<or> in_int64 l" and "r = zero_time \<or> in_int64 r"
    and "\<And>k. vGet (jnWM N) k s' = vGet (jnWM N) k (store_side_watermark N ''right'' r (store_side_watermark N ''left'' l s))"
  shows "load_side_watermark N ''left'' s' = l" and "load_side_watermark N ''right'' s' = r"
  using assms store_side(1) [OF assms(1), of "''left''" l]
  by (auto simp: load_side_watermark_def store_side_watermark_def v.get_set v.get_clear v.inv_set v.inv_clear is_zero_time_def put_get_int64)

lemma restore_joined:
  assumes "joined cfg lw rw seen op" and "\<forall>r \<in> set seen. valid_utf8 (rKey r)" and "inv (joBackend op0)"
    and "joLeftWM op = zero_time \<or> in_int64 (joLeftWM op)" "joRightWM op = zero_time \<or> in_int64 (joRightWM op)"
  shows "joined cfg lw rw seen (join_start N (joBackend (join_restore N (join_snapshot_of N op) op0)))"
proof -
  obtain cl cr where c: "spares cl (jcAfter cfg) lw rw" "spares cr (jcBefore cfg) lw rw"
      "holds cfg LeftSide cl (jnLeft N) (joBackend op) seen" "holds cfg RightSide cr (jnRight N) (joBackend op) seen"
    and b: "inv (joBackend op)" using assms(1) by (auto simp: join_inv_def)
  define wl where "wl = time_from_unix_nano_or_zero (unix_nano_or_zero (joLeftWM op))"
  define wr where "wr = time_from_unix_nano_or_zero (unix_nano_or_zero (joRightWM op))"
  have w: "wl = zero_time \<or> wl = joLeftWM op \<and> in_int64 wl" "wr = zero_time \<or> wr = joRightWM op \<and> in_int64 wr"
    using assms(4,5) by (auto simp: wl_def wr_def time_from_unix_nano_or_zero_def unix_nano_or_zero_def is_zero_time_def)
  define s1 where "s1 = store_side_watermark N ''right'' wr (store_side_watermark N ''left'' wl (joBackend op0))"
  define s2 where "s2 = restore_join_side (jnLeft N) (unmarshal_map (marshal_map (snapshot_join_side (jnLeft N) (joBackend op)))) s1"
  define s3 where "s3 = restore_join_side (jnRight N) (unmarshal_map (marshal_map (snapshot_join_side (jnRight N) (joBackend op)))) s2"
  have s3: "joBackend (join_restore N (join_snapshot_of N op) op0) = s3"
    by (simp add: join_restore_def join_snapshot_of_def s3_def s2_def s1_def wl_def wr_def Let_def)
  have utf8: "lGetAll (jnLeft N) k (joBackend op) \<noteq> [] \<or> lGetAll (jnRight N) k (joBackend op) \<noteq> [] \<Longrightarrow> valid_utf8 k" for k
    using c(3,4) assms(2) by (auto simp: holds_def side_entries_def filter_empty_conv)
  have i1: "inv s1" unfolding s1_def by (intro store_side(1) assms(3))
  have s2: "inv s2 \<and> lGetAll (jnLeft N) k s2 = lGetAll (jnLeft N) k (joBackend op)" for k
    unfolding s2_def by (rule l.restore_side [OF b i1]) (use utf8 in blast)
  have r3: "inv s3 \<and> lGetAll (jnRight N) k s3 = lGetAll (jnRight N) k (joBackend op)" for k
    unfolding s3_def by (rule r.restore_side [OF b]) (use utf8 s2 in blast)+
  have i2: "inv s2" using s2 by blast
  have l3: "lGetAll (jnLeft N) k s3 = lGetAll (jnLeft N) k s2" for k
    unfolding s3_def by (rule r.frame_restore [OF _ _ i2]) (simp_all add: left_right)
  have v3: "vGet (jnWM N) k s3 = vGet (jnWM N) k s2" "vGet (jnWM N) k s2 = vGet (jnWM N) k s1" for k
    unfolding s3_def by (rule r.frame_restore [OF _ _ i2], simp_all add: wm_right)
      (unfold s2_def, rule l.frame_restore [OF _ _ i1], simp_all add: wm_left)
  have ld: "load_side_watermark N ''left'' s3 = wl" "load_side_watermark N ''right'' s3 = wr"
    using load_stored [OF assms(3), of wl wr s3] w v3 by (auto simp: s1_def)
  show ?thesis
    unfolding s3
  proof (rule join_invI [OF _ _ _ c(1,2)])
    show "holds cfg LeftSide cl (jnLeft N) (joBackend (join_start N s3)) seen"
      using c(3) s2 l3 by (simp add: join_start_def holds_def Let_def)
    show "holds cfg RightSide cr (jnRight N) (joBackend (join_start N s3)) seen"
      using c(4) r3 by (simp add: join_start_def holds_def Let_def)
  qed (use w assms(1) r3 in \<open>auto simp: join_start_def ld Let_def join_inv_def\<close>)
qed

lemma marks_timed:
  assumes "join_process N cfg rs op = (op', out)" and "\<forall>r \<in> set rs. well_timed r"
    and "joLeftWM op = zero_time \<or> in_int64 (joLeftWM op)" "joRightWM op = zero_time \<or> in_int64 (joRightWM op)"
  shows "(joLeftWM op' = zero_time \<or> in_int64 (joLeftWM op')) \<and> (joRightWM op' = zero_time \<or> in_int64 (joRightWM op'))"
  using assms
proof (induction rs arbitrary: op out)
  case (Cons r rs)
  obtain op1 out1 out2 where st: "join_step N cfg r op = (op1, out1)" and run: "join_process N cfg rs op1 = (op', out2)"
    using Cons.prems(1) by (auto split: prod.splits)
  have "joLeftWM op1 = joLeftWM op \<or> isWatermark r \<and> joLeftWM op1 = rTimestamp r"
      "joRightWM op1 = joRightWM op \<or> isWatermark r \<and> joRightWM op1 = rTimestamp r"
    using st by (auto simp: join_step_def join_watermark_def advance_left_def advance_right_def Let_def split: if_splits prod.splits)
  with Cons.IH [OF run] Cons.prems show ?case by (auto simp: well_timed_def)
qed simp

text \<open>A run, a checkpoint, and the run continued on a restored operator.\<close>

lemma restart_joined:
  assumes "joined cfg zero_time zero_time [] op" and "0 \<le> jcBefore cfg" "0 \<le> jcAfter cfg" and "\<forall>l r. is_data (jcFn cfg l r)"
    and "\<forall>r \<in> set (rs @ rs'). well_timed r" and "\<forall>r \<in> set rs. valid_utf8 (rKey r)"
    and "punctual cfg zero_time zero_time (rs @ rs')" and "inv (joBackend op0)"
    and "joLeftWM op = zero_time" "joRightWM op = zero_time" and "join_process N cfg rs op = (op1, out)"
    and "join_process N cfg rs' (join_start N (joBackend (join_restore N (join_snapshot_of N op1) op0))) = (op2, out')"
  shows "filter is_data (out @ out') = join_reference cfg [] (rs @ rs')"
proof -
  let ?m = "marks cfg (zero_time, zero_time) rs"
  have "joined cfg (fst ?m) (snd ?m) ([] @ filter is_data rs) op1 \<and> filter is_data out = join_reference cfg [] rs"
    by (rule process_joined [OF assms(1) _ _ assms(2-4) _ _ _ assms(11)]) (use assms(5,7) in \<open>simp_all add: punctual_append\<close>)
  then have 1: "joined cfg (fst ?m) (snd ?m) (filter is_data rs) op1" "filter is_data out = join_reference cfg [] rs" by simp_all
  have wm: "(joLeftWM op1 = zero_time \<or> in_int64 (joLeftWM op1)) \<and> (joRightWM op1 = zero_time \<or> in_int64 (joRightWM op1))"
    by (rule marks_timed [OF assms(11)]) (use assms(5,9,10) in auto)
  have z: "zero_time \<le> fst ?m" "zero_time \<le> snd ?m" using 1(1) by (auto simp: join_inv_def)
  have 2: "joined cfg (fst ?m) (snd ?m) (filter is_data rs) (join_start N (joBackend (join_restore N (join_snapshot_of N op1) op0)))"
    by (rule restore_joined [OF 1(1) _ assms(8)]) (use assms(6) wm in auto)
  have "filter is_data out' = join_reference cfg (filter is_data rs) rs'"
    by (rule process_joined [OF 2 z assms(2-4) _ _ _ assms(12), THEN conjunct2])
      (use assms(5,7) in \<open>auto simp: punctual_append well_timed_def is_marker_def\<close>)
  with 1(2) show ?thesis by (simp add: join_reference_append)
qed

lemma start_joined:
  assumes "inv s" and "\<And>k. vGet (jnWM N) k s = None" and "\<And>k. lGetAll (jnLeft N) k s = []" and "\<And>k. lGetAll (jnRight N) k s = []"
  shows "joined cfg zero_time zero_time [] (join_start N s)"
  by (rule join_invI [of _ _ _ _ "- (2 ^ 63)" _ "- (2 ^ 63)"])
    (use assms in \<open>simp_all add: join_start_def load_side_watermark_def spares_def holds_def side_entries_def Let_def\<close>)

end

section \<open>The join in memory\<close>

definition join_mem :: "(bytes, record_json) mem join_ns" where
  "join_mem = \<lparr>jnLeft = mem_lists ''join_left'', jnRight = mem_lists ''join_right'', jnWM = mem_values ''join_watermarks''\<rparr>"

lemma mem_lists_apart:
  assumes "n \<noteq> n'"
  shows "lGetAll (mem_lists n) k (lAppend (mem_lists n') k' j s) = lGetAll (mem_lists n) k s"
    and "lGetAll (mem_lists n) k (lClear (mem_lists n') k' s) = lGetAll (mem_lists n) k s"
  using assms by (simp_all add: mem_list_defs update_conv' Let_def split: option.split)

lemma mem_all_vclear: "lGetAll (mem_lists n) k (vClear (mem_values n') k' s) = lGetAll (mem_lists n) k s"
  by (simp add: mem_list_defs mem_value_defs split: option.split)

interpretation jm: join_backend join_mem mem_inv
proof -
  have r: "record_lists (mem_lists n :: (record_json, (bytes, record_json) mem) list_ops) mem_inv" for n
    unfolding record_lists_def by (rule ml.list_state_unbounded_axioms)
  have v: "value_state (mem_values n :: (bytes, (bytes, record_json) mem) value_ops) mem_inv (\<lambda>_. True)" for n
    by (rule mv.value_state_axioms)
  show "join_backend join_mem mem_inv"
    by (intro join_backend.intro join_backend_axioms.intro)
      (simp_all add: join_mem_def r v mem_lists_apart mb.all_set mb.get_append mb.get_lclear mem_all_vclear)
qed

section \<open>Properties\<close>

text \<open>
  C13. The interval join finds exactly the matches: when no record is behind the aligned watermark on
  arrival, what the operator emits, evicting as it goes, is what a join that never evicts emits, in the
  same order, also when the run is interrupted by a checkpoint and continued on another operator that
  restores it. Keys are valid UTF-8 and timestamps fit nanoseconds.
\<close>

theorem interval_join_equivalence:
  assumes "\<forall>l r. is_data (fn l r)" and "\<forall>r \<in> set (rs1 @ rs2). well_timed r" and "\<forall>r \<in> set rs1. valid_utf8 (rKey r)"
    and "punctual (interval_join left right before after fn) zero_time zero_time (rs1 @ rs2)" and "mem_inv (joBackend op0)"
  shows "let cfg = interval_join left right before after fn;
      (op1, out1) = join_process join_mem cfg rs1 (join_start join_mem new_mem);
      op2 = join_restore join_mem (join_snapshot_of join_mem op1) op0;
      (op3, out2) = join_process join_mem cfg rs2 (join_start join_mem (joBackend op2))
    in filter is_data (out1 @ out2) = join_reference cfg [] (rs1 @ rs2)"
proof -
  let ?cfg = "interval_join left right before after fn"
  have e: "vGet (jnWM join_mem) k new_mem = None" "lGetAll (jnLeft join_mem) k new_mem = []" "lGetAll (jnRight join_mem) k new_mem = []" for k
    by (simp_all add: join_mem_def)
  have st: "join_inv mem_inv join_mem ?cfg zero_time zero_time [] (join_start join_mem new_mem)"
    by (rule jm.start_joined) (simp_all add: e)
  have w: "joLeftWM (join_start join_mem new_mem) = zero_time" "joRightWM (join_start join_mem new_mem) = zero_time"
    by (simp_all add: join_start_def load_side_watermark_def e Let_def)
  have c: "0 \<le> jcBefore ?cfg" "0 \<le> jcAfter ?cfg" "\<forall>l r. is_data (jcFn ?cfg l r)" using assms(1) by (simp_all add: interval_join_def)
  show ?thesis
    using jm.restart_joined [OF st c assms(2-5) w] by (simp add: Let_def split: prod.split)
qed

definition demo_order :: "bytes \<Rightarrow> gotime \<Rightarrow> rec" where
  "demo_order v t = blank\<lparr>rKey := ''k'', rValue := v, rTimestamp := t, rSource := ''orders''\<rparr>"

definition demo_payment :: "bytes \<Rightarrow> gotime \<Rightarrow> rec" where
  "demo_payment v t = blank\<lparr>rKey := ''k'', rValue := v, rTimestamp := t, rSource := ''payments''\<rparr>"

definition demo_pair :: "rec \<Rightarrow> rec \<Rightarrow> rec" where
  "demo_pair l r = blank\<lparr>rKey := rKey l, rValue := rValue l @ rValue r, rTimestamp := max (rTimestamp l) (rTimestamp r)\<rparr>"

definition demo_first :: "rec list" where
  "demo_first = [demo_order ''a'' 100, demo_payment ''x'' 104, new_watermark 103, new_watermark 130, new_barrier ''1'', demo_order ''b'' 131]"

definition demo_second :: "rec list" where
  "demo_second = [demo_payment ''y'' 135, demo_payment ''z'' 160]"

lemmas demo_join_defs = demo_first_def demo_second_def demo_order_def demo_payment_def demo_pair_def

text \<open>The first order is evicted by the watermark; the second survives the checkpoint and is matched.\<close>

theorem interval_join_equivalence_witness:
  "let cfg = interval_join ''orders'' ''payments'' 5 10 demo_pair;
      (op1, out1) = join_process join_mem cfg demo_first (join_start join_mem new_mem);
      op2 = join_restore join_mem (join_snapshot_of join_mem op1) (join_start join_mem new_mem);
      (op3, out2) = join_process join_mem cfg demo_second (join_start join_mem (joBackend op2))
    in filter is_data (out1 @ out2) = join_reference cfg [] (demo_first @ demo_second) \<and>
      map rValue (join_reference cfg [] (demo_first @ demo_second)) = [''ax'', ''by'']"
proof -
  have "\<forall>l r. is_data (demo_pair l r)" by (simp add: demo_pair_def blank_def is_marker_def)
  moreover have "\<forall>r \<in> set (demo_first @ demo_second). well_timed r"
    by (simp add: demo_join_defs well_timed_def in_int64_def blank_def new_watermark_def new_barrier_def)
  moreover have "\<forall>r \<in> set demo_first. valid_utf8 (rKey r)"
    by (simp add: demo_join_defs blank_def new_watermark_def new_barrier_def ascii_valid byte_in_def)
  moreover have "punctual (interval_join ''orders'' ''payments'' 5 10 demo_pair) zero_time zero_time (demo_first @ demo_second)"
    by code_simp
  moreover have "mem_inv (joBackend (join_start join_mem new_mem))" by (simp add: join_start_def Let_def)
  moreover have "map rValue (join_reference (interval_join ''orders'' ''payments'' 5 10 demo_pair) [] (demo_first @ demo_second)) = [''ax'', ''by'']"
    by code_simp
  ultimately show ?thesis
    using interval_join_equivalence [of demo_pair demo_first demo_second "''orders''" "''payments''" 5 10 "join_start join_mem new_mem"]
    by (simp add: Let_def split: prod.splits)
qed

end
