(* ===== verification/Stateless_Stage.thy ===== *)
theory Stateless_Stage
  imports Aligned_Merge "HOL-Library.Multiset"
begin

text \<open>
  The stateless operators (\<^verbatim>\<open>operator/map.go\<close>, \<^verbatim>\<open>filter.go\<close>, \<^verbatim>\<open>flatmap.go\<close>, \<^verbatim>\<open>process.go\<close>) and the stage that
  runs a chain of them as plain calls, on one worker or on several behind a round-robin dispatcher and
  the aligned merge (\<^verbatim>\<open>pipeline/stateless_stage.go\<close>). A user function returns \<^const>\<open>None\<close> where it panics;
  a dead-letter sink is a number, and \<open>dlq\<close> says which writes to it fail. Metrics are left out.
\<close>

section \<open>Operators\<close>

datatype proc_failure_policy = ProcFailureDrop | ProcFailureDLQ | ProcFailureFail

datatype failure_cause = DLQNil string | DLQWriteFailed string | FnError string

datatype stage_error =
    OperatorError string string bytes failure_cause \<comment> \<open>operator, label, record key\<close>
  | OperatorPanicked

type_synonym dlq_log = "(nat \<times> rec) list"
type_synonym dlq_sink = "nat \<Rightarrow> rec \<Rightarrow> string option" \<comment> \<open>the error of a write, if it fails\<close>

record process_op =
  poFn :: "rec \<Rightarrow> (string + rec) option"
  poLabel :: string
  poPolicy :: proc_failure_policy
  poDLQ :: "nat option"

datatype stateless_op =
    MapOp "rec \<Rightarrow> rec option"
  | FilterOp "rec \<Rightarrow> bool option"
  | FlatMapOp "rec \<Rightarrow> rec list option"
  | ProcessOp process_op

definition handle_failure :: "dlq_sink \<Rightarrow> process_op \<Rightarrow> rec \<Rightarrow> string \<Rightarrow> dlq_log \<times> stage_error option" where
  "handle_failure dlq op r e =
     (let failed = (\<lambda>c. Some (OperatorError ''Process'' (poLabel op) (rKey r) c)) in
      case poPolicy op of
        ProcFailureDrop \<Rightarrow> ([], None)
      | ProcFailureDLQ \<Rightarrow>
          (case poDLQ op of
             None \<Rightarrow> ([], failed (DLQNil e))
           | Some d \<Rightarrow>
               let r' = with_header r ''_error'' e in
               (case dlq d r' of
                  Some werr \<Rightarrow> ([], failed (DLQWriteFailed werr))
                | None \<Rightarrow> ([(d, r')], None)))
      | ProcFailureFail \<Rightarrow> ([], failed (FnError e)))"

definition called :: "'a option \<Rightarrow> ('a \<Rightarrow> rec list) \<Rightarrow> dlq_log \<times> (stage_error + rec list)" where
  "called c f = ([], case c of None \<Rightarrow> Inl OperatorPanicked | Some x \<Rightarrow> Inr (f x))"

fun process_one :: "dlq_sink \<Rightarrow> stateless_op \<Rightarrow> rec \<Rightarrow> dlq_log \<times> (stage_error + rec list)" where
  "process_one dlq (MapOp fn) r = called (fn r) (\<lambda>r'. [r'])"
| "process_one dlq (FilterOp fn) r = called (fn r) (\<lambda>b. if b then [r] else [])"
| "process_one dlq (FlatMapOp fn) r = called (fn r) (\<lambda>rs. rs)"
| "process_one dlq (ProcessOp op) r =
     (case poFn op r of
        None \<Rightarrow> ([], Inl OperatorPanicked)
      | Some (Inl e) \<Rightarrow>
          (case handle_failure dlq op r e of (l, Some err) \<Rightarrow> (l, Inl err) | (l, None) \<Rightarrow> (l, Inr []))
      | Some (Inr r') \<Rightarrow> ([], Inr [r']))"

text \<open>\<^verbatim>\<open>Process\<close>, the channel form: the same call per data record, markers passed through.\<close>

fun op_process :: "dlq_sink \<Rightarrow> stateless_op \<Rightarrow> rec list \<Rightarrow> dlq_log \<times> rec list \<times> stage_error option" where
  "op_process dlq op [] = ([], [], None)"
| "op_process dlq op (r # rs) =
     (if is_marker r then let (l, out, e) = op_process dlq op rs in (l, r # out, e)
      else case process_one dlq op r of
        (l, Inl e) \<Rightarrow> (l, [], Some e)
      | (l, Inr next) \<Rightarrow> let (l', out, e) = op_process dlq op rs in (l @ l', next @ out, e))"

section \<open>One worker\<close>

fun run_op :: "dlq_sink \<Rightarrow> stateless_op \<Rightarrow> rec list \<Rightarrow> dlq_log \<times> (stage_error + rec list)" where
  "run_op dlq op [] = ([], Inr [])"
| "run_op dlq op (r # cur) =
     (case process_one dlq op r of
        (l, Inl e) \<Rightarrow> (l, Inl e)
      | (l, Inr next) \<Rightarrow>
          (case run_op dlq op cur of (l', Inl e) \<Rightarrow> (l @ l', Inl e) | (l', Inr alt) \<Rightarrow> (l @ l', Inr (next @ alt))))"

fun run_chain :: "dlq_sink \<Rightarrow> stateless_op list \<Rightarrow> rec list \<Rightarrow> dlq_log \<times> (stage_error + rec list)" where
  "run_chain dlq [] cur = ([], Inr cur)"
| "run_chain dlq (op # ops) cur =
     (case run_op dlq op cur of
        (l, Inl e) \<Rightarrow> (l, Inl e)
      | (l, Inr alt) \<Rightarrow>
          if alt = [] then (l, Inr []) else (case run_chain dlq ops alt of (l', res) \<Rightarrow> (l @ l', res)))"

fun run_worker :: "dlq_sink \<Rightarrow> stateless_op list \<Rightarrow> rec list \<Rightarrow> dlq_log \<times> rec list \<times> stage_error option" where
  "run_worker dlq ops [] = ([], [], None)"
| "run_worker dlq ops (r # rs) =
     (if is_marker r then let (l, out, e) = run_worker dlq ops rs in (l, r # out, e)
      else case run_chain dlq ops [r] of
        (l, Inl e) \<Rightarrow> (l, [], Some e)
      | (l, Inr cur) \<Rightarrow> let (l', out, e) = run_worker dlq ops rs in (l @ l', cur @ out, e))"

section \<open>Several workers\<close>

text \<open>The dispatcher; the last argument is what was sent on each worker's input so far.\<close>

fun dispatch :: "nat \<Rightarrow> nat \<Rightarrow> rec list \<Rightarrow> rec list list \<Rightarrow> rec list list" where
  "dispatch n nxt [] ins = ins"
| "dispatch n nxt (r # rs) ins =
     (if is_marker r then dispatch n nxt rs (map (\<lambda>ch. ch @ [r]) ins)
      else dispatch n ((nxt + 1) mod n) rs (ins[nxt := ins ! nxt @ [r]]))"

definition worker_ins :: "nat \<Rightarrow> rec list \<Rightarrow> rec list list" where
  "worker_ins n rs = dispatch n 0 rs (replicate n [])"

definition worker_outs :: "dlq_sink \<Rightarrow> stateless_op list \<Rightarrow> nat \<Rightarrow> rec list \<Rightarrow> rec list list" where
  "worker_outs dlq ops n rs = map (\<lambda>ins. fst (snd (run_worker dlq ops ins))) (worker_ins n rs)"

section \<open>The reference\<close>

text \<open>The operators one after the other, each consuming the whole output of the one before.\<close>

fun op_by_op :: "dlq_sink \<Rightarrow> stateless_op list \<Rightarrow> rec list \<Rightarrow> rec list option" where
  "op_by_op dlq [] rs = Some rs"
| "op_by_op dlq (op # ops) rs =
     (case op_process dlq op rs of (l, out, None) \<Rightarrow> op_by_op dlq ops out | (l, out, Some e) \<Rightarrow> None)"

text \<open>The data records between the \<open>i\<close>-th marker and the next, without their order.\<close>

fun segment :: "nat \<Rightarrow> rec list \<Rightarrow> rec multiset" where
  "segment i [] = {#}"
| "segment i (r # rs) =
     (if is_marker r then (case i of 0 \<Rightarrow> {#} | Suc j \<Rightarrow> segment j rs)
      else if i = 0 then add_mset r (segment i rs) else segment i rs)"

text \<open>User functions turn data into data; a record that claims to be a marker is not theirs to make.\<close>

fun makes_data :: "stateless_op \<Rightarrow> bool" where
  "makes_data (MapOp fn) \<longleftrightarrow> (\<forall>r r'. fn r = Some r' \<longrightarrow> is_data r')"
| "makes_data (FilterOp fn) \<longleftrightarrow> True"
| "makes_data (FlatMapOp fn) \<longleftrightarrow> (\<forall>r rs. fn r = Some rs \<longrightarrow> (\<forall>r' \<in> set rs. is_data r'))"
| "makes_data (ProcessOp op) \<longleftrightarrow> (\<forall>r r'. poFn op r = Some (Inr r') \<longrightarrow> is_data r')"

section \<open>Fusion\<close>

text \<open>What a call makes of one record, when it succeeds.\<close>

abbreviation made_by :: "(rec \<Rightarrow> dlq_log \<times> (stage_error + rec list)) \<Rightarrow> rec \<Rightarrow> rec list" where
  "made_by f r \<equiv> projr (snd (f r))"

abbreviation succeeds :: "(rec \<Rightarrow> dlq_log \<times> (stage_error + rec list)) \<Rightarrow> rec \<Rightarrow> bool" where
  "succeeds f r \<equiv> isl (snd (f r)) = False"

definition lifted :: "(rec \<Rightarrow> rec list) \<Rightarrow> rec \<Rightarrow> rec list" where \<comment> \<open>markers are passed on\<close>
  "lifted f r = (if is_marker r then [r] else f r)"

lemma run_op_each:
  "snd (run_op dlq op cur) = Inr out \<longleftrightarrow>
     (\<forall>r \<in> set cur. succeeds (process_one dlq op) r) \<and> out = concat (map (made_by (process_one dlq op)) cur)"
proof (induction cur arbitrary: out)
  case (Cons r cur)
  obtain l res where p: "process_one dlq op r = (l, res)" by (cases "process_one dlq op r")
  obtain l' res' where q: "run_op dlq op cur = (l', res')" by (cases "run_op dlq op cur")
  show ?case using Cons.IH by (cases res; cases res') (auto simp: p q)
qed auto

lemma run_chain_Nil [simp]: "run_chain dlq ops [] = ([], Inr [])"
  by (cases ops) simp_all

lemma run_chain_Cons:
  "snd (run_chain dlq (op # ops) cur) = Inr out \<longleftrightarrow>
     (\<exists>alt. snd (run_op dlq op cur) = Inr alt \<and> snd (run_chain dlq ops alt) = Inr out)"
  by (auto split: prod.splits sum.splits)

lemma run_chain_each:
  "snd (run_chain dlq ops cur) = Inr out \<longleftrightarrow>
     (\<forall>r \<in> set cur. succeeds (\<lambda>r. run_chain dlq ops [r]) r) \<and> out = concat (map (made_by (\<lambda>r. run_chain dlq ops [r])) cur)"
proof (induction ops arbitrary: cur out)
  case Nil
  then show ?case by auto
next
  case (Cons op ops)
  let ?p = "process_one dlq op" and ?c = "\<lambda>r. run_chain dlq ops [r]" and ?d = "\<lambda>r. run_chain dlq (op # ops) [r]"
  have step: "snd (run_chain dlq (op # ops) cur) = Inr out \<longleftrightarrow> (\<forall>r \<in> set cur. succeeds ?p r) \<and>
      (\<forall>r \<in> set cur. \<forall>x \<in> set (made_by ?p r). succeeds ?c x) \<and> out = concat (map (\<lambda>r. concat (map (made_by ?c) (made_by ?p r))) cur)" for cur out
    unfolding run_chain_Cons run_op_each Cons.IH by (auto simp: concat_map_concat)
  have one: "snd (?d r) = Inr y \<longleftrightarrow> succeeds ?p r \<and> (\<forall>x \<in> set (made_by ?p r). succeeds ?c x) \<and> y = concat (map (made_by ?c) (made_by ?p r))" for r y
    using step [of "[r]"] by simp
  have "succeeds ?d r \<longleftrightarrow> succeeds ?p r \<and> (\<forall>x \<in> set (made_by ?p r). succeeds ?c x)" for r
    using one [of r] by (cases "snd (?d r)") (auto simp del: run_chain.simps)
  moreover have "made_by ?d r = concat (map (made_by ?c) (made_by ?p r))" if "succeeds ?d r" for r
    using that one [of r] by (cases "snd (?d r)") (auto simp del: run_chain.simps)
  ultimately show ?case unfolding step by (auto intro!: arg_cong [of _ _ concat] simp del: run_chain.simps)
qed

lemma run_chain_one:
  assumes "succeeds (\<lambda>r. run_chain dlq (op # ops) [r]) r"
  shows "succeeds (process_one dlq op) r"
    and "x \<in> set (made_by (process_one dlq op) r) \<Longrightarrow> succeeds (\<lambda>r. run_chain dlq ops [r]) x"
    and "made_by (\<lambda>r. run_chain dlq (op # ops) [r]) r =
      concat (map (made_by (\<lambda>r. run_chain dlq ops [r])) (made_by (process_one dlq op) r))"
proof -
  obtain y where y: "snd (run_chain dlq (op # ops) [r]) = Inr y"
    using assms by (cases "snd (run_chain dlq (op # ops) [r])") (auto simp del: run_chain.simps)
  then obtain alt where "snd (run_op dlq op [r]) = Inr alt" and alt: "snd (run_chain dlq ops alt) = Inr y"
    unfolding run_chain_Cons by blast
  then have p: "succeeds (process_one dlq op) r \<and> alt = made_by (process_one dlq op) r" unfolding run_op_each by simp
  then show "succeeds (process_one dlq op) r" by blast
  from alt p show "x \<in> set (made_by (process_one dlq op) r) \<Longrightarrow> succeeds (\<lambda>r. run_chain dlq ops [r]) x"
    and "made_by (\<lambda>r. run_chain dlq (op # ops) [r]) r =
      concat (map (made_by (\<lambda>r. run_chain dlq ops [r])) (made_by (process_one dlq op) r))"
    unfolding run_chain_each y by simp_all
qed

lemma run_worker_success:
  "run_worker dlq ops rs = (l, out, None) \<Longrightarrow>
     (\<forall>r \<in> set rs. is_data r \<longrightarrow> succeeds (\<lambda>r. run_chain dlq ops [r]) r) \<and>
     out = concat (map (lifted (made_by (\<lambda>r. run_chain dlq ops [r]))) rs)"
proof (induction rs arbitrary: l out)
  case (Cons r rs)
  then show ?case
    by (cases "is_marker r") (auto simp: lifted_def split: prod.splits sum.splits)
qed simp

lemma run_worker_total:
  assumes "\<forall>r \<in> set rs. is_data r \<longrightarrow> succeeds (\<lambda>r. run_chain dlq ops [r]) r"
  shows "snd (snd (run_worker dlq ops rs)) = None"
  using assms by (induction rs) (auto split: prod.splits sum.splits)

lemma op_process_success:
  assumes "\<forall>r \<in> set rs. is_data r \<longrightarrow> succeeds (process_one dlq op) r"
  shows "snd (op_process dlq op rs) = (concat (map (lifted (made_by (process_one dlq op))) rs), None)"
  using assms by (induction rs) (auto simp: lifted_def split: prod.splits sum.splits)

lemma makes_data_one:
  "makes_data op \<Longrightarrow> is_data r \<Longrightarrow> succeeds (process_one dlq op) r \<Longrightarrow> x \<in> set (made_by (process_one dlq op) r) \<Longrightarrow> is_data x"
  by (cases op) (auto simp: called_def split: option.splits sum.splits prod.splits if_splits)

text \<open>Running the chain record by record is running the operators one after the other.\<close>

lemma fusion:
  assumes "\<forall>op \<in> set ops. makes_data op" and "\<forall>r \<in> set rs. is_data r \<longrightarrow> succeeds (\<lambda>r. run_chain dlq ops [r]) r"
  shows "op_by_op dlq ops rs = Some (concat (map (lifted (made_by (\<lambda>r. run_chain dlq ops [r]))) rs))"
  using assms
proof (induction ops arbitrary: rs)
  case Nil
  have "lifted (made_by (\<lambda>r. run_chain dlq [] [r])) = (\<lambda>r. [r])" by (auto simp: lifted_def)
  then show ?case by simp
next
  case (Cons op ops)
  let ?p = "made_by (process_one dlq op)" and ?c = "made_by (\<lambda>r. run_chain dlq ops [r])"
  let ?rs = "concat (map (lifted ?p) rs)"
  note one = run_chain_one [of dlq op ops]
  have "snd (op_process dlq op rs) = (?rs, None)" by (rule op_process_success) (use Cons.prems(2) one(1) in blast)
  then have "op_by_op dlq (op # ops) rs = op_by_op dlq ops ?rs" by (cases "op_process dlq op rs") auto
  also have "\<dots> = Some (concat (map (lifted ?c) ?rs))"
  proof (rule Cons.IH)
    show "\<forall>r \<in> set ?rs. is_data r \<longrightarrow> succeeds (\<lambda>r. run_chain dlq ops [r]) r"
      using Cons.prems(2) one(2) by (auto simp: lifted_def split: if_splits)
  qed (use Cons.prems in simp)
  also have "concat (map (lifted ?c) ?rs) = concat (map (lifted (made_by (\<lambda>r. run_chain dlq (op # ops) [r]))) rs)"
    unfolding concat_map_concat
  proof (intro arg_cong [of _ _ concat] map_cong refl)
    fix r assume r: "r \<in> set rs"
    have eq: "map (lifted ?c) (?p r) = map ?c (?p r)" if "is_data r"
      using makes_data_one [of op r dlq] Cons.prems r that one(1) by (auto simp: lifted_def)
    show "concat (map (lifted ?c) (lifted ?p r)) = lifted (made_by (\<lambda>r. run_chain dlq (op # ops) [r])) r"
    proof (cases "is_marker r")
      case False
      then have "lifted ?p r = ?p r" "lifted (made_by (\<lambda>r. run_chain dlq (op # ops) [r])) r = made_by (\<lambda>r. run_chain dlq (op # ops) [r]) r"
        by (simp_all add: lifted_def)
      with eq [OF False] one(3) [of r] Cons.prems(2) r False show ?thesis by (metis (no_types, lifting))
    qed (simp add: lifted_def)
  qed
  finally show ?case .
qed

lemma run_chain_data:
  assumes "\<forall>op \<in> set ops. makes_data op" and "is_data r" and "succeeds (\<lambda>r. run_chain dlq ops [r]) r"
    and "x \<in> set (made_by (\<lambda>r. run_chain dlq ops [r]) r)"
  shows "is_data x"
  using assms
proof (induction ops arbitrary: r)
  case (Cons op ops)
  obtain y where "y \<in> set (made_by (process_one dlq op) r)" "x \<in> set (made_by (\<lambda>r. run_chain dlq ops [r]) y)"
    using Cons.prems(4) run_chain_one(3) [OF Cons.prems(3)] by auto
  with Cons.IH [of y] Cons.prems(1,2) run_chain_one(1,2) [OF Cons.prems(3)] makes_data_one [of op r dlq y] show ?case by simp
qed simp

section \<open>Distribution\<close>

text \<open>What worker \<open>w\<close> of \<open>n\<close> receives when the dispatcher stands at \<open>nxt\<close>.\<close>

fun robin :: "nat \<Rightarrow> nat \<Rightarrow> rec list \<Rightarrow> nat \<Rightarrow> rec list" where
  "robin n nxt [] w = []"
| "robin n nxt (r # rs) w =
     (if is_marker r then r # robin n nxt rs w
      else (if w = nxt then [r] else []) @ robin n ((nxt + 1) mod n) rs w)"

lemma dispatch_robin:
  assumes "nxt < n" and "length ins = n"
  shows "dispatch n nxt rs ins = map (\<lambda>w. ins ! w @ robin n nxt rs w) [0..<n]"
  using assms
proof (induction rs arbitrary: nxt ins)
  case Nil
  then show ?case using map_nth [of ins] by simp
next
  case (Cons r rs)
  then have "(nxt + 1) mod n < n" by simp
  with Cons show ?case by (auto simp: nth_list_update)
qed

lemma worker_ins_robin: "0 < n \<Longrightarrow> worker_ins n rs = map (robin n 0 rs) [0..<n]"
  using dispatch_robin [of 0 n "replicate n []" rs] by (auto simp: worker_ins_def)

lemma robin_markers: "filter is_marker (robin n nxt rs w) = filter is_marker rs"
  by (induction rs arbitrary: nxt) auto

lemma robin_subset: "set (robin n nxt rs w) \<subseteq> set rs"
  by (induction rs arbitrary: nxt) auto

lemma segment_robin:
  assumes "nxt < n"
  shows "(\<Sum>w < n. segment i (robin n nxt rs w)) = segment i rs"
  using assms
proof (induction rs arbitrary: nxt i)
  case (Cons r rs)
  have "(nxt + 1) mod n < n" using Cons.prems by simp
  note IH = Cons.IH [OF this] and IH' = Cons.IH [OF Cons.prems]
  let ?r = "robin n ((nxt + 1) mod n) rs"
  have z: "(\<Sum>w < n. segment 0 (robin n nxt (r # rs) w)) = add_mset r (segment 0 rs)" if "is_data r"
  proof -
    have "(\<Sum>w < n. segment 0 (robin n nxt (r # rs) w)) = (\<Sum>w < n. (if w = nxt then {#r#} else {#}) + segment 0 (?r w))"
      using that by (intro sum.cong) auto
    also have "\<dots> = add_mset r (segment 0 rs)" unfolding sum.distrib IH using Cons.prems by simp
    finally show ?thesis .
  qed
  have nz: "(\<Sum>w < n. segment i (robin n nxt (r # rs) w)) = segment i rs" if "is_data r" "0 < i"
  proof -
    have "(\<Sum>w < n. segment i (robin n nxt (r # rs) w)) = (\<Sum>w < n. segment i (?r w))" using that by (intro sum.cong) auto
    with IH show ?thesis by simp
  qed
  consider "is_marker r" "i = 0" | j where "is_marker r" "i = Suc j" | "is_data r" "i = 0" | "is_data r" "0 < i" by (cases i) auto
  then show ?case
  proof cases
    case (2 j)
    then show ?thesis using IH' [of j] by simp
  qed (use z nz in simp_all)
qed simp

lemma segment_append: "\<forall>r \<in> set xs. is_data r \<Longrightarrow> segment i (xs @ ys) = (if i = 0 then mset xs else {#}) + segment i ys"
  by (induction xs) auto

lemma segment_lifted:
  assumes "\<forall>r \<in> set rs. is_data r \<longrightarrow> (\<forall>x \<in> set (f r). is_data x)"
  shows "segment i (concat (map (lifted f) rs)) = sum_mset (image_mset (\<lambda>r. mset (f r)) (segment i rs))"
  using assms
proof (induction rs arbitrary: i)
  case (Cons r rs)
  have IH: "segment j (concat (map (lifted f) rs)) = sum_mset (image_mset (\<lambda>r. mset (f r)) (segment j rs))" for j
    by (rule Cons.IH) (meson Cons.prems list.set_intros(2))
  show ?case
  proof (cases "is_marker r")
    case True
    then have e: "concat (map (lifted f) (r # rs)) = r # concat (map (lifted f) rs)" by (simp add: lifted_def)
    show ?thesis unfolding e using True by (cases i) (simp_all add: IH)
  next
    case False
    then have "\<forall>x \<in> set (f r). is_data x" by (meson Cons.prems list.set_intros(1))
    note app = segment_append [OF this, of i "concat (map (lifted f) rs)", unfolded IH]
    have e: "concat (map (lifted f) (r # rs)) = f r @ concat (map (lifted f) rs)" using False by (simp add: lifted_def)
    show ?thesis unfolding e app using False by (cases "i = 0") simp_all
  qed
qed simp

section \<open>The merged output\<close>

lemma merge_indices:
  assumes "merge_reach ins s"
  shows "length (mIn s) = length ins \<and> fst ` set (mFan s) \<subseteq> {..< length ins} \<and> fst ` set (mOut s) \<subseteq> {..< length ins}"
  using assms
proof (induction rule: rtranclp_induct)
  case base
  then show ?case by (simp add: merge_start_def)
next
  case (step s s')
  from step(2,3) show ?case by cases simp_all
qed

lemma segment_views:
  assumes "fst ` set out \<subseteq> {..< n}"
  shows "(\<Sum>w < n. segment i (view w out)) = segment i (map snd out)"
  using assms
proof (induction out arbitrary: i)
  case (Cons x out)
  note [simp] = view_def
  obtain v r where x: "x = (v, r)" and v: "v < n" using Cons.prems by (cases x) auto
  have IH: "(\<Sum>w < n. segment j (view w out)) = segment j (map snd out)" for j using Cons by simp
  consider "is_marker r" "i = 0" | j where "is_marker r" "i = Suc j" | "is_data r" "i = 0" | "is_data r" "0 < i" by (cases i) auto
  then show ?case
  proof cases
    case (2 j)
    then show ?thesis using IH [of j] by (simp add: x)
  next
    case 3
    have "(\<Sum>w < n. segment i (view w (x # out))) = (\<Sum>w < n. (if w = v then {#r#} else {#}) + segment i (view w out))"
      using 3 by (intro sum.cong) (auto simp: x)
    also have "\<dots> = add_mset r (segment i (map snd out))" unfolding sum.distrib IH using v by simp
    finally show ?thesis using 3 by (simp add: x)
  next
    case 4
    then have "(\<Sum>w < n. segment i (view w (x # out))) = (\<Sum>w < n. segment i (view w out))" by (intro sum.cong) (auto simp: x)
    with IH 4 show ?thesis by (simp add: x)
  qed (simp add: x)
qed (simp add: view_def)

lemma sum_image_mset:
  "(\<Sum>w < n. sum_mset (image_mset f (g w))) = sum_mset (image_mset f (\<Sum>w < (n :: nat). g w))"
  by (induction n) simp_all

lemma markers_lifted:
  assumes "\<And>r x. r \<in> set rs \<Longrightarrow> is_data r \<Longrightarrow> x \<in> set (f r) \<Longrightarrow> is_data x"
  shows "filter is_marker (concat (map (lifted f) rs)) = filter is_marker rs"
  using assms
proof (induction rs)
  case (Cons r rs)
  have "filter is_marker (lifted f r) = filter is_marker [r]"
    using Cons.prems [of r] by (auto simp: lifted_def filter_empty_conv)
  moreover have "filter is_marker (concat (map (lifted f) rs)) = filter is_marker rs"
    by (rule Cons.IH) (meson Cons.prems list.set_intros(2))
  ultimately show ?case by simp
qed simp

lemma worker_success:
  assumes "\<forall>r \<in> set rs. is_data r \<longrightarrow> succeeds (\<lambda>r. run_chain dlq ops [r]) r"
  shows "snd (run_worker dlq ops rs) = (concat (map (lifted (made_by (\<lambda>r. run_chain dlq ops [r]))) rs), None)"
  using run_worker_total [OF assms] run_worker_success by (cases "run_worker dlq ops rs") auto

section \<open>Properties\<close>

text \<open>
  C14. A stateless stage does what its operators do one after the other, on one worker and on several.
  When the chain handles a stream without failing, its output is that of the operators run in sequence
  on the whole stream; and with any number of workers no worker fails, and a merge that has come to
  rest has emitted every marker of the stream once, in order, and between two markers the same records
  as the single worker, up to their order.
\<close>

theorem stateless_stage_equivalence:
  assumes "\<forall>op \<in> set ops. makes_data op" and "run_worker dlq ops rs = (l, out, None)" and "0 < n"
    and "merge_reach (worker_outs dlq ops n rs) s" and "\<nexists>s'. merge_step s s'"
  shows "op_by_op dlq ops rs = Some out \<and>
    (\<forall>ins \<in> set (worker_ins n rs). snd (snd (run_worker dlq ops ins)) = None) \<and>
    filter is_marker (map snd (mOut s)) = filter is_marker rs \<and>
    (\<forall>i. segment i (map snd (mOut s)) = segment i out)"
proof -
  let ?c = "made_by (\<lambda>r. run_chain dlq ops [r])"
  let ?share = "robin n 0 rs" and ?outs = "worker_outs dlq ops n rs"
  note run = run_worker_success [OF assms(2)]
  have ok: "\<forall>r \<in> set (?share w). is_data r \<longrightarrow> succeeds (\<lambda>r. run_chain dlq ops [r]) r" for w
    using run robin_subset by blast
  have data: "\<forall>r \<in> set rs. is_data r \<longrightarrow> (\<forall>x \<in> set (?c r). is_data x)" using run run_chain_data [OF assms(1)] by blast
  have sdata: "\<forall>r \<in> set (?share w). is_data r \<longrightarrow> (\<forall>x \<in> set (?c r). is_data x)" for w using data robin_subset by blast
  have outs: "?outs = map (\<lambda>w. concat (map (lifted ?c) (?share w))) [0..<n]"
    by (simp add: worker_outs_def worker_ins_robin [OF assms(3)] worker_success [OF ok])
  have ms: "\<forall>w < length ?outs. filter is_marker (?outs ! w) = filter is_marker rs"
  proof (intro allI impI)
    fix w assume "w < length ?outs"
    then have "filter is_marker (?outs ! w) = filter is_marker (?share w)"
      unfolding outs by simp (intro markers_lifted, meson sdata)
    then show "filter is_marker (?outs ! w) = filter is_marker rs" by (simp only: robin_markers)
  qed
  obtain D where D: "merge_inv ?outs (filter is_marker rs) s D" using merge_reach_inv [OF ms assms(4)] by blast
  have len: "length ?outs = n" unfolding outs by simp
  have view: "view w (mOut s) = concat (map (lifted ?c) (?share w))" if "w < n" for w
    using merge_stuck [OF D ms assms(5)] that len unfolding outs by simp
  have "segment i (map snd (mOut s)) = segment i out" for i
  proof -
    have "segment i (map snd (mOut s)) = (\<Sum>w < n. segment i (view w (mOut s)))"
      using segment_views [of "mOut s" n i] merge_indices [OF assms(4)] len by simp
    also have "\<dots> = (\<Sum>w < n. sum_mset (image_mset (\<lambda>r. mset (?c r)) (segment i (?share w))))"
      using view by (intro sum.cong) (simp_all add: segment_lifted [OF sdata])
    also have "\<dots> = sum_mset (image_mset (\<lambda>r. mset (?c r)) (segment i rs))"
      unfolding segment_robin [OF assms(3), of i rs, symmetric] by (simp only: sum_image_mset)
    also have "\<dots> = segment i out" using run segment_lifted [OF data, of i] by simp
    finally show ?thesis .
  qed
  moreover have "filter is_marker (map snd (mOut s)) = filter is_marker rs"
    using ms markers_view [of 0 "mOut s"] view [OF assms(3)] len assms(3) unfolding outs by simp
  moreover have "op_by_op dlq ops rs = Some out" using fusion [OF assms(1)] run by blast
  moreover have "\<forall>ins \<in> set (worker_ins n rs). snd (snd (run_worker dlq ops ins)) = None"
    by (simp add: worker_ins_robin [OF assms(3)] worker_success [OF ok])
  ultimately show ?thesis by blast
qed

definition demo_chain :: "stateless_op list" where
  "demo_chain = [FilterOp (\<lambda>r. Some (rValue r \<noteq> ''drop'')), MapOp (\<lambda>r. Some (new_record (rTimestamp r) (rKey r) ''v''))]"

definition demo_input :: "rec list" where
  "demo_input = [new_record 0 ''l'' ''drop'', new_record 1 ''l'' ''w'', new_watermark 5]"

lemma demo_chain_run:
  "run_worker (\<lambda>_ _. None) demo_chain demo_input = ([], [new_record 1 ''l'' ''v'', new_watermark 5], None)"
  "worker_outs (\<lambda>_ _. None) demo_chain 2 demo_input = merge_demo_ins"
  by (simp_all add: demo_chain_def demo_input_def worker_outs_def worker_ins_def merge_demo_ins_def called_def numeral_2_eq_2
      new_record_def new_watermark_def blank_def is_marker_def)

theorem stateless_stage_equivalence_witness:
  "op_by_op (\<lambda>_ _. None) demo_chain demo_input = Some [new_record 1 ''l'' ''v'', new_watermark 5] \<and>
   filter is_marker (map snd (mOut merge_demo_done)) = filter is_marker demo_input \<and>
   segment 0 (map snd (mOut merge_demo_done)) = segment 0 [new_record 1 ''l'' ''v'', new_watermark 5]"
proof -
  have "\<forall>op \<in> set demo_chain. makes_data op" by (simp add: demo_chain_def new_record_def blank_def is_marker_def)
  moreover have "merge_reach (worker_outs (\<lambda>_ _. None) demo_chain 2 demo_input) merge_demo_done"
    unfolding demo_chain_run(2) by (rule merge_demo_reach)
  ultimately show ?thesis
    using stateless_stage_equivalence [OF _ demo_chain_run(1), of 2 merge_demo_done] merge_demo_stuck by simp
qed

end
