(* ===== verification/Stage_Plan.thy ===== *)
theory Stage_Plan
  imports Stateless_Stage
begin

text \<open>
  The planner (\<^verbatim>\<open>pipeline/planner.go\<close>): grouping a job's flat operator list into execution stages, with
  the clones of a keyed stage (\<^verbatim>\<open>NewKeyedStage\<close>) and the graph shown on the dashboard
  (\<^verbatim>\<open>pipeline/plan.go\<close>). The window, reduce, join and keyed-process operators are the ones that can be
  cloned; a type parameter stands for their configuration, which a clone shares. \<^verbatim>\<open>OnClone\<close> is the one
  of the engine, which numbers the clones from 0.
\<close>

section \<open>Operators and stages\<close>

datatype 's operator =
    Stateless stateless_op int \<comment> \<open>with the field \<^verbatim>\<open>Par\<close>\<close>
  | KeyByOp key_by
  | Stateful string 's \<comment> \<open>name and configuration\<close>

fun op_name :: "'s operator \<Rightarrow> string" where
  "op_name (Stateless (MapOp _) _) = ''Map''"
| "op_name (Stateless (FilterOp _) _) = ''Filter''"
| "op_name (Stateless (FlatMapOp _) _) = ''FlatMap''"
| "op_name (Stateless (ProcessOp _) _) = ''Process''"
| "op_name (KeyByOp _) = ''KeyBy''"
| "op_name (Stateful name _) = name"

definition parallelism :: "int \<Rightarrow> int" where
  "parallelism par = (if par < 1 then 1 else par)"

type_synonym 's clone = "nat \<times> string \<times> 's" \<comment> \<open>the global worker index and the operator\<close>

datatype 's stage =
    SourceStage
  | StatelessStage string "(stateless_op \<times> int) list" "string list" int \<comment> \<open>name, operators, labels, parallelism\<close>
  | KeyedStage string key_by "'s clone list list"
  | ChannelStage string string nat "'s operator" \<comment> \<open>name, label, the index in \<^verbatim>\<open>op-<i>\<close>\<close>
  | SinkStage

datatype plan_error =
    NoSource
  | NoSink
  | LabelCount nat nat
  | BadPartitions int
  | BackendFailed string string \<comment> \<open>owner, error\<close>

record 's plan_config =
  pcSource :: bool \<comment> \<open>not nil\<close>
  pcOperators :: "'s operator list"
  pcLabels :: "string list"
  pcSink :: bool
  pcBackendFor :: "(string \<Rightarrow> string option) option" \<comment> \<open>the error of \<^verbatim>\<open>StateBackendFor\<close>, if it fails\<close>

definition op_owner :: "nat \<Rightarrow> string" where
  "op_owner i = ''op-'' @ itoa (int i)"

definition worker_owner :: "nat \<Rightarrow> string" where
  "worker_owner k = ''worker-'' @ itoa (int k)"

definition assign_backend :: "(string \<Rightarrow> string option) option \<Rightarrow> string \<Rightarrow> plan_error option" where
  "assign_backend bf owner =
     (case bf of None \<Rightarrow> None | Some f \<Rightarrow> map_option (BackendFailed owner) (f owner))"

section \<open>Keyed stages\<close>

fun clone_chain :: "(string \<Rightarrow> string option) option \<Rightarrow> (string \<times> 's) list \<Rightarrow> nat \<Rightarrow> plan_error + 's clone list" where
  "clone_chain bf [] k = Inr []"
| "clone_chain bf (op # ops) k =
     (case assign_backend bf (worker_owner k) of
        Some e \<Rightarrow> Inl e
      | None \<Rightarrow> (case clone_chain bf ops (k + 1) of Inl e \<Rightarrow> Inl e | Inr chain \<Rightarrow> Inr ((k, op) # chain)))"

fun clone_workers :: "(string \<Rightarrow> string option) option \<Rightarrow> (string \<times> 's) list \<Rightarrow> nat \<Rightarrow> nat \<Rightarrow> plan_error + 's clone list list" where
  "clone_workers bf ops 0 k = Inr []"
| "clone_workers bf ops (Suc n) k =
     (case clone_chain bf ops k of
        Inl e \<Rightarrow> Inl e
      | Inr chain \<Rightarrow>
          (case clone_workers bf ops n (k + length ops) of Inl e \<Rightarrow> Inl e | Inr ws \<Rightarrow> Inr (chain # ws)))"

fun take_stateful :: "'s operator list \<Rightarrow> (string \<times> 's) list" where
  "take_stateful (Stateful name s # ops) = (name, s) # take_stateful ops"
| "take_stateful ops = []"

section \<open>The plan\<close>

record 's planning =
  pgStages :: "'s stage list"
  pgGroup :: "(stateless_op \<times> int) list"
  pgLabels :: "string list"
  pgPar :: int
  pgStateless :: nat
  pgKeyed :: nat
  pgChannel :: nat
  pgClones :: nat

definition stateless_name :: "nat \<Rightarrow> string" where
  "stateless_name k = ''stateless-'' @ itoa (int k)"

definition keyed_name :: "nat \<Rightarrow> string" where
  "keyed_name k = ''keyed-'' @ itoa (int k)"

definition channel_name :: "string \<Rightarrow> nat \<Rightarrow> string" where
  "channel_name name k = ''op-'' @ name @ ''-'' @ itoa (int k)"

definition plan_start :: "'s planning" where
  "plan_start = \<lparr>pgStages = [SourceStage], pgGroup = [], pgLabels = [], pgPar = 1,
     pgStateless = 0, pgKeyed = 0, pgChannel = 0, pgClones = 0\<rparr>"

definition flush :: "'s planning \<Rightarrow> 's planning" where
  "flush pg =
     (if pgGroup pg = [] then pg
      else pg\<lparr>pgStages := pgStages pg @ [StatelessStage (stateless_name (pgStateless pg)) (pgGroup pg) (pgLabels pg) (pgPar pg)],
             pgStateless := pgStateless pg + 1, pgGroup := [], pgLabels := []\<rparr>)"

definition plan_keyed :: "(string \<Rightarrow> string option) option \<Rightarrow> key_by \<Rightarrow> (string \<times> 's) list \<Rightarrow> 's planning \<Rightarrow> plan_error + 's planning" where
  "plan_keyed bf kb stateful pg =
     (case clone_workers bf stateful (nat (kbPartitions kb)) (pgClones pg) of
        Inl e \<Rightarrow> Inl e
      | Inr ws \<Rightarrow> Inr (pg\<lparr>pgStages := pgStages pg @ [KeyedStage (keyed_name (pgKeyed pg)) kb ws],
                       pgKeyed := pgKeyed pg + 1, pgClones := pgClones pg + nat (kbPartitions kb) * length stateful\<rparr>))"

definition plan_stateless :: "stateless_op \<Rightarrow> int \<Rightarrow> string \<Rightarrow> 's planning \<Rightarrow> 's planning" where
  "plan_stateless op par label pg =
     (let pg1 = (if pgGroup pg \<noteq> [] \<and> parallelism par \<noteq> pgPar pg then flush pg else pg)
      in pg1\<lparr>pgPar := parallelism par, pgGroup := pgGroup pg1 @ [(op, par)], pgLabels := pgLabels pg1 @ [label]\<rparr>)"

definition plan_channel :: "(string \<Rightarrow> string option) option \<Rightarrow> nat \<Rightarrow> 's operator \<Rightarrow> string \<Rightarrow> 's planning \<Rightarrow> plan_error + 's planning" where
  "plan_channel bf i op label pg =
     (let pg1 = flush pg in
      case assign_backend bf (op_owner i) of
        Some e \<Rightarrow> Inl e
      | None \<Rightarrow> Inr (pg1\<lparr>pgStages := pgStages pg1 @ [ChannelStage (channel_name (op_name op) (pgChannel pg1)) label i op],
                        pgChannel := pgChannel pg1 + 1\<rparr>))"

lemma take_stateful_length: "length (take_stateful ops) \<le> length ops"
  by (induction ops rule: take_stateful.induct) simp_all

function plan_loop :: "(string \<Rightarrow> string option) option \<Rightarrow> string list \<Rightarrow> 's operator list \<Rightarrow> nat \<Rightarrow> 's planning \<Rightarrow> plan_error + 's planning" where
  "plan_loop bf labels [] i pg = Inr (flush pg)"
| "plan_loop bf labels (KeyByOp kb # ops) i pg =
     (if kbPartitions kb \<le> 0 then Inl (BadPartitions (kbPartitions kb))
      else
        let stateful = take_stateful ops; skip = length stateful in
        case plan_keyed bf kb stateful (flush pg) of
          Inl e \<Rightarrow> Inl e
        | Inr pg1 \<Rightarrow> plan_loop bf labels (drop skip ops) (i + skip + 1) pg1)"
| "plan_loop bf labels (Stateless op par # ops) i pg = plan_loop bf labels ops (i + 1) (plan_stateless op par (labels ! i) pg)"
| "plan_loop bf labels (Stateful name s # ops) i pg =
     (case plan_channel bf i (Stateful name s) (labels ! i) pg of
        Inl e \<Rightarrow> Inl e
      | Inr pg1 \<Rightarrow> plan_loop bf labels ops (i + 1) pg1)"
  by pat_completeness auto
termination
  by (relation "measure (\<lambda>(bf, labels, ops, i, pg). length ops)") auto

definition build_plan :: "'s plan_config \<Rightarrow> plan_error + 's stage list" where
  "build_plan cfg =
     (if \<not> pcSource cfg then Inl NoSource
      else if \<not> pcSink cfg then Inl NoSink
      else if length (pcLabels cfg) \<noteq> length (pcOperators cfg) then Inl (LabelCount (length (pcLabels cfg)) (length (pcOperators cfg)))
      else case plan_loop (pcBackendFor cfg) (pcLabels cfg) (pcOperators cfg) 0 plan_start of
        Inl e \<Rightarrow> Inl e
      | Inr pg \<Rightarrow> Inr (pgStages pg @ [SinkStage]))"

section \<open>The dashboard graph\<close>

fun stage_name :: "'s stage \<Rightarrow> string" where
  "stage_name SourceStage = ''source''"
| "stage_name (StatelessStage name _ _ _) = name"
| "stage_name (KeyedStage name _ _) = (if name \<noteq> [] then name else ''keyed'')"
| "stage_name (ChannelStage name _ _ op) = (if name \<noteq> [] then name else ''op-'' @ op_name op)"
| "stage_name SinkStage = ''sink''"

record plan_node =
  pnName :: string
  pnType :: string
  pnParallelism :: int
  pnOperators :: "string list"

record plan_edge =
  peFrom :: string
  peTo :: string
  peName :: string

record plan_graph =
  pgrStages :: "plan_node list"
  pgrEdges :: "plan_edge list"

fun plan_node_of :: "'s stage \<Rightarrow> plan_node" where
  "plan_node_of SourceStage = \<lparr>pnName = ''source'', pnType = ''source'', pnParallelism = 1, pnOperators = []\<rparr>"
| "plan_node_of (StatelessStage name ops labels par) =
     \<lparr>pnName = name, pnType = ''stateless'', pnParallelism = (if par < 1 then 1 else par),
      pnOperators = map (\<lambda>(op, p). op_name (Stateless op p :: 's operator)) ops\<rparr>"
| "plan_node_of (KeyedStage name kb workers) =
     \<lparr>pnName = stage_name (KeyedStage name kb workers), pnType = ''keyed'', pnParallelism = int (length workers),
      pnOperators = op_name (KeyByOp kb :: 's operator) #
        (if workers \<noteq> [] then map (\<lambda>(_, n, s). op_name (Stateful n s :: 's operator)) (hd workers) else [])\<rparr>"
| "plan_node_of (ChannelStage name label i op) =
     \<lparr>pnName = stage_name (ChannelStage name label i op), pnType = ''channel'', pnParallelism = 1, pnOperators = [op_name op]\<rparr>"
| "plan_node_of SinkStage = \<lparr>pnName = ''sink'', pnType = ''sink'', pnParallelism = 1, pnOperators = []\<rparr>"

definition describe_plan :: "'s stage list \<Rightarrow> plan_graph" where
  "describe_plan stages =
     \<lparr>pgrStages = map plan_node_of stages,
      pgrEdges = map (\<lambda>i. \<lparr>peFrom = stage_name (stages ! i), peTo = stage_name (stages ! (i + 1)), peName = ''edge-'' @ itoa (int i)\<rparr>)
        [0..<length stages - 1]\<rparr>"

section \<open>What a plan must be\<close>

fun stage_ops :: "'s stage \<Rightarrow> 's operator list" where
  "stage_ops (StatelessStage _ ops _ _) = map (\<lambda>(op, par). Stateless op par) ops"
| "stage_ops (KeyedStage _ kb workers) = KeyByOp kb # map (\<lambda>(_, n, s). Stateful n s) (hd workers)"
| "stage_ops (ChannelStage _ _ _ op) = [op]"
| "stage_ops _ = []"

text \<open>
  A stateless stage runs a non-empty group of one parallelism with a label each; a keyed stage has as
  many workers as the KeyBy has partitions, all with the same chain; another stage runs one stateful
  operator.
\<close>

fun stage_ok :: "'s stage \<Rightarrow> bool" where
  "stage_ok (StatelessStage _ ops labels par) \<longleftrightarrow> ops \<noteq> [] \<and> length labels = length ops \<and> (\<forall>(op, p) \<in> set ops. parallelism p = par)"
| "stage_ok (KeyedStage _ kb workers) \<longleftrightarrow>
     0 < kbPartitions kb \<and> int (length workers) = kbPartitions kb \<and> (\<forall>w \<in> set workers. map snd w = map snd (hd workers))"
| "stage_ok (ChannelStage _ _ _ op) \<longleftrightarrow> (\<exists>n s. op = Stateful n s)"
| "stage_ok _ \<longleftrightarrow> True"

text \<open>Neighbours that should have been one stage: equal parallelism, or a stateful operator left behind a keyed stage.\<close>

fun mergeable :: "'s stage \<Rightarrow> 's stage \<Rightarrow> bool" where
  "mergeable (StatelessStage _ _ _ p) (StatelessStage _ _ _ q) \<longleftrightarrow> p = q"
| "mergeable (KeyedStage _ _ _) (ChannelStage _ _ _ _) \<longleftrightarrow> True"
| "mergeable _ _ \<longleftrightarrow> False"

fun clone_indices :: "'s stage \<Rightarrow> nat list" where
  "clone_indices (KeyedStage _ _ workers) = map fst (concat workers)"
| "clone_indices _ = []"

text \<open>The state owners of the plan, \<^verbatim>\<open>worker-<idx>\<close> and \<^verbatim>\<open>op-<i>\<close>.\<close>

fun stage_owners :: "'s stage \<Rightarrow> string list" where
  "stage_owners (ChannelStage _ _ i _) = [op_owner i]"
| "stage_owners st = map worker_owner (clone_indices st)"

section \<open>Clones\<close>

lemma clone_chain_shape:
  "clone_chain bf ops k = Inr chain \<Longrightarrow> map fst chain = [k..<k + length ops] \<and> map snd chain = ops"
proof (induction ops arbitrary: k chain)
  case (Cons op ops)
  then obtain chain' where "clone_chain bf ops (k + 1) = Inr chain'" "chain = (k, op) # chain'"
    by (auto split: option.splits sum.splits)
  with Cons.IH [of "k + 1" chain'] show ?case by (simp add: upt_conv_Cons del: upt_Suc)
qed simp

lemma clone_workers_shape:
  "clone_workers bf ops n k = Inr ws \<Longrightarrow>
     length ws = n \<and> (\<forall>w \<in> set ws. map snd w = ops) \<and> map fst (concat ws) = [k..<k + n * length ops]"
proof (induction n arbitrary: k ws)
  case (Suc n)
  then obtain chain ws' where c: "clone_chain bf ops k = Inr chain" and w: "clone_workers bf ops n (k + length ops) = Inr ws'" and ws: "ws = chain # ws'"
    by (auto split: sum.splits)
  have "[k..<k + length ops] @ [k + length ops..<k + length ops + n * length ops] = [k..<k + (length ops + n * length ops)]"
    using upt_add_eq_append [of k "k + length ops" "n * length ops"] by (simp add: add.assoc)
  with Suc.IH [OF w] clone_chain_shape [OF c] show ?case by (simp add: ws)
qed simp

lemma take_stateful_split: "ops = map (\<lambda>(n, s). Stateful n s) (take_stateful ops) @ drop (length (take_stateful ops)) ops"
  by (induction ops rule: take_stateful.induct) simp_all

lemma take_stateful_stops: "drop (length (take_stateful ops)) ops \<noteq> Stateful n s # rest"
  by (induction ops rule: take_stateful.induct) simp_all

section \<open>The loop\<close>

text \<open>The proof rule of the planning loop: what every iteration keeps holds before the last flush.\<close>

lemma plan_loop_rule:
  assumes "plan_loop bf labels ops i pg = Inr pg'" and "P ops i pg"
    and "\<And>kb ops i pg pg1. \<lbrakk>P (KeyByOp kb # ops) i pg; 0 < kbPartitions kb; plan_keyed bf kb (take_stateful ops) (flush pg) = Inr pg1\<rbrakk>
      \<Longrightarrow> P (drop (length (take_stateful ops)) ops) (i + length (take_stateful ops) + 1) pg1"
    and "\<And>op par ops i pg. P (Stateless op par # ops) i pg \<Longrightarrow> P ops (i + 1) (plan_stateless op par (labels ! i) pg)"
    and "\<And>n s ops i pg pg1. \<lbrakk>P (Stateful n s # ops) i pg; plan_channel bf i (Stateful n s) (labels ! i) pg = Inr pg1\<rbrakk> \<Longrightarrow> P ops (i + 1) pg1"
  shows "\<exists>i0 pg0. P [] i0 pg0 \<and> pg' = flush pg0"
  using assms
proof (induction bf labels ops i pg rule: plan_loop.induct)
  case (1 bf labels i pg)
  then show ?case by auto
next
  case (2 bf labels kb ops i pg)
  obtain pg1 where p: "\<not> kbPartitions kb \<le> 0" and k: "plan_keyed bf kb (take_stateful ops) (flush pg) = Inr pg1"
    and l: "plan_loop bf labels (drop (length (take_stateful ops)) ops) (i + length (take_stateful ops) + 1) pg1 = Inr pg'"
    using 2(2) by (auto simp: Let_def split: if_splits sum.splits)
  show ?case by (rule 2(1) [OF p refl refl k l _ 2(4-6)]) (use 2(3,4) p k in simp)
next
  case (3 bf labels op par ops i pg)
  show ?case by (rule 3(1) [OF _ _ 3(4-6)]) (use 3(2,3,5) in simp_all)
next
  case (4 bf labels n s ops i pg)
  obtain pg1 where c: "plan_channel bf i (Stateful n s) (labels ! i) pg = Inr pg1" and l: "plan_loop bf labels ops (i + 1) pg1 = Inr pg'"
    using 4(2) by (auto split: sum.splits)
  show ?case by (rule 4(1) [OF c l _ 4(4-6)]) (use 4(3,6) c in simp)
qed

definition group_stage :: "'s planning \<Rightarrow> 's stage list" where
  "group_stage pg = (if pgGroup pg = [] then []
     else [StatelessStage (stateless_name (pgStateless pg)) (pgGroup pg) (pgLabels pg) (pgPar pg)])"

lemma flush_fields [simp]:
  "pgStages (flush pg) = pgStages pg @ group_stage pg" "pgGroup (flush pg) = []"
  "pgStateless (flush pg) = pgStateless pg + length (group_stage pg)" "pgKeyed (flush pg) = pgKeyed pg"
  "pgChannel (flush pg) = pgChannel pg" "pgClones (flush pg) = pgClones pg" "pgPar (flush pg) = pgPar pg"
  "pgLabels (flush pg) = (if pgGroup pg = [] then pgLabels pg else [])"
  by (simp_all add: flush_def group_stage_def)

text \<open>Whether the next stateless operator closes the group.\<close>

definition regroup :: "int \<Rightarrow> 's planning \<Rightarrow> 's planning" where
  "regroup par pg = (if pgGroup pg \<noteq> [] \<and> parallelism par \<noteq> pgPar pg then flush pg else pg)"

lemma stateless_fields [simp]:
  "pgStages (plan_stateless op par lb pg) = pgStages (regroup par pg)"
  "pgGroup (plan_stateless op par lb pg) = pgGroup (regroup par pg) @ [(op, par)]"
  "pgLabels (plan_stateless op par lb pg) = pgLabels (regroup par pg) @ [lb]"
  "pgPar (plan_stateless op par lb pg) = parallelism par" "pgStateless (plan_stateless op par lb pg) = pgStateless (regroup par pg)"
  "pgKeyed (plan_stateless op par lb pg) = pgKeyed pg" "pgChannel (plan_stateless op par lb pg) = pgChannel pg"
  "pgClones (plan_stateless op par lb pg) = pgClones pg"
  by (simp_all add: plan_stateless_def regroup_def)

lemma channel_stage_made:
  assumes "plan_channel bf i op lb pg = Inr pg1"
  shows "pg1 = (flush pg)\<lparr>pgStages := pgStages (flush pg) @ [ChannelStage (channel_name (op_name op) (pgChannel pg)) lb i op],
    pgChannel := pgChannel pg + 1\<rparr>"
  using assms by (auto simp: plan_channel_def Let_def split: option.splits)

definition planned :: "'s planning \<Rightarrow> 's operator list" where \<comment> \<open>the operators taken up so far\<close>
  "planned pg = concat (map stage_ops (pgStages pg)) @ map (\<lambda>(op, par). Stateless op par) (pgGroup pg)"

definition group_ok :: "'s planning \<Rightarrow> bool" where
  "group_ok pg \<longleftrightarrow> length (pgLabels pg) = length (pgGroup pg) \<and> (\<forall>(op, p) \<in> set (pgGroup pg). parallelism p = pgPar pg)"

lemma planned_flush [simp]: "planned (flush pg) = planned pg"
  by (simp add: planned_def group_stage_def)

lemma planned_regroup [simp]: "planned (regroup par pg) = planned pg"
  by (simp add: regroup_def)

lemma planned_stateless: "planned (plan_stateless op par lb pg) = planned pg @ [Stateless op par]"
proof -
  have "planned (plan_stateless op par lb pg) = planned (regroup par pg) @ [Stateless op par]" by (simp add: planned_def)
  then show ?thesis by simp
qed

lemma planned_channel:
  assumes "plan_channel bf i op lb pg = Inr pg1"
  shows "planned pg1 = planned pg @ [op]"
proof -
  have "planned pg1 = planned (flush pg) @ [op]" unfolding channel_stage_made [OF assms] by (simp add: planned_def)
  then show ?thesis by simp
qed

lemma keyed_stage_made:
  assumes "plan_keyed bf kb stateful pg = Inr pg1" and "0 < kbPartitions kb"
  obtains ws where "pg1 = pg\<lparr>pgStages := pgStages pg @ [KeyedStage (keyed_name (pgKeyed pg)) kb ws],
      pgKeyed := pgKeyed pg + 1, pgClones := pgClones pg + nat (kbPartitions kb) * length stateful\<rparr>"
    and "ws \<noteq> []" "int (length ws) = kbPartitions kb" "\<forall>w \<in> set ws. map snd w = stateful"
    and "map fst (concat ws) = [pgClones pg..<pgClones pg + nat (kbPartitions kb) * length stateful]"
proof -
  obtain ws where w: "clone_workers bf stateful (nat (kbPartitions kb)) (pgClones pg) = Inr ws"
    using assms(1) by (auto simp: plan_keyed_def split: sum.splits)
  from clone_workers_shape [OF w] assms have "length ws = nat (kbPartitions kb)" by simp
  then have "ws \<noteq> []" "int (length ws) = kbPartitions kb" using assms(2) by auto
  show ?thesis
    by (rule that [OF _ \<open>ws \<noteq> []\<close> \<open>int (length ws) = kbPartitions kb\<close>])
      (use clone_workers_shape [OF w] assms(1) w in \<open>simp_all add: plan_keyed_def\<close>)
qed

lemma plan_covers:
  assumes "plan_loop bf labels ops 0 plan_start = Inr pg"
  shows "concat (map stage_ops (pgStages pg)) = ops"
proof -
  let ?P = "\<lambda>rest (i :: nat) pg. planned pg @ rest = ops"
  have "\<exists>i0 pg0. ?P [] i0 pg0 \<and> pg = flush pg0"
  proof (rule plan_loop_rule [OF assms, of ?P])
    show "planned plan_start @ ops = ops" by (simp add: planned_def plan_start_def)
  next
    fix kb and rest :: "'a operator list" and i pg pg1
    assume p: "planned pg @ KeyByOp kb # rest = ops" and k: "0 < kbPartitions kb" "plan_keyed bf kb (take_stateful rest) (flush pg) = Inr pg1"
    obtain ws where g: "pgGroup pg1 = pgGroup (flush pg)" and st: "pgStages pg1 = pgStages (flush pg) @ [KeyedStage (keyed_name (pgKeyed (flush pg))) kb ws]"
      and ws: "ws \<noteq> []" "\<forall>w \<in> set ws. map snd w = take_stateful rest"
      by (rule keyed_stage_made [OF k(2,1)]) auto
    have "planned pg1 = planned (flush pg) @ KeyByOp kb # map (\<lambda>(_, n, s). Stateful n s) (hd ws)" by (simp add: planned_def g st)
    moreover have "map snd (hd ws) = take_stateful rest" using ws by (cases ws) auto
    moreover have "map (\<lambda>(_, n, s). Stateful n s) (hd ws) = map (\<lambda>(n, s). Stateful n s) (map snd (hd ws))"
      by (simp add: case_prod_beta o_def)
    ultimately show "planned pg1 @ drop (length (take_stateful rest)) rest = ops"
      using p take_stateful_split [of rest] by simp
  next
    fix op par and rest :: "'a operator list" and i pg
    assume "planned pg @ Stateless op par # rest = ops"
    then show "planned (plan_stateless op par (labels ! i) pg) @ rest = ops" by (simp add: planned_stateless)
  next
    fix n s and rest :: "'a operator list" and i pg pg1
    assume "planned pg @ Stateful n s # rest = ops" and c: "plan_channel bf i (Stateful n s) (labels ! i) pg = Inr pg1"
    then show "planned pg1 @ rest = ops" by (simp add: planned_channel [OF c])
  qed
  then obtain pg0 where "planned (flush pg0) = ops" "pg = flush pg0" by auto
  then show ?thesis by (simp add: planned_def)
qed

definition stages_ok :: "'s planning \<Rightarrow> bool" where
  "stages_ok pg \<longleftrightarrow> group_ok pg \<and> (\<forall>st \<in> set (pgStages pg). stage_ok st)"

lemma stages_ok_flush: "stages_ok pg \<Longrightarrow> stages_ok (flush pg)"
  by (auto simp: stages_ok_def group_ok_def group_stage_def)

lemma stages_ok_stateless:
  assumes "stages_ok pg"
  shows "stages_ok (plan_stateless op par lb pg)"
proof -
  have "stages_ok (regroup par pg)" using assms stages_ok_flush [OF assms] by (simp add: regroup_def)
  moreover have "pgGroup (regroup par pg) = [] \<or> pgPar (regroup par pg) = parallelism par" by (auto simp: regroup_def)
  ultimately show ?thesis by (auto simp: stages_ok_def group_ok_def)
qed

lemma plan_stages_ok:
  assumes "plan_loop bf labels ops 0 plan_start = Inr pg" and "st \<in> set (pgStages pg)"
  shows "stage_ok st"
proof -
  let ?P = "\<lambda>rest (i :: nat) pg. stages_ok pg"
  have "\<exists>i0 pg0. ?P [] i0 pg0 \<and> pg = flush pg0"
  proof (rule plan_loop_rule [OF assms(1), of ?P])
    fix kb and rest :: "'a operator list" and i pg pg1
    assume p: "stages_ok pg" and k: "0 < kbPartitions kb" "plan_keyed bf kb (take_stateful rest) (flush pg) = Inr pg1"
    show "stages_ok pg1" by (rule keyed_stage_made [OF k(2,1)]) (use k stages_ok_flush [OF p] in \<open>auto simp: stages_ok_def group_ok_def\<close>)
  next
    fix n s and rest :: "'a operator list" and i pg pg1
    assume p: "stages_ok pg" and c: "plan_channel bf i (Stateful n s) (labels ! i) pg = Inr pg1"
    show "stages_ok pg1" unfolding channel_stage_made [OF c] using stages_ok_flush [OF p] by (simp add: stages_ok_def group_ok_def)
  next
    show "stages_ok plan_start" by (simp add: plan_start_def stages_ok_def group_ok_def)
  qed (rule stages_ok_stateless)
  with stages_ok_flush assms(2) show ?thesis unfolding stages_ok_def by blast
qed

section \<open>State owners\<close>

definition owners :: "'s planning \<Rightarrow> string list" where
  "owners pg = concat (map stage_owners (pgStages pg))"

lemma group_stage_owners [simp]: "concat (map stage_owners (group_stage pg)) = []" "concat (map clone_indices (group_stage pg)) = []"
  by (simp_all add: group_stage_def)

lemma owners_flush [simp]: "owners (flush pg) = owners pg"
  by (simp add: owners_def)

lemma owner_inject [simp]:
  "op_owner i = op_owner j \<longleftrightarrow> i = j" "worker_owner i = worker_owner j \<longleftrightarrow> i = j"
  "op_owner i \<noteq> worker_owner j" "worker_owner j \<noteq> op_owner i"
  by (simp_all add: op_owner_def worker_owner_def)

definition owners_ok :: "nat \<Rightarrow> 's planning \<Rightarrow> bool" where
  "owners_ok i pg \<longleftrightarrow> distinct (owners pg) \<and> concat (map clone_indices (pgStages pg)) = [0..<pgClones pg] \<and>
     set (owners pg) \<subseteq> op_owner ` {..<i} \<union> worker_owner ` {..<pgClones pg}"

lemma owners_ok_regroup [simp]: "owners_ok i (flush pg) = owners_ok i pg" "owners_ok i (regroup par pg) = owners_ok i pg"
  by (simp_all add: owners_ok_def regroup_def)

lemma owners_ok_stateless:
  assumes "owners_ok i pg"
  shows "owners_ok (i + 1) (plan_stateless op par lb pg)"
proof -
  have "owners_ok i (plan_stateless op par lb pg) = owners_ok i (regroup par pg)"
    by (simp add: owners_ok_def owners_def) (simp add: regroup_def)
  with assms have "owners_ok i (plan_stateless op par lb pg)" by simp
  then show ?thesis by (auto simp: owners_ok_def)
qed

lemma owners_ok_keyed:
  assumes "owners_ok i pg" and "plan_keyed bf kb stateful (flush pg) = Inr pg1" and "0 < kbPartitions kb"
  shows "owners_ok (i + length stateful + 1) pg1"
proof -
  obtain ws where pg1: "pgStages pg1 = pgStages (flush pg) @ [KeyedStage (keyed_name (pgKeyed (flush pg))) kb ws]"
      "pgClones pg1 = pgClones pg + nat (kbPartitions kb) * length stateful"
    and ix: "map fst (concat ws) = [pgClones pg..<pgClones pg1]"
    by (rule keyed_stage_made [OF assms(2,3)]) simp_all
  have o: "owners pg1 = owners pg @ map worker_owner [pgClones pg..<pgClones pg1]" by (simp add: owners_def pg1(1) ix)
  have c: "concat (map clone_indices (pgStages pg1)) = [0..<pgClones pg1]"
    using assms(1) upt_add_eq_append [of 0 "pgClones pg" "nat (kbPartitions kb) * length stateful"] by (simp add: owners_ok_def pg1 ix)
  have sub: "set (owners pg) \<subseteq> op_owner ` {..<i} \<union> worker_owner ` {..<pgClones pg}" and d: "distinct (owners pg)"
    using assms(1) by (simp_all add: owners_ok_def)
  have "distinct (owners pg1)" unfolding o using d sub by (auto simp: distinct_map inj_on_def)
  moreover have "set (owners pg1) \<subseteq> op_owner ` {..<i + length stateful + 1} \<union> worker_owner ` {..<pgClones pg1}"
    unfolding o using sub pg1(2) by auto
  ultimately show ?thesis using c by (simp add: owners_ok_def)
qed

lemma owners_ok_channel:
  assumes "owners_ok i pg" and "plan_channel bf i (Stateful n s) lb pg = Inr pg1"
  shows "owners_ok (i + 1) pg1"
proof -
  note pg1 = channel_stage_made [OF assms(2)]
  have o: "owners pg1 = owners pg @ [op_owner i]" unfolding pg1 by (simp add: owners_def)
  have c: "concat (map clone_indices (pgStages pg1)) = [0..<pgClones pg1]" "pgClones pg1 = pgClones pg"
    using assms(1) unfolding pg1 by (simp_all add: owners_ok_def)
  have sub: "set (owners pg) \<subseteq> op_owner ` {..<i} \<union> worker_owner ` {..<pgClones pg}" and d: "distinct (owners pg)"
    using assms(1) by (simp_all add: owners_ok_def)
  have "distinct (owners pg1)" unfolding o using d sub by auto
  moreover have "set (owners pg1) \<subseteq> op_owner ` {..<i + 1} \<union> worker_owner ` {..<pgClones pg1}" unfolding o using sub c(2) by auto
  ultimately show ?thesis using c by (simp add: owners_ok_def)
qed

lemma plan_owners:
  assumes "plan_loop bf labels ops 0 plan_start = Inr pg"
  shows "distinct (owners pg)" and "concat (map clone_indices (pgStages pg)) = [0..<pgClones pg]"
proof -
  let ?P = "\<lambda>rest i pg. owners_ok i pg"
  have "\<exists>i0 pg0. ?P [] i0 pg0 \<and> pg = flush pg0"
  proof (rule plan_loop_rule [OF assms, of ?P])
    show "owners_ok 0 plan_start" by (simp add: owners_ok_def owners_def plan_start_def)
  qed (fact owners_ok_keyed owners_ok_stateless owners_ok_channel | rule owners_ok_keyed owners_ok_stateless owners_ok_channel, assumption+)+
  then show "distinct (owners pg)" and "concat (map clone_indices (pgStages pg)) = [0..<pgClones pg]"
    by (auto simp: owners_ok_def)
qed

section \<open>Grouping\<close>

abbreviation apart :: "'s stage list \<Rightarrow> bool" where
  "apart \<equiv> successively (\<lambda>a b. \<not> mergeable a b)"

fun is_stateless :: "'s stage \<Rightarrow> bool" where
  "is_stateless (StatelessStage _ _ _ _) \<longleftrightarrow> True"
| "is_stateless _ \<longleftrightarrow> False"

fun is_keyed :: "'s stage \<Rightarrow> bool" where
  "is_keyed (KeyedStage _ _ _) \<longleftrightarrow> True"
| "is_keyed _ \<longleftrightarrow> False"

definition grouped :: "'s operator list \<Rightarrow> 's planning \<Rightarrow> bool" where
  "grouped rest pg \<longleftrightarrow> pgStages pg \<noteq> [] \<and> apart (pgStages pg @ group_stage pg) \<and>
     (pgGroup pg = [] \<longrightarrow> \<not> is_stateless (last (pgStages pg)) \<and>
       (is_keyed (last (pgStages pg)) \<longrightarrow> (\<forall>n s ops. rest \<noteq> Stateful n s # ops)))"

lemma not_mergeable [simp]:
  "\<not> mergeable a (KeyedStage n kb ws)" "\<not> is_keyed a \<Longrightarrow> \<not> mergeable a (ChannelStage n lb i op)"
  "\<not> is_stateless a \<Longrightarrow> \<not> mergeable a (StatelessStage n gs ls p)"
  by (cases a; simp)+

lemma mergeable_par: "mergeable a (StatelessStage n gs ls p) = mergeable a (StatelessStage n' gs' ls' p)"
  by (cases a) simp_all

lemma grouped_keyed:
  assumes "grouped (KeyByOp kb # ops) pg" and "plan_keyed bf kb (take_stateful ops) (flush pg) = Inr pg1" and "0 < kbPartitions kb"
  shows "grouped (drop (length (take_stateful ops)) ops) pg1"
proof -
  obtain ws where pg1: "pgStages pg1 = pgStages (flush pg) @ [KeyedStage (keyed_name (pgKeyed (flush pg))) kb ws]" "pgGroup pg1 = []"
    by (rule keyed_stage_made [OF assms(2,3)]) simp_all
  then show ?thesis using assms(1) take_stateful_stops [of ops]
    by (auto simp: grouped_def group_stage_def successively_append_iff)
qed

lemma grouped_stateless:
  assumes "grouped (Stateless op par # ops) pg"
  shows "grouped ops (plan_stateless op par lb pg)"
proof -
  let ?pg = "plan_stateless op par lb pg"
  obtain n gs ls where g: "group_stage ?pg = [StatelessStage n gs ls (parallelism par)]" by (simp add: group_stage_def)
  have "apart (pgStages ?pg @ group_stage ?pg)"
  proof (cases "pgGroup pg = []")
    case True
    then have "pgStages ?pg = pgStages pg" by (simp add: regroup_def)
    then show ?thesis using assms True by (simp add: grouped_def group_stage_def [of pg] g successively_append_iff)
  next
    case False
    obtain n' gs' ls' where g': "group_stage pg = [StatelessStage n' gs' ls' (pgPar pg)]" using False by (simp add: group_stage_def)
    show ?thesis
    proof (cases "parallelism par = pgPar pg")
      case True
      then have "pgStages ?pg = pgStages pg" by (simp add: regroup_def)
      then show ?thesis using assms True mergeable_par [of "last (pgStages pg)" n gs ls "pgPar pg" n' gs' ls'] by (auto simp: grouped_def g g' successively_append_iff)
    next
      case other: False
      then have "pgStages ?pg = pgStages pg @ group_stage pg" using False by (simp add: regroup_def)
      then show ?thesis using assms other by (auto simp: grouped_def g g' successively_append_iff)
    qed
  qed
  moreover have "pgStages ?pg \<noteq> []" using assms by (simp add: grouped_def regroup_def)
  ultimately show ?thesis by (simp add: grouped_def)
qed

lemma grouped_channel:
  assumes "grouped (Stateful n s # ops) pg" and "plan_channel bf i (Stateful n s) lb pg = Inr pg1"
  shows "grouped ops pg1"
proof -
  have pg1: "pgStages pg1 = (pgStages pg @ group_stage pg) @ [ChannelStage (channel_name n (pgChannel pg)) lb i (Stateful n s)]" "group_stage pg1 = []" "pgGroup pg1 = []"
    unfolding channel_stage_made [OF assms(2)] by (simp_all add: group_stage_def)
  have "\<not> is_keyed (last (pgStages pg @ group_stage pg))"
    using assms(1) by (auto simp: grouped_def group_stage_def)
  then have "apart (pgStages pg1)" using assms(1) unfolding pg1(1) successively_append_iff [of _ _ "[_]"] by (simp add: grouped_def)
  then show ?thesis by (simp add: grouped_def pg1(2,3)) (simp add: pg1(1))
qed

lemma plan_grouped:
  assumes "plan_loop bf labels ops 0 plan_start = Inr pg"
  shows "apart (pgStages pg)"
proof -
  let ?P = "\<lambda>rest (i :: nat) pg. grouped rest pg"
  have "\<exists>i0 pg0. ?P [] i0 pg0 \<and> pg = flush pg0"
  proof (rule plan_loop_rule [OF assms, of ?P])
    show "grouped ops plan_start" by (simp add: grouped_def group_stage_def plan_start_def)
  qed (rule grouped_keyed grouped_stateless grouped_channel, assumption+)+
  then show ?thesis by (auto simp: grouped_def)
qed

section \<open>Stage names\<close>

lemma split_last_dash:
  assumes "xs @ CHR ''-'' # us = ys @ CHR ''-'' # vs" and "CHR ''-'' \<notin> set us" and "CHR ''-'' \<notin> set vs"
  shows "us = vs"
proof -
  have "rev us @ CHR ''-'' # rev xs = rev vs @ CHR ''-'' # rev ys" using arg_cong [OF assms(1), of rev] by simp
  then have "takeWhile (\<lambda>c. c \<noteq> CHR ''-'') (rev us @ CHR ''-'' # rev xs) = takeWhile (\<lambda>c. c \<noteq> CHR ''-'') (rev vs @ CHR ''-'' # rev ys)" by simp
  moreover have "takeWhile (\<lambda>c. c \<noteq> CHR ''-'') (rev zs @ CHR ''-'' # ws) = rev zs" if "CHR ''-'' \<notin> set zs" for zs ws
    by (rule takeWhile_append_stop) (use that in auto)
  ultimately show ?thesis using assms(2,3) by (metis rev_is_rev_conv)
qed

lemma name_simps [simp]:
  "stateless_name i = stateless_name j \<longleftrightarrow> i = j" "keyed_name i = keyed_name j \<longleftrightarrow> i = j"
  "stateless_name i \<noteq> keyed_name j" "keyed_name j \<noteq> stateless_name i" "stateless_name i \<noteq> channel_name n j"
  "channel_name n j \<noteq> stateless_name i" "keyed_name i \<noteq> channel_name n j" "channel_name n j \<noteq> keyed_name i"
  "stateless_name i \<noteq> []" "keyed_name i \<noteq> []" "channel_name n i \<noteq> []"
  "stateless_name i \<noteq> ''source''" "keyed_name i \<noteq> ''source''" "channel_name n i \<noteq> ''source''"
  "''sink'' \<noteq> stateless_name i" "''sink'' \<noteq> keyed_name i" "''sink'' \<noteq> channel_name n i"
  by (auto simp: stateless_name_def keyed_name_def channel_name_def)

lemma channel_name_inject: "channel_name n i = channel_name m j \<Longrightarrow> i = j"
proof -
  assume "channel_name n i = channel_name m j"
  then have "n @ CHR ''-'' # itoa (int i) = m @ CHR ''-'' # itoa (int j)" by (simp add: channel_name_def)
  moreover have "CHR ''-'' \<notin> set (itoa (int k))" for k using dec_digits [of "CHR ''-''" k] by (auto simp: itoa_def)
  ultimately show "i = j" using split_last_dash [of n "itoa (int i)" m "itoa (int j)"] by simp
qed

definition used_names :: "'s planning \<Rightarrow> string set" where
  "used_names pg = {''source''} \<union> stateless_name ` {..<pgStateless pg} \<union> keyed_name ` {..<pgKeyed pg} \<union>
     {channel_name n k | n k. k < pgChannel pg}"

definition named :: "'s planning \<Rightarrow> bool" where
  "named pg \<longleftrightarrow> distinct (map stage_name (pgStages pg)) \<and> set (map stage_name (pgStages pg)) \<subseteq> used_names pg"

lemma named_push:
  assumes "named pg" and "pgStages pg1 = pgStages pg @ [st]" and "stage_name st \<notin> used_names pg"
    and "stage_name st \<in> used_names pg1" and "used_names pg \<subseteq> used_names pg1"
  shows "named pg1"
  using assms by (auto simp: named_def)

lemma named_flush: "named pg \<Longrightarrow> named (flush pg)"
proof (cases "pgGroup pg = []")
  case True
  assume "named pg"
  then show ?thesis using True by (simp add: flush_def)
next
  case False
  assume "named pg"
  then show ?thesis
    by (rule named_push [of _ _ "hd (group_stage pg)"]) (use False in \<open>auto simp: used_names_def group_stage_def\<close>)
qed

lemma named_stateless: "named pg \<Longrightarrow> named (plan_stateless op par lb pg)"
proof -
  assume "named pg"
  then have "named (regroup par pg)" using named_flush [of pg] by (simp add: regroup_def)
  moreover have "named (plan_stateless op par lb pg) = named (regroup par pg)"
    by (simp add: named_def used_names_def) (simp add: regroup_def)
  ultimately show ?thesis by simp
qed

lemma named_keyed:
  assumes "named pg" and "plan_keyed bf kb stateful (flush pg) = Inr pg1" and "0 < kbPartitions kb"
  shows "named pg1"
proof -
  obtain ws where pg1: "pgStages pg1 = pgStages (flush pg) @ [KeyedStage (keyed_name (pgKeyed (flush pg))) kb ws]"
      "pgKeyed pg1 = pgKeyed pg + 1" "pgStateless pg1 = pgStateless (flush pg)" "pgChannel pg1 = pgChannel pg"
    by (rule keyed_stage_made [OF assms(2,3)]) simp_all
  show ?thesis by (rule named_push [OF named_flush [OF assms(1)] pg1(1)]) (auto simp: used_names_def pg1(2-4))
qed

lemma named_channel:
  assumes "named pg" and "plan_channel bf i (Stateful n s) lb pg = Inr pg1"
  shows "named pg1"
proof -
  have pg1: "pgStages pg1 = pgStages (flush pg) @ [ChannelStage (channel_name n (pgChannel pg)) lb i (Stateful n s)]"
      "pgKeyed pg1 = pgKeyed pg" "pgStateless pg1 = pgStateless (flush pg)" "pgChannel pg1 = pgChannel pg + 1"
    unfolding channel_stage_made [OF assms(2)] by simp_all
  show ?thesis
    by (rule named_push [OF named_flush [OF assms(1)] pg1(1)])
      (auto simp: used_names_def pg1(2-4) less_Suc_eq dest: channel_name_inject)
qed

lemma plan_named:
  assumes "plan_loop bf labels ops 0 plan_start = Inr pg"
  shows "distinct (map stage_name (pgStages pg))" and "''sink'' \<notin> stage_name ` set (pgStages pg)"
proof -
  let ?P = "\<lambda>rest (i :: nat) pg. named pg"
  have "\<exists>i0 pg0. ?P [] i0 pg0 \<and> pg = flush pg0"
  proof (rule plan_loop_rule [OF assms, of ?P])
    show "named plan_start" by (simp add: named_def used_names_def plan_start_def)
  qed (rule named_keyed named_stateless named_channel, assumption+)+
  then have n: "named pg" using named_flush by auto
  then show "distinct (map stage_name (pgStages pg))" by (simp add: named_def)
  have "''sink'' \<notin> used_names pg" by (auto simp: used_names_def)
  then show "''sink'' \<notin> stage_name ` set (pgStages pg)" using n by (auto simp: named_def)
qed

lemma plan_source:
  assumes "plan_loop bf labels ops 0 plan_start = Inr pg"
  shows "\<exists>mid. pgStages pg = SourceStage # mid"
proof -
  let ?ok = "\<lambda>pg. pgStages pg \<noteq> [] \<and> hd (pgStages pg) = SourceStage"
  let ?P = "\<lambda>rest (i :: nat) pg. ?ok pg"
  have "\<exists>i0 pg0. ?P [] i0 pg0 \<and> pg = flush pg0"
  proof (rule plan_loop_rule [OF assms, of ?P])
    fix kb and rest :: "'a operator list" and i pg pg1
    assume p: "?ok pg" and k: "0 < kbPartitions kb" "plan_keyed bf kb (take_stateful rest) (flush pg) = Inr pg1"
    obtain ws where "pgStages pg1 = pgStages (flush pg) @ [KeyedStage (keyed_name (pgKeyed (flush pg))) kb ws]"
      by (rule keyed_stage_made [OF k(2,1)]) simp_all
    then show "?ok pg1" using p by simp
  next
    fix n s and rest :: "'a operator list" and i pg pg1
    assume "?ok pg" and c: "plan_channel bf i (Stateful n s) (labels ! i) pg = Inr pg1"
    then show "?ok pg1" unfolding channel_stage_made [OF c] by simp
  qed (simp_all add: plan_start_def regroup_def)
  then have "?ok pg" by auto
  then show ?thesis by (cases "pgStages pg") simp_all
qed

section \<open>When there is a plan\<close>

definition plannable :: "'s plan_config \<Rightarrow> bool" where
  "plannable cfg \<longleftrightarrow> pcSource cfg \<and> pcSink cfg \<and> length (pcLabels cfg) = length (pcOperators cfg) \<and>
     (\<forall>op \<in> set (pcOperators cfg). case op of KeyByOp kb \<Rightarrow> 0 < kbPartitions kb | _ \<Rightarrow> True)"

lemma clone_workers_total:
  assumes "\<forall>owner. assign_backend bf owner = None"
  shows "\<exists>ws. clone_workers bf ops n k = Inr ws"
proof -
  have c: "clone_chain bf ops k \<noteq> Inl e" for k e
    by (induction ops arbitrary: k e) (use assms in \<open>simp_all split: sum.split\<close>)
  have "clone_workers bf ops n k \<noteq> Inl e" for e
    by (induction n arbitrary: k e) (use c in \<open>simp_all split: sum.split\<close>)
  then show ?thesis by (cases "clone_workers bf ops n k") auto
qed

lemma plan_loop_total:
  assumes "\<forall>owner. assign_backend bf owner = None"
    and "\<forall>op \<in> set ops. case op of KeyByOp kb \<Rightarrow> 0 < kbPartitions kb | _ \<Rightarrow> True"
  shows "\<exists>pg'. plan_loop bf labels ops i pg = Inr pg'"
  using assms
proof (induction bf labels ops i pg rule: plan_loop.induct)
  case (2 bf labels kb ops i pg)
  obtain ws where "clone_workers bf (take_stateful ops) (nat (kbPartitions kb)) (pgClones pg) = Inr ws"
    using clone_workers_total [OF 2(2)] by blast
  then obtain pg1 where k: "plan_keyed bf kb (take_stateful ops) (flush pg) = Inr pg1" by (simp add: plan_keyed_def)
  have p: "\<not> kbPartitions kb \<le> 0" using 2(3) by simp
  have "\<forall>op \<in> set (drop (length (take_stateful ops)) ops). case op of KeyByOp kb \<Rightarrow> 0 < kbPartitions kb | _ \<Rightarrow> True"
    using 2(3) by (auto dest: in_set_dropD)
  from 2(1) [OF p refl refl k 2(2) this] p k show ?case by (simp add: Let_def)
next
  case (4 bf labels n s ops i pg)
  have "plan_channel bf i (Stateful n s) (labels ! i) pg \<noteq> Inl e" for e using 4(2) by (simp add: plan_channel_def Let_def)
  then obtain pg1 where c: "plan_channel bf i (Stateful n s) (labels ! i) pg = Inr pg1" by (cases "plan_channel bf i (Stateful n s) (labels ! i) pg") auto
  from 4(1) [OF c 4(2)] 4(3) c show ?case by simp
qed simp_all

lemma plan_keys_positive:
  assumes "plan_loop bf labels ops 0 plan_start = Inr pg" and "KeyByOp kb \<in> set ops"
  shows "0 < kbPartitions kb"
proof -
  obtain st where st: "st \<in> set (pgStages pg)" "KeyByOp kb \<in> set (stage_ops st)" using plan_covers [OF assms(1)] assms(2) by auto
  have "stage_ok st" by (rule plan_stages_ok [OF assms(1) st(1)])
  with st(2) show ?thesis by (cases st rule: stage_ok.cases) auto
qed

section \<open>Properties\<close>

text \<open>
  C15. The planner builds a plan exactly when there is a source, a sink, a label per operator and a
  positive partition count in every KeyBy, unless a state backend cannot be opened. The plan starts with the source and ends
  with the sink; between them the stages hold all operators, each once and in order. A stateless stage
  has one parallelism, a keyed stage one worker per partition with the chain of all stateful operators
  that follow the KeyBy, and no two neighbours should have been one stage. Stage names are distinct, so
  are the owners of operator state, and the clones are numbered from 0 without gaps.
\<close>

theorem plan_structure:
  assumes "\<forall>owner. assign_backend (pcBackendFor cfg) owner = None"
  shows "case build_plan cfg of
      Inl e \<Rightarrow> \<not> plannable cfg
    | Inr stages \<Rightarrow> plannable cfg \<and> (\<exists>mid. stages = SourceStage # mid @ [SinkStage] \<and>
        concat (map stage_ops mid) = pcOperators cfg \<and> (\<forall>st \<in> set mid. stage_ok st) \<and>
        successively (\<lambda>a b. \<not> mergeable a b) mid \<and> distinct (map stage_name stages) \<and>
        distinct (concat (map stage_owners mid)) \<and>
        concat (map clone_indices mid) = [0..<length (concat (map clone_indices mid))])"
proof (cases "plan_loop (pcBackendFor cfg) (pcLabels cfg) (pcOperators cfg) 0 plan_start")
  case (Inl e)
  then have "\<not> plannable cfg" using plan_loop_total [OF assms, of "pcOperators cfg" "pcLabels cfg" 0 plan_start] by (auto simp: plannable_def)
  then show ?thesis using Inl by (auto simp: build_plan_def plannable_def)
next
  case (Inr pg)
  obtain mid where mid: "pgStages pg = SourceStage # mid" using plan_source [OF Inr] by blast
  have kb: "\<forall>op \<in> set (pcOperators cfg). case op of KeyByOp kb \<Rightarrow> 0 < kbPartitions kb | _ \<Rightarrow> True"
    using plan_keys_positive [OF Inr] by (auto split: operator.split)
  have "concat (map stage_ops mid) = pcOperators cfg" using plan_covers [OF Inr] mid by simp
  moreover have "\<forall>st \<in> set mid. stage_ok st" using plan_stages_ok [OF Inr] mid by simp
  moreover have "successively (\<lambda>a b. \<not> mergeable a b) mid" using plan_grouped [OF Inr] mid by (cases mid) simp_all
  moreover have "distinct (map stage_name (pgStages pg @ [SinkStage]))" using plan_named [OF Inr] by auto
  moreover have "distinct (concat (map stage_owners mid))" using plan_owners(1) [OF Inr] mid by (simp add: owners_def)
  moreover have "concat (map clone_indices mid) = [0..<length (concat (map clone_indices mid))]"
    using plan_owners(2) [OF Inr] mid by simp
  ultimately have shape: "\<exists>mid. pgStages pg @ [SinkStage] = SourceStage # mid @ [SinkStage] \<and>
      concat (map stage_ops mid) = pcOperators cfg \<and> (\<forall>st \<in> set mid. stage_ok st) \<and>
      successively (\<lambda>a b. \<not> mergeable a b) mid \<and> distinct (map stage_name (pgStages pg @ [SinkStage])) \<and>
      distinct (concat (map stage_owners mid)) \<and> concat (map clone_indices mid) = [0..<length (concat (map clone_indices mid))]"
    using mid by (intro exI [of _ mid]) simp
  have g: "plannable cfg \<longleftrightarrow> pcSource cfg \<and> pcSink cfg \<and> length (pcLabels cfg) = length (pcOperators cfg)"
    using kb by (simp add: plannable_def)
  show ?thesis
  proof (cases "plannable cfg")
    case True
    then have b: "build_plan cfg = Inr (pgStages pg @ [SinkStage])" using g Inr by (simp add: build_plan_def)
    show ?thesis unfolding b sum.case using True shape by (rule conjI)
  next
    case False
    then have "\<exists>e. build_plan cfg = Inl e" using g by (auto simp: build_plan_def)
    then show ?thesis using False by auto
  qed
qed

definition demo_plan :: "unit plan_config" where
  "demo_plan = \<lparr>pcSource = True,
     pcOperators = [Stateless (MapOp Some) 1, Stateless (FilterOp (\<lambda>r. Some True)) 1, Stateless (MapOp Some) 4,
       KeyByOp (with_partitions (keyBy rKey) 2), Stateful ''Window'' (), Stateful ''Reduce'' (), Stateless (MapOp Some) 1, Stateful ''Reduce'' ()],
     pcLabels = [''a'', ''b'', ''c'', ''d'', ''e'', ''f'', ''g'', ''h''], pcSink = True, pcBackendFor = None\<rparr>"

theorem plan_structure_witness:
  "\<exists>stages mid. build_plan demo_plan = Inr stages \<and> stages = SourceStage # mid @ [SinkStage] \<and>
     concat (map stage_ops mid) = pcOperators demo_plan \<and> distinct (concat (map stage_owners mid)) \<and>
     map stage_name stages = [''source'', ''stateless-0'', ''stateless-1'', ''keyed-0'', ''stateless-2'', ''op-Reduce-0'', ''sink'']"
proof -
  have d: "dec 0 = ''0''" "dec (Suc 0) = ''1''" "dec (Suc (Suc 0)) = ''2''" by code_simp+
  obtain stages where b: "build_plan demo_plan = Inr stages"
    and n: "map stage_name stages = [''source'', ''stateless-0'', ''stateless-1'', ''keyed-0'', ''stateless-2'', ''op-Reduce-0'', ''sink'']"
    by (simp add: demo_plan_def build_plan_def plan_start_def plan_stateless_def flush_def plan_keyed_def plan_channel_def assign_backend_def
        parallelism_def with_partitions_def keyBy_def numeral_2_eq_2 stateless_name_def keyed_name_def channel_name_def itoa_def d)
  have "\<forall>owner. assign_backend (pcBackendFor demo_plan) owner = None" by (simp add: assign_backend_def demo_plan_def)
  from plan_structure [OF this, unfolded b sum.case] obtain mid where "stages = SourceStage # mid @ [SinkStage]"
    "concat (map stage_ops mid) = pcOperators demo_plan" "distinct (concat (map stage_owners mid))" by (elim exE conjE)
  with b n show ?thesis by (intro exI [of _ stages] exI [of _ mid] conjI)
qed

end
