(* ===== verification/Spec2Isabelle.thy ===== *)
theory Spec2Isabelle
  imports Watermarks Keyed_Stage Pebble_State Window_Props Control_Scenarios Exactly_Once_Props
    Join_Correct Stage_Plan
begin

text \<open>
  A verification development for the Weibo stream-processing engine (Go, under \<^verbatim>\<open>src/\<close>).

  \<^bold>\<open>The program.\<close> A job is a source, a list of operators and a sink. The planner groups the operators into
  stages: stateless chains, keyed stages (a router, one chain of cloned stateful operators per
  partition, an aligned merge) and single channel operators. Data records, watermarks and checkpoint
  barriers travel in one channel. In exactly-once mode the engine injects barriers behind the source,
  the operators snapshot their state when a barrier passes, the transactional Kafka sink closes one
  transaction per checkpoint, and the coordinator persists, commits and promotes the checkpoint; after
  a crash a recovery decision picks the checkpoint to resume from. Beside the engine stands a control
  plane: a controller with a SQL store and a container backend runs each job in a container, and a
  reconciler restarts what has failed.

  \<^bold>\<open>How the code is modelled.\<close> Structs are records, operations are functions on explicit state, and every
  error return, panic and early return is a branch of the result (an option, or the sum type of the
  operations in \<^verbatim>\<open>Fallible\<close>). Goroutines that interleave are step relations: \<^const>\<open>merge_step\<close>,
  \<^const>\<open>job_step\<close>, \<^const>\<open>control_step\<close>. A byte slice or Go string is a \<^typ>\<open>string\<close>, a time a number of
  nanoseconds (an \<^typ>\<open>int\<close>, wrapped to 64 bits wherever the code converts), a Go map an association
  list whose order is never relied upon; where the runtime picks an order, the order is an argument.
  What lies outside the repository is a parameter: the Kafka client (locale \<^verbatim>\<open>txn_broker\<close>), Pebble
  (locale \<^verbatim>\<open>ordered_kv\<close>), the container runtime (locale \<^verbatim>\<open>container_backend\<close>), user functions, clocks
  and id sources. Each such locale is interpreted, so its laws can hold.

  \<^bold>\<open>Foundations.\<close> \<^verbatim>\<open>Prelude\<close> (64-bit arithmetic, decimal numbers, lists), \<^verbatim>\<open>Go_Time\<close>, \<^verbatim>\<open>Go_Time_Format\<close> and
  \<^verbatim>\<open>Time_Order\<close> (RFC 3339 texts: round trip, and when text order is time order), \<^verbatim>\<open>Go_JSON\<close> (object keys
  and UTF-8), \<^verbatim>\<open>Byte_Order\<close> (prefix ranges), \<^verbatim>\<open>Fallible\<close> (operations that may fail, with a calculus of
  pre- and postconditions), \<^verbatim>\<open>Records\<close> (\<^verbatim>\<open>types/record.go\<close>).

  \<^bold>\<open>Event time.\<close> \<^verbatim>\<open>Windows\<close> (\<^verbatim>\<open>window/\<close>): tumbling and sliding assigners return exactly the aligned windows
  that contain the timestamp, with the case before the offset where they do not. \<^verbatim>\<open>Watermarks\<close>
  (\<^verbatim>\<open>watermark/bounded.go\<close>, \<^verbatim>\<open>source/watermark.go\<close>): watermarks never go back, and a partition in order is
  not overtaken by a watermark that advances after it is first seen.

  \<^bold>\<open>State.\<close> \<^verbatim>\<open>State_Backend\<close> (\<^verbatim>\<open>state/state.go\<close>, \<^verbatim>\<open>memory.go\<close>) states the contracts of value and list state
  and interprets them in memory; \<^verbatim>\<open>Pebble_State\<close> (\<^verbatim>\<open>state/pebble.go\<close>) proves that the key encoding and the
  lazily seeded sequence numbers implement them on an ordered store, for keys without a zero byte.

  \<^bold>\<open>Operators.\<close> \<^verbatim>\<open>Window_Key\<close>, \<^verbatim>\<open>Window_Op\<close> (\<^verbatim>\<open>operator/window.go\<close>), with \<^verbatim>\<open>Window_Correct\<close>,
  \<^verbatim>\<open>Window_Invariant\<close> and \<^verbatim>\<open>Window_Props\<close>: the buffer invariant, exactly-once emission for fixed windows and
  sessions, the checkpoint round trip and where it fails. \<^verbatim>\<open>Reduce_Op\<close> (\<^verbatim>\<open>operator/reduce.go\<close>): a keyed Reduce
  on any number of workers equals the sequential one key by key. \<^verbatim>\<open>Join_Op\<close> and \<^verbatim>\<open>Join_Correct\<close>
  (\<^verbatim>\<open>operator/join.go\<close>): evicting loses no match of punctual input.

  \<^bold>\<open>Stages.\<close> \<^verbatim>\<open>Stateless_Stage\<close> (\<^verbatim>\<open>pipeline/stateless_stage.go\<close>): fusing and parallel workers do not change the
  result. \<^verbatim>\<open>Key_Routing\<close> (\<^verbatim>\<open>operator/keyby.go\<close>), \<^verbatim>\<open>Aligned_Merge\<close> (\<^verbatim>\<open>pipeline/markers.go\<close>) and \<^verbatim>\<open>Keyed_Stage\<close>
  (\<^verbatim>\<open>pipeline/keyed_stage.go\<close>): no record overtakes a marker, everything is delivered, the chains of Window
  and Reduce clones meet the premise of the merge, and what happens when a worker ends early.
  \<^verbatim>\<open>Stage_Plan\<close> (\<^verbatim>\<open>pipeline/planner.go\<close>, \<^verbatim>\<open>plan.go\<close>): the plan keeps every operator once and in order.

  \<^bold>\<open>Exactly once.\<close> \<^verbatim>\<open>Checkpoint_Storage\<close> and \<^verbatim>\<open>Checkpoint_Laws\<close> (\<^verbatim>\<open>checkpoint/checkpoint.go\<close>), \<^verbatim>\<open>Txn_Sink\<close>
  (\<^verbatim>\<open>sink/kafka_txn.go\<close>), \<^verbatim>\<open>Coordinator\<close> (\<^verbatim>\<open>checkpoint/coordinator.go\<close>), \<^verbatim>\<open>Coordinated_Run\<close> (\<^verbatim>\<open>engine.go\<close>) build the
  system whose steps include faults of any file operation or broker request and crashes at any point.
  \<^verbatim>\<open>Exactly_Once\<close> proves the invariant, and \<^verbatim>\<open>Exactly_Once_Props\<close> the delivery theorem for a keyed Reduce
  job under three conditions: a fatal coordination error ends the run before the next checkpoint is
  finalized (\<open>prompt\<close>), no fault falls between the two writes of a promotion (\<open>whole\<close>), and a partition in
  use is read before a barrier (\<open>lively\<close>). Executions found with \<^verbatim>\<open>Job_Scripts\<close> show that each is needed.
  A commit that the client reports as done is visible at once to a read-committed consumer; this is
  part of the contract of the broker.

  \<^bold>\<open>Control plane.\<close> \<^verbatim>\<open>Lifecycle\<close>, \<^verbatim>\<open>History\<close>, \<^verbatim>\<open>Control_Store\<close> and \<^verbatim>\<open>Store_Props\<close> (\<^verbatim>\<open>control/lifecycle\<close>,
  \<^verbatim>\<open>history.go\<close>, \<^verbatim>\<open>control/store\<close>): one active run per job, pruning, audit pages, the latest run.
  \<^verbatim>\<open>Container_Backend\<close>, \<^verbatim>\<open>Controller\<close>, \<^verbatim>\<open>Reconcile\<close> (\<^verbatim>\<open>control/backend\<close>, \<^verbatim>\<open>controller.go\<close>, \<^verbatim>\<open>reconcile.go\<close>,
  \<^verbatim>\<open>sweep.go\<close>) define every operation; \<^verbatim>\<open>Control_Calculus\<close>, \<^verbatim>\<open>Control_Fencing\<close>, \<^verbatim>\<open>Control_Safety\<close> prove
  that a job never has two live containers; \<^verbatim>\<open>Control_Scenarios\<close> instantiates this and exhibits the schedules
  in which a removal fails, a restart is lost, and a stale container is adopted. The controller may
  restart between operations, not within one; a crash inside an operation is covered as far as it equals
  a failing statement.

  \<^bold>\<open>Bounds.\<close> No fuel is used: every function terminates by structural recursion or a measure. The merge has a
  proved bound on its steps. Theorems on clocks hold up to a horizon of readings that fit 64 bits;
  theorems on stored times ask for years of four digits, on which the text format is exact.

  \<^bold>\<open>Not modelled.\<close> Network clients and drivers (the Kafka source, other sources and sinks, Docker and
  Kubernetes, blob stores, authentication), HTTP interfaces, the command line, the dashboard, the job agent,
  metrics, traces and logs, examples; the workflow compiler; keyed process operators; runs of the
  engine outside exactly-once mode; cancellation of contexts within a stage, which cuts a run short.
\<close>

end
